(* ===== verification/Mini_Prelude.thy ===== *)
theory Mini_Prelude
  imports
    Complex_Main
    "HOL-Library.AList"
    "HOL-Library.Code_Target_Nat"
    "HOL-Library.Multiset"
    "HOL-Library.Char_ord"
    "HOL-Library.List_Lexorder"
    "HOL-Library.Product_Lexorder"
begin

text \<open>
  Shared material of the development: the named collections the component theories add
  their facts to, the type synonyms of the model, and generic lemmas on lists, sums and
  association lists that several components use.

  The types. A Python \<^verbatim>\<open>bytes\<close> value is a list of HOL characters (a HOL character is one byte);
  a Python \<^verbatim>\<open>str\<close> is the list of its code points; a clock reading or a duration is a rational
  number of seconds.
\<close>

type_synonym bytes = "char list"
type_synonym pystr = "nat list"
type_synonym seconds = rat

named_theorems inv_intros \<open>operations that preserve the store invariant\<close>


section \<open>Results\<close>

text \<open>Sequencing of computations that may raise: the first error wins.\<close>

fun sum_bind :: "'e + 'a \<Rightarrow> ('a \<Rightarrow> 'e + 'b) \<Rightarrow> 'e + 'b" where
  "sum_bind (Inl e) f = Inl e"
| "sum_bind (Inr x) f = f x"

lemma sum_bind_eq_Inr:
  "sum_bind m f = Inr y \<longleftrightarrow> (\<exists>x. m = Inr x \<and> f x = Inr y)"
  by (cases m) auto

lemma sum_bind_eq_Inl:
  "sum_bind m f = Inl e \<longleftrightarrow> m = Inl e \<or> (\<exists>x. m = Inr x \<and> f x = Inl e)"
  by (cases m) auto

lemma map_sum_eq_Inr: "map_sum f g m = Inr y \<longleftrightarrow> (\<exists>x. m = Inr x \<and> y = g x)"
  by (cases m) auto

lemma map_sum_eq_Inl: "map_sum f g m = Inl e \<longleftrightarrow> (\<exists>x. m = Inl x \<and> e = f x)"
  by (cases m) auto

lemma isl_sum_bind [simp]: "isl (sum_bind m f) \<longleftrightarrow> isl m \<or> isl (f (projr m))"
  by (cases m) auto


section \<open>Lists\<close>

lemma takeWhile_neq_append [simp]:
  "x \<notin> set xs \<Longrightarrow> takeWhile (\<lambda>y. y \<noteq> x) (xs @ x # ys) = xs"
  by (induction xs) auto

lemma takeWhile_neq_length [simp]:
  "x \<notin> set xs \<Longrightarrow> length (takeWhile (\<lambda>y. y \<noteq> x) (xs @ x # ys)) = length xs"
  by simp

lemma dropWhile_id: "(xs \<noteq> [] \<Longrightarrow> \<not> P (hd xs)) \<Longrightarrow> dropWhile P xs = xs"
  by (cases xs) auto

lemma sum_list_map_filter_split:
  fixes f :: "'a \<Rightarrow> int"
  shows "sum_list (map f xs) = sum_list (map f (filter P xs)) + sum_list (map f (filter (\<lambda>x. \<not> P x) xs))"
  by (induction xs) auto

lemma filter_distinct_keys:
  "distinct (map fst xs) \<Longrightarrow> distinct (map fst (filter P xs))"
  by (induction xs) auto


section \<open>Association lists\<close>

text \<open>
  \<open>AList.delete\<close> keeps the order of what is left; \<open>AList.update\<close> overwrites in place or
  appends. The two facts below describe the updates exactly when the keys are distinct.
\<close>

lemma delete_notin: "k \<notin> fst ` set xs \<Longrightarrow> AList.delete k xs = xs"
  by (induction xs) auto

lemma update_notin: "k \<notin> fst ` set xs \<Longrightarrow> AList.update k v xs = xs @ [(k, v)]"
  by (induction xs) auto

lemma map_of_filter_distinct:
  "distinct (map fst d) \<Longrightarrow>
   map_of (filter Q d) x = (case map_of d x of Some y \<Rightarrow> (if Q (x, y) then Some y else None) | None \<Rightarrow> None)"
  by (induction d) (force simp: map_of_eq_None_iff split: option.splits)+

lemma map_of_delete_distinct:
  "map_of (AList.delete k xs) = (map_of xs)(k := None)"
  by (simp add: delete_conv')

lemma mset_delete:
  "distinct (map fst xs) \<Longrightarrow> map_of xs k = Some v \<Longrightarrow>
   mset xs = add_mset (k, v) (mset (AList.delete k xs))"
proof (induction xs)
  case (Cons p xs)
  show ?case
  proof (cases "fst p = k")
    case True
    with Cons.prems have "AList.delete k (p # xs) = xs" and "p = (k, v)"
      by (cases p, auto simp: delete_notin)+
    then show ?thesis by simp
  next
    case False
    with Cons show ?thesis by (cases p) auto
  qed
qed simp

lemma sum_list_delete:
  fixes f :: "'k \<times> 'v \<Rightarrow> int"
  assumes "distinct (map fst xs)" and "map_of xs k = Some v"
  shows "sum_list (map f (AList.delete k xs)) = sum_list (map f xs) - f (k, v)"
proof -
  have "sum_mset (image_mset f (mset xs)) = f (k, v) + sum_mset (image_mset f (mset (AList.delete k xs)))"
    by (simp add: mset_delete [OF assms])
  then show ?thesis
    by (simp add: sum_mset_sum_list flip: mset_map)
qed

lemma length_delete_Some:
  "distinct (map fst xs) \<Longrightarrow> map_of xs k = Some v \<Longrightarrow>
   Suc (length (AList.delete k xs)) = length xs"
  by (drule (1) mset_delete) (metis size_add_mset size_mset)

lemma set_delete_subset: "set (AList.delete k xs) \<subseteq> set xs"
  by (auto simp: AList.delete_eq)

lemma delete_hd_tl:
  "distinct (map fst (p # xs)) \<Longrightarrow> AList.delete (fst p) (p # xs) = xs"
  by (cases p) (simp add: delete_notin)

end
