(* ===== verification/Py_Text.thy ===== *)
theory Py_Text
  imports Mini_Prelude
begin

text \<open>
  The text primitives of Python that the program uses, as executable functions: UTF-8 and
  ASCII decoding with \<^verbatim>\<open>errors="replace"\<close>, UTF-8 encoding, \<^verbatim>\<open>upper\<close>, \<^verbatim>\<open>split\<close> and
  \<^verbatim>\<open>strip\<close>, \<^verbatim>\<open>str(n)\<close> and \<^verbatim>\<open>int(text)\<close> with its limit of 4300 digits, the pattern
  \<^verbatim>\<open>-?[0-9]+\<close>, and \<^verbatim>\<open>round\<close>, \<^verbatim>\<open>int\<close> and \<^verbatim>\<open>math.ceil\<close> on numbers.
\<close>

section \<open>Text and bytes\<close>

definition ascii_str :: "string \<Rightarrow> pystr" where
  "ascii_str s = map of_char s"

definition LF :: char where "LF = CHR 0x0A"
definition CR :: char where "CR = CHR 0x0D"

definition is_space_byte :: "char \<Rightarrow> bool" where
  "is_space_byte c \<longleftrightarrow> (let n = of_char c :: nat in n = 32 \<or> (9 \<le> n \<and> n \<le> 13))"

text \<open>\<^verbatim>\<open>bytes.split()\<close>: maximal runs of non-space bytes. The accumulator is the current word.\<close>

fun split_words :: "bytes \<Rightarrow> bytes \<Rightarrow> bytes list" where
  "split_words w [] = (if w = [] then [] else [w])"
| "split_words w (c # cs) =
     (if is_space_byte c then (if w = [] then split_words [] cs else w # split_words [] cs)
      else split_words (w @ [c]) cs)"

definition py_split :: "bytes \<Rightarrow> bytes list" where
  "py_split s = split_words [] s"

definition py_strip :: "bytes \<Rightarrow> bytes" where
  "py_strip s = rev (dropWhile is_space_byte (rev (dropWhile is_space_byte s)))"

text \<open>UTF-8 encoding of one code point; a surrogate raises UnicodeEncodeError (\<open>None\<close>).\<close>

definition utf8_encode1 :: "nat \<Rightarrow> nat list option" where
  "utf8_encode1 c =
     (if c < 0x80 then Some [c]
      else if c < 0x800 then Some [0xC0 + c div 64, 0x80 + c mod 64]
      else if 0xD800 \<le> c \<and> c \<le> 0xDFFF then None
      else if c < 0x10000 then
        Some [0xE0 + c div 4096, 0x80 + c div 64 mod 64, 0x80 + c mod 64]
      else if c < 0x110000 then
        Some [0xF0 + c div 262144, 0x80 + c div 4096 mod 64, 0x80 + c div 64 mod 64, 0x80 + c mod 64]
      else None)"

fun utf8_encode :: "pystr \<Rightarrow> bytes option" where
  "utf8_encode [] = Some []"
| "utf8_encode (c # cs) =
     (case utf8_encode1 c of
        None \<Rightarrow> None
      | Some b \<Rightarrow> map_option (\<lambda>r. map char_of b @ r) (utf8_encode cs))"

definition REPLACEMENT :: nat where "REPLACEMENT = 0xFFFD"

definition is_cont :: "nat \<Rightarrow> bool" where
  "is_cont b \<longleftrightarrow> 0x80 \<le> b \<and> b \<le> 0xBF"

text \<open>The second byte allowed after a three- or four-byte lead.\<close>

definition second_ok :: "nat \<Rightarrow> nat \<Rightarrow> bool" where
  "second_ok b0 b1 \<longleftrightarrow>
     is_cont b1 \<and> (b0 = 0xE0 \<longrightarrow> 0xA0 \<le> b1) \<and> (b0 = 0xED \<longrightarrow> b1 \<le> 0x9F) \<and>
     (b0 = 0xF0 \<longrightarrow> 0x90 \<le> b1) \<and> (b0 = 0xF4 \<longrightarrow> b1 \<le> 0x8F)"

text \<open>
  Decoding with \<^verbatim>\<open>errors="replace"\<close>: every maximal prefix of an ill-formed sequence becomes
  one replacement character and decoding restarts at the first byte that does not fit.
\<close>

fun utf8_decode_nats :: "nat list \<Rightarrow> pystr" where
  "utf8_decode_nats [] = []"
| "utf8_decode_nats (b0 # bs) =
     (if b0 < 0x80 then b0 # utf8_decode_nats bs
      else if 0xC2 \<le> b0 \<and> b0 \<le> 0xDF then
        (case bs of
           [] \<Rightarrow> [REPLACEMENT]
         | b1 # cs \<Rightarrow>
             if is_cont b1 then ((b0 - 0xC0) * 64 + (b1 - 0x80)) # utf8_decode_nats cs
             else REPLACEMENT # utf8_decode_nats bs)
      else if 0xE0 \<le> b0 \<and> b0 \<le> 0xEF then
        (case bs of
           [] \<Rightarrow> [REPLACEMENT]
         | b1 # cs \<Rightarrow>
             if \<not> second_ok b0 b1 then REPLACEMENT # utf8_decode_nats bs
             else (case cs of
                     [] \<Rightarrow> [REPLACEMENT]
                   | b2 # ds \<Rightarrow>
                       if is_cont b2
                       then ((b0 - 0xE0) * 4096 + (b1 - 0x80) * 64 + (b2 - 0x80)) # utf8_decode_nats ds
                       else REPLACEMENT # utf8_decode_nats cs))
      else if 0xF0 \<le> b0 \<and> b0 \<le> 0xF4 then
        (case bs of
           [] \<Rightarrow> [REPLACEMENT]
         | b1 # cs \<Rightarrow>
             if \<not> second_ok b0 b1 then REPLACEMENT # utf8_decode_nats bs
             else (case cs of
                     [] \<Rightarrow> [REPLACEMENT]
                   | b2 # ds \<Rightarrow>
                       if \<not> is_cont b2 then REPLACEMENT # utf8_decode_nats cs
                       else (case ds of
                               [] \<Rightarrow> [REPLACEMENT]
                             | b3 # es \<Rightarrow>
                                 if is_cont b3
                                 then ((b0 - 0xF0) * 262144 + (b1 - 0x80) * 4096
                                       + (b2 - 0x80) * 64 + (b3 - 0x80)) # utf8_decode_nats es
                                 else REPLACEMENT # utf8_decode_nats ds)))
      else REPLACEMENT # utf8_decode_nats bs)"

definition utf8_decode :: "bytes \<Rightarrow> pystr" where
  "utf8_decode b = utf8_decode_nats (map of_char b)"

definition ascii_decode :: "bytes \<Rightarrow> pystr" where
  "ascii_decode b = map (\<lambda>c. if of_char c < (128::nat) then of_char c else REPLACEMENT) b"

text \<open>
  \<^verbatim>\<open>str.upper()\<close>. The table is complete for the code points whose upper case is ASCII (the ASCII
  letters and ten others, among them U+017F and U+0131). Every other code point is left as it is:
  its upper case has a code point outside ASCII, and the program only compares the result with
  ASCII names.
\<close>

definition upper_cp :: "nat \<Rightarrow> nat list" where
  "upper_cp c =
     (if 97 \<le> c \<and> c \<le> 122 then [c - 32]
      else if c = 0xDF then [83, 83]
      else if c = 0x131 then [73]
      else if c = 0x17F then [83]
      else if c = 0xFB00 then [70, 70]
      else if c = 0xFB01 then [70, 73]
      else if c = 0xFB02 then [70, 76]
      else if c = 0xFB03 then [70, 70, 73]
      else if c = 0xFB04 then [70, 70, 76]
      else if c = 0xFB05 \<or> c = 0xFB06 then [83, 84]
      else [c])"

definition str_upper :: "pystr \<Rightarrow> pystr" where
  "str_upper s = concat (map upper_cp s)"

definition bytes_upper :: "bytes \<Rightarrow> bytes" where
  "bytes_upper b = map (\<lambda>c. let n = of_char c :: nat in if 97 \<le> n \<and> n \<le> 122 then char_of (n - 32) else c) b"


section \<open>Numbers\<close>

definition digit_char :: "nat \<Rightarrow> char" where
  "digit_char d = char_of (48 + d)"

fun dec_nat :: "nat \<Rightarrow> string" where
  "dec_nat n = (if n < 10 then [digit_char n] else dec_nat (n div 10) @ [digit_char (n mod 10)])"

declare dec_nat.simps [simp del]

text \<open>The characters of \<^verbatim>\<open>str(n)\<close>.\<close>

definition str_int :: "int \<Rightarrow> string" where
  "str_int n = (if n < 0 then CHR ''-'' # dec_nat (nat (- n)) else dec_nat (nat n))"

definition is_digit :: "char \<Rightarrow> bool" where
  "is_digit c \<longleftrightarrow> (let n = of_char c :: nat in 48 \<le> n \<and> n \<le> 57)"

definition digit_val :: "char \<Rightarrow> nat" where
  "digit_val c = of_char c - 48"

text \<open>The digits of an integer literal; single underscores may stand between digits.\<close>

fun int_digits :: "bytes \<Rightarrow> nat list option" where
  "int_digits [] = None"
| "int_digits [c] = (if is_digit c then Some [digit_val c] else None)"
| "int_digits (c # d # cs) =
     (if \<not> is_digit c then None
      else if d = CHR ''_'' then map_option ((#) (digit_val c)) (int_digits cs)
      else map_option ((#) (digit_val c)) (int_digits (d # cs)))"

definition nat_of_digits :: "nat list \<Rightarrow> nat" where
  "nat_of_digits ds = foldl (\<lambda>a d. 10 * a + d) 0 ds"

definition int_max_str_digits :: nat where
  "int_max_str_digits = 4300"

text \<open>Why \<^verbatim>\<open>int()\<close> raises ValueError: the text is no literal, or it has too many digits.\<close>

datatype int_error = Invalid_literal | Too_many_digits nat

definition unsigned_int :: "bytes \<Rightarrow> int_error + nat" where
  "unsigned_int s =
     (case int_digits s of
        None \<Rightarrow> Inl Invalid_literal
      | Some ds \<Rightarrow> if int_max_str_digits < length ds then Inl (Too_many_digits (length ds))
                   else Inr (nat_of_digits ds))"

definition py_int_bytes :: "bytes \<Rightarrow> int_error + int" where
  "py_int_bytes s =
     (case py_strip s of
        [] \<Rightarrow> Inl Invalid_literal
      | c # cs \<Rightarrow>
          if c = CHR ''-'' then map_sum id (\<lambda>n. - int n) (unsigned_int cs)
          else if c = CHR ''+'' then map_sum id int (unsigned_int cs)
          else map_sum id int (unsigned_int (c # cs)))"

text \<open>
  \<^verbatim>\<open>int(text)\<close> on a \<^verbatim>\<open>str\<close>: code points outside ASCII are first turned into ASCII, white space
  into a blank and a decimal digit of any script into that digit. The list holds the zeros of the
  decimal digit blocks (Unicode 14).
\<close>

definition unicode_spaces :: "nat list" where
  "unicode_spaces = [133, 160, 5760, 8192, 8193, 8194, 8195, 8196, 8197, 8198, 8199, 8200, 8201, 8202,
     8232, 8233, 8239, 8287, 12288]"

definition unicode_zeros :: "nat list" where
  "unicode_zeros = [1632, 1776, 1984, 2406, 2534, 2662, 2790, 2918, 3046, 3174, 3302, 3430, 3558,
     3664, 3792, 3872, 4160, 4240, 6112, 6160, 6470, 6608, 6784, 6800, 6992, 7088, 7232, 7248, 42528,
     43216, 43264, 43472, 43504, 43600, 44016, 65296, 66720, 68912, 69734, 69872, 69942, 70096, 70384,
     70736, 70864, 71248, 71360, 71472, 71904, 72016, 72784, 73040, 73120, 92768, 92864, 93008, 120782,
     120792, 120802, 120812, 120822, 123200, 123632, 125264, 130032]"

definition ascii_of_cp :: "nat \<Rightarrow> char" where
  "ascii_of_cp c =
     (if c < 128 then char_of c
      else if List.member unicode_spaces c then CHR '' ''
      else (case List.find (\<lambda>z. z \<le> c \<and> c \<le> z + 9) unicode_zeros of
              None \<Rightarrow> CHR ''?''
            | Some z \<Rightarrow> digit_char (c - z)))"

definition py_int_str :: "pystr \<Rightarrow> int_error + int" where
  "py_int_str s = py_int_bytes (map ascii_of_cp s)"

text \<open>\<^verbatim>\<open>re.compile(r"-?[0-9]+").fullmatch(text)\<close>.\<close>

definition is_digit_cp :: "nat \<Rightarrow> bool" where
  "is_digit_cp c \<longleftrightarrow> 48 \<le> c \<and> c \<le> 57"

fun INT_RE_fullmatch :: "pystr \<Rightarrow> bool" where
  "INT_RE_fullmatch [] = False"
| "INT_RE_fullmatch (c # cs) =
     (if c = 45 then cs \<noteq> [] \<and> list_all is_digit_cp cs else list_all is_digit_cp (c # cs))"

text \<open>\<^verbatim>\<open>round\<close> (half to even), \<^verbatim>\<open>int\<close> (towards zero) and \<^verbatim>\<open>math.ceil\<close> of a number.\<close>

definition py_round :: "rat \<Rightarrow> int" where
  "py_round x =
     (let f = \<lfloor>x\<rfloor>; d = x - of_int f
      in if d < 1 / 2 then f else if 1 / 2 < d then f + 1 else if even f then f else f + 1)"

definition py_trunc :: "rat \<Rightarrow> int" where
  "py_trunc x = (if 0 \<le> x then \<lfloor>x\<rfloor> else \<lceil>x\<rceil>)"

definition math_ceil :: "rat \<Rightarrow> int" where
  "math_ceil x = \<lceil>x\<rceil>"



section \<open>Facts about numbers\<close>

lemma digit_chars [simp]:
  "digit_char 0 = CHR ''0''" "digit_char 1 = CHR ''1''" "digit_char (Suc 0) = CHR ''1''"
  "digit_char 2 = CHR ''2''" "digit_char 3 = CHR ''3''" "digit_char 4 = CHR ''4''"
  "digit_char 5 = CHR ''5''" "digit_char 6 = CHR ''6''" "digit_char 7 = CHR ''7''"
  "digit_char 8 = CHR ''8''" "digit_char 9 = CHR ''9''"
  by (simp_all add: digit_char_def char_of_eq_iff)

lemma is_digit_digit_char [simp]: "d < 10 \<Longrightarrow> is_digit (digit_char d)"
  by (simp add: is_digit_def digit_char_def Let_def)

lemma digit_val_digit_char [simp]: "d < 10 \<Longrightarrow> digit_val (digit_char d) = d"
  by (simp add: digit_val_def digit_char_def)

lemma digit_not_special:
  "is_digit c \<Longrightarrow> \<not> is_space_byte c \<and> c \<noteq> CHR ''-'' \<and> c \<noteq> CHR ''+'' \<and> c \<noteq> CHR ''_'' \<and> c \<noteq> LF \<and> c \<noteq> CR"
  by (auto simp: is_digit_def is_space_byte_def Let_def LF_def CR_def)

lemma dec_nat_digits: "\<forall>c \<in> set (dec_nat n). is_digit c"
proof (induction n rule: dec_nat.induct)
  case (1 n)
  then show ?case
    by (cases "n < 10") (auto simp: dec_nat.simps [of n])
qed

lemma dec_nat_nonempty [simp]: "dec_nat n \<noteq> []"
  by (simp add: dec_nat.simps [of n])

lemma nat_of_digits_snoc [simp]: "nat_of_digits (ds @ [d]) = 10 * nat_of_digits ds + d"
  by (simp add: nat_of_digits_def)

lemma nat_of_digits_dec_nat: "nat_of_digits (map digit_val (dec_nat n)) = n"
proof (induction n rule: dec_nat.induct)
  case (1 n)
  then show ?case
    by (cases "n < 10") (simp_all add: dec_nat.simps [of n], simp add: nat_of_digits_def)
qed

lemma int_digits_all:
  "s \<noteq> [] \<Longrightarrow> list_all is_digit s \<Longrightarrow> int_digits s = Some (map digit_val s)"
  by (induction s rule: int_digits.induct) (auto dest: digit_not_special)

lemma length_dec_nat: "0 < k \<Longrightarrow> n < 10 ^ k \<Longrightarrow> length (dec_nat n) \<le> k"
proof (induction n arbitrary: k rule: dec_nat.induct)
  case (1 n)
  show ?case
  proof (cases "n < 10")
    case False
    with "1.prems" obtain k' where k: "k = Suc k'" and "0 < k'"
      by (cases k; cases "k - 1") auto
    with "1.prems" have "n div 10 < 10 ^ k'"
      by (simp add: less_mult_imp_div_less)
    with "1.IH" [OF False \<open>0 < k'\<close>] k False show ?thesis
      by (simp add: dec_nat.simps [of n])
  qed (use "1.prems" in \<open>simp add: dec_nat.simps [of n]\<close>)
qed

lemma py_strip_id:
  "s \<noteq> [] \<Longrightarrow> \<not> is_space_byte (hd s) \<Longrightarrow> \<not> is_space_byte (last s) \<Longrightarrow> py_strip s = s"
  by (simp add: py_strip_def dropWhile_id hd_rev)

lemma int_max_pos [simp]: "0 < int_max_str_digits"
  by (simp add: int_max_str_digits_def)

lemma below_max_digits: "k \<le> 4300 \<Longrightarrow> n < 10 ^ k \<Longrightarrow> n < (10::nat) ^ int_max_str_digits"
  by (erule less_le_trans) (simp add: int_max_str_digits_def power_increasing del: power_numeral)

lemma unsigned_int_dec_nat:
  "n < 10 ^ int_max_str_digits \<Longrightarrow> unsigned_int (dec_nat n) = Inr n"
  using length_dec_nat [of int_max_str_digits n] dec_nat_digits [of n]
  by (simp add: unsigned_int_def int_digits_all list_all_iff nat_of_digits_dec_nat int_max_pos)

lemma last_digit: "is_digit (last (dec_nat n))" "is_digit (hd (dec_nat n))"
  using dec_nat_digits [of n] by (auto)

lemma py_int_bytes_str_int:
  assumes "nat \<bar>n\<bar> < 10 ^ int_max_str_digits"
  shows "py_int_bytes (str_int n) = Inr n"
proof -
  have strip: "py_strip (str_int n) = str_int n"
    using last_digit [of "nat \<bar>n\<bar>"]
    by (intro py_strip_id) (auto simp: str_int_def is_space_byte_def dest: digit_not_special)
  show ?thesis
  proof (cases "n < 0")
    case True
    with assms have "unsigned_int (dec_nat (nat (- n))) = Inr (nat (- n))"
      by (intro unsigned_int_dec_nat) simp
    with True strip show ?thesis
      by (simp add: py_int_bytes_def str_int_def)
  next
    case False
    with assms have u: "unsigned_int (dec_nat (nat n)) = Inr (nat n)"
      by (intro unsigned_int_dec_nat) simp
    obtain c cs where c: "dec_nat (nat n) = c # cs"
      by (meson dec_nat_nonempty neq_Nil_conv)
    with last_digit(2) [of "nat n"] have "c \<noteq> CHR ''-''" "c \<noteq> CHR ''+''"
      by (auto dest: digit_not_special)
    with False strip u c show ?thesis
      by (simp add: py_int_bytes_def str_int_def)
  qed
qed

lemma floor_divide_numeral_rat [simp]:
  "\<lfloor>numeral a / numeral b :: rat\<rfloor> = numeral a div numeral b"
  using floor_divide_of_int_eq [of "numeral a" "numeral b", where 'a = rat] by simp

lemma floor_minus_divide_numeral_rat [simp]:
  "\<lfloor>- (numeral a / numeral b) :: rat\<rfloor> = - numeral a div numeral b"
  using floor_divide_of_int_eq [of "- numeral a" "numeral b", where 'a = rat] by simp
lemma ceiling_divide_numeral_rat [simp]:
  "\<lceil>numeral a / numeral b :: rat\<rceil> = - (- numeral a div numeral b)"
  by (simp add: ceiling_def)


lemma py_round_bounds: "of_int (py_round x) \<le> x + 1 / 2 \<and> x - 1 / 2 \<le> of_int (py_round x)"
proof -
  have "of_int \<lfloor>x\<rfloor> \<le> x" and "x < of_int \<lfloor>x\<rfloor> + 1"
    by linarith+
  then show ?thesis
    unfolding py_round_def Let_def by (cases "x - of_int \<lfloor>x\<rfloor> < 1 / 2") (auto, linarith+)
qed

lemma py_round_of_int [simp]: "py_round (of_int n) = n"
  by (simp add: py_round_def)

section \<open>Facts about text\<close>

abbreviation is_ascii :: "bytes \<Rightarrow> bool" where
  "is_ascii b \<equiv> list_all (\<lambda>c. of_char c < (128::nat)) b"

lemma utf8_decode_ascii: "is_ascii b \<Longrightarrow> utf8_decode b = ascii_str b"
  by (induction b) (simp_all add: utf8_decode_def ascii_str_def)

lemma ascii_decode_ascii: "is_ascii b \<Longrightarrow> ascii_decode b = ascii_str b"
  by (induction b) (simp_all add: ascii_decode_def ascii_str_def)

lemma utf8_encode_ascii: "is_ascii b \<Longrightarrow> utf8_encode (ascii_str b) = Some b"
  by (induction b) (simp_all add: ascii_str_def utf8_encode1_def)

lemma digit_ascii: "is_digit c \<Longrightarrow> of_char c < (128::nat)"
  by (simp add: is_digit_def Let_def)

lemma is_ascii_str_int: "is_ascii (str_int n)"
  using dec_nat_digits by (auto simp: str_int_def list_all_iff intro: digit_ascii)

lemma ascii_of_cp_of_char [simp]: "of_char c < (128::nat) \<Longrightarrow> ascii_of_cp (of_char c) = c"
  by (simp add: ascii_of_cp_def)

lemma py_int_str_ascii: "is_ascii b \<Longrightarrow> py_int_str (ascii_str b) = py_int_bytes b"
proof -
  assume "is_ascii b"
  then have "map ascii_of_cp (ascii_str b) = b"
    by (induction b) (simp_all add: ascii_str_def)
  then show ?thesis by (simp add: py_int_str_def)
qed

lemma py_int_str_str_int:
  "nat \<bar>n\<bar> < 10 ^ int_max_str_digits \<Longrightarrow> py_int_str (ascii_str (str_int n)) = Inr n"
  by (simp add: py_int_str_ascii is_ascii_str_int py_int_bytes_str_int)

lemma int64_digits: "- (2 ^ 63) \<le> n \<Longrightarrow> n \<le> (2 ^ 63 - 1 :: int) \<Longrightarrow> nat \<bar>n\<bar> < 10 ^ int_max_str_digits"
  by (rule below_max_digits [of 20]) auto

lemma is_digit_cp_of_char: "is_digit_cp (of_char c) = is_digit c"
  by (simp add: is_digit_cp_def is_digit_def Let_def)

lemma INT_RE_str_int: "INT_RE_fullmatch (ascii_str (str_int n))"
proof (cases "n < 0")
  case True
  then show ?thesis
    using dec_nat_digits [of "nat (- n)"]
    by (auto simp: str_int_def ascii_str_def list_all_iff is_digit_cp_of_char)
next
  case False
  obtain c cs where c: "dec_nat (nat n) = c # cs"
    by (meson dec_nat_nonempty neq_Nil_conv)
  with False dec_nat_digits [of "nat n"] show ?thesis
    by (auto simp: str_int_def ascii_str_def list_all_iff is_digit_cp_of_char is_digit_def)
qed

text \<open>A code point of a string that UTF-8 can encode.\<close>

definition scalar :: "nat \<Rightarrow> bool" where
  "scalar c \<longleftrightarrow> c < 0x110000 \<and> \<not> (0xD800 \<le> c \<and> c \<le> 0xDFFF)"

lemma utf8_encode1_scalar: "utf8_encode1 c \<noteq> None \<longleftrightarrow> scalar c"
  by (auto simp: utf8_encode1_def scalar_def)

lemma utf8_encode_scalar: "utf8_encode s \<noteq> None \<longleftrightarrow> list_all scalar s"
  by (induction s) (use utf8_encode1_scalar in \<open>fastforce split: option.splits\<close>)+


lemma utf8_decode_three:
  "z \<le> 15 \<Longrightarrow> y \<le> 63 \<Longrightarrow> x \<le> 63 \<Longrightarrow> (z = 0 \<Longrightarrow> 32 \<le> y) \<Longrightarrow> (z = 13 \<Longrightarrow> y \<le> 31) \<Longrightarrow>
   utf8_decode_nats ([0xE0 + z, 0x80 + y, 0x80 + x] @ rest)
     = (z * 4096 + y * 64 + x) # utf8_decode_nats rest"
  by (auto simp: is_cont_def second_ok_def)

lemma utf8_decode_four:
  "w \<le> 4 \<Longrightarrow> z \<le> 63 \<Longrightarrow> y \<le> 63 \<Longrightarrow> x \<le> 63 \<Longrightarrow> (w = 0 \<Longrightarrow> 16 \<le> z) \<Longrightarrow> (w = 4 \<Longrightarrow> z \<le> 15) \<Longrightarrow>
   utf8_decode_nats ([0xF0 + w, 0x80 + z, 0x80 + y, 0x80 + x] @ rest)
     = (w * 262144 + z * 4096 + y * 64 + x) # utf8_decode_nats rest"
  by (auto simp: is_cont_def second_ok_def)

lemma utf8_decode_encode1:
  assumes "utf8_encode1 c = Some b"
  shows "utf8_decode_nats (b @ rest) = c # utf8_decode_nats rest \<and> list_all (\<lambda>n. n < 256) b"
proof -
  define x y z w where "x = c mod 64" and "y = c div 64 mod 64" and "z = c div 4096 mod 64"
    and "w = c div 262144"
  note xyz = x_def y_def z_def w_def
  have q: "c div 4096 = c div 64 div 64" "c div 262144 = c div 4096 div 64"
    by (simp_all flip: div_mult2_eq)
  have parts: "c div 64 * 64 + x = c" "c div 4096 * 64 + y = c div 64" "w * 64 + z = c div 4096"
    by (simp_all only: q xyz div_mult_mod_eq)
  have bounds: "x \<le> 63" "y \<le> 63" "z \<le> 63"
    using pos_mod_bound by (simp_all add: xyz less_Suc_eq_le [symmetric])
  consider (one) "c < 0x80" | (two) "0x80 \<le> c" "c < 0x800"
    | (three) "0x800 \<le> c" "c < 0x10000" "\<not> (0xD800 \<le> c \<and> c \<le> 0xDFFF)"
    | (four) "0x10000 \<le> c" "c < 0x110000"
    using assms by (fastforce simp: utf8_encode1_def split: if_splits)
  then show ?thesis
  proof cases
    case one
    with assms show ?thesis by (auto simp: utf8_encode1_def)
  next
    case two
    then have "2 \<le> c div 64" "c div 64 \<le> 31" by linarith+
    with two assms bounds parts show ?thesis
      by (auto simp: utf8_encode1_def is_cont_def simp flip: x_def)
  next
    case three
    then have r: "c div 4096 \<le> 15" by linarith
    have "c div 4096 = 0 \<Longrightarrow> 32 \<le> y" and "c div 4096 = 13 \<Longrightarrow> y \<le> 31"
      using three parts bounds by linarith+
    moreover have "c div 4096 * 4096 + y * 64 + x = c" using parts by linarith
    moreover have "b = [0xE0 + c div 4096, 0x80 + y, 0x80 + x]"
      using three assms by (auto simp: utf8_encode1_def xyz)
    ultimately show ?thesis
      using utf8_decode_three [OF r bounds(2,1), of rest] r bounds by simp
  next
    case four
    then have r: "w \<le> 4" unfolding w_def by linarith
    have "w = 0 \<Longrightarrow> 16 \<le> z" and "w = 4 \<Longrightarrow> z \<le> 15"
      using four parts bounds by linarith+
    moreover have "w * 262144 + z * 4096 + y * 64 + x = c" using parts by linarith
    moreover have "b = [0xF0 + w, 0x80 + z, 0x80 + y, 0x80 + x]"
      using four assms by (auto simp: utf8_encode1_def xyz)
    ultimately show ?thesis
      using utf8_decode_four [OF r bounds(3,2,1), of rest] r bounds by simp
  qed
qed

lemma map_of_char_char_of:
  "list_all (\<lambda>n. n < 256) b \<Longrightarrow> map of_char (map char_of b :: char list) = (b :: nat list)"
  by (induction b) auto

theorem utf8_roundtrip: "utf8_encode s = Some b \<Longrightarrow> utf8_decode b = s"
proof (induction s arbitrary: b)
  case Nil
  then show ?case by (simp add: utf8_decode_def)
next
  case (Cons c s)
  then obtain b1 b2 where b: "utf8_encode1 c = Some b1" "utf8_encode s = Some b2"
    and eq: "b = map char_of b1 @ b2"
    by (auto split: option.splits)
  from utf8_decode_encode1 [OF b(1), of "map of_char b2"] Cons.IH [OF b(2)] show ?case
    by (simp add: utf8_decode_def eq map_of_char_char_of del: map_map)
qed

end
