(* ===== verification/Py_Collections.thy ===== *)
theory Py_Collections
  imports Py_Text
begin

text \<open>
  The two containers of the standard library that the store keeps its state in.

  \<^item> \<^verbatim>\<open>OrderedDict\<close> is an association list in insertion order with distinct keys: \<open>od_set\<close>
    overwrites in place or appends, \<open>od_pop\<close> removes, \<open>move_to_end\<close> moves an entry behind all others.
  \<^item> \<^verbatim>\<open>heapq\<close> is used through its smallest element, its length, push, pop and heapify only; the
    model keeps the elements in ascending order.

  The locales \<open>ordered_dict\<close> and \<open>priority_queue\<close> state what the store relies on; both are
  interpreted here on the model's definitions.
\<close>

section \<open>Ordered dictionaries\<close>

type_synonym ('k, 'v) odict = "('k \<times> 'v) list"

definition od_get :: "('k, 'v) odict \<Rightarrow> 'k \<Rightarrow> 'v option" where
  "od_get d k = map_of d k"

definition od_set :: "'k \<Rightarrow> 'v \<Rightarrow> ('k, 'v) odict \<Rightarrow> ('k, 'v) odict" where
  "od_set k v d = AList.update k v d"

definition od_pop :: "'k \<Rightarrow> ('k, 'v) odict \<Rightarrow> ('k, 'v) odict" where
  "od_pop k d = AList.delete k d"

definition move_to_end :: "'k \<Rightarrow> ('k, 'v) odict \<Rightarrow> ('k, 'v) odict" where
  "move_to_end k d = (case map_of d k of None \<Rightarrow> d | Some v \<Rightarrow> AList.delete k d @ [(k, v)])"

definition od_keys :: "('k, 'v) odict \<Rightarrow> 'k list" where
  "od_keys d = map fst d"

definition od_wf :: "('k, 'v) odict \<Rightarrow> bool" where
  "od_wf d \<longleftrightarrow> distinct (map fst d)"

text \<open>The contract of an ordered dictionary, and what follows from it alone.\<close>

locale ordered_dict =
  fixes lookup :: "'d \<Rightarrow> 'k \<Rightarrow> 'v option"
    and assign :: "'k \<Rightarrow> 'v \<Rightarrow> 'd \<Rightarrow> 'd"
    and pop :: "'k \<Rightarrow> 'd \<Rightarrow> 'd"
    and to_end :: "'k \<Rightarrow> 'd \<Rightarrow> 'd"
    and keys :: "'d \<Rightarrow> 'k list"
    and wf :: "'d \<Rightarrow> bool"
  assumes keys_distinct: "wf d \<Longrightarrow> distinct (keys d)"
    and lookup_keys: "lookup d k \<noteq> None \<longleftrightarrow> k \<in> set (keys d)"
    and lookup_assign: "lookup (assign k v d) = (lookup d)(k \<mapsto> v)"
    and lookup_pop: "lookup (pop k d) = (lookup d)(k := None)"
    and lookup_to_end: "lookup (to_end k d) = lookup d"
    and keys_assign: "keys (assign k v d) = (if k \<in> set (keys d) then keys d else keys d @ [k])"
    and keys_pop: "keys (pop k d) = filter (\<lambda>x. x \<noteq> k) (keys d)"
    and keys_to_end: "wf d \<Longrightarrow> keys (to_end k d) =
          (if k \<in> set (keys d) then filter (\<lambda>x. x \<noteq> k) (keys d) @ [k] else keys d)"
    and wf_assign: "wf d \<Longrightarrow> wf (assign k v d)"
    and wf_pop: "wf d \<Longrightarrow> wf (pop k d)"
    and wf_to_end: "wf d \<Longrightarrow> wf (to_end k d)"
begin

text \<open>Storing a key and marking it most recent: the key ends up last, all others keep their order.\<close>

lemma keys_store:
  "wf d \<Longrightarrow> keys (to_end k (assign k v d)) = filter (\<lambda>x. x \<noteq> k) (keys d) @ [k]"
  by (simp add: keys_to_end wf_assign keys_assign)

lemma lookup_store: "lookup (to_end k (assign k v d)) = (lookup d)(k \<mapsto> v)"
  by (simp add: lookup_to_end lookup_assign)

text \<open>Touching a present key changes the order only.\<close>

lemma set_keys_to_end: "wf d \<Longrightarrow> set (keys (to_end k d)) = set (keys d)"
  by (auto simp: keys_to_end)

lemma pop_missing: "lookup d k = None \<Longrightarrow> keys (pop k d) = keys d"
  using lookup_keys [of d k] by (auto simp: keys_pop intro!: filter_True)

lemma length_keys_pop:
  assumes "wf d" and "lookup d k \<noteq> None"
  shows "Suc (length (keys (pop k d))) = length (keys d)"
proof -
  from assms have k: "k \<in> set (keys d)" and "distinct (keys d)"
    using lookup_keys [of d k] keys_distinct [of d] by auto
  then have "keys (pop k d) = remove1 k (keys d)"
    by (simp add: keys_pop distinct_remove1_removeAll removeAll_filter_not_eq eq_commute)
  with k length_pos_if_in_set [OF k] show ?thesis
    by (simp add: length_remove1)
qed

end

lemma keys_delete: "map fst (AList.delete k d) = filter (\<lambda>x. x \<noteq> k) (map fst d)"
  by (induction d) auto

interpretation od: ordered_dict od_get od_set od_pop move_to_end od_keys od_wf
proof
  fix d :: "('a, 'b) odict" and k v
  show "od_wf d \<Longrightarrow> distinct (od_keys d)"
    by (simp add: od_wf_def od_keys_def)
  show "od_get d k \<noteq> None \<longleftrightarrow> k \<in> set (od_keys d)"
    by (simp add: od_get_def od_keys_def map_of_eq_None_iff)
  show "od_get (od_set k v d) = (od_get d)(k \<mapsto> v)"
    by (simp add: od_get_def od_set_def update_conv' fun_eq_iff)
  show "od_get (od_pop k d) = (od_get d)(k := None)"
    by (simp add: od_get_def od_pop_def delete_conv' fun_eq_iff)
  show "od_get (move_to_end k d) = od_get d"
    by (auto simp: od_get_def move_to_end_def delete_conv' map_add_def fun_eq_iff split: option.splits)
  show "od_keys (od_set k v d) = (if k \<in> set (od_keys d) then od_keys d else od_keys d @ [k])"
    by (simp add: od_keys_def od_set_def update_keys)
  show "od_keys (od_pop k d) = filter (\<lambda>x. x \<noteq> k) (od_keys d)"
    by (simp add: od_keys_def od_pop_def keys_delete)
  show "od_keys (move_to_end k d) =
      (if k \<in> set (od_keys d) then filter (\<lambda>x. x \<noteq> k) (od_keys d) @ [k] else od_keys d)"
    by (auto simp: od_keys_def move_to_end_def keys_delete map_of_eq_None_iff split: option.splits
        dest!: map_of_SomeD)
      (metis image_eqI fst_conv)
  show "od_wf d \<Longrightarrow> od_wf (od_set k v d)"
    by (simp add: od_wf_def od_set_def distinct_update)
  show "od_wf d \<Longrightarrow> od_wf (od_pop k d)"
    by (simp add: od_wf_def od_pop_def distinct_delete)
  show "od_wf d \<Longrightarrow> od_wf (move_to_end k d)"
    by (auto simp: od_wf_def move_to_end_def distinct_delete keys_delete split: option.splits)
qed


section \<open>Heaps\<close>

definition heappush :: "'a::linorder \<Rightarrow> 'a list \<Rightarrow> 'a list" where
  "heappush x h = insort x h"

definition heapify :: "'a::linorder list \<Rightarrow> 'a list" where
  "heapify xs = sort xs"

text \<open>\<^verbatim>\<open>heappop\<close> of a non-empty heap: its smallest element and the rest; \<open>None\<close> is IndexError.\<close>

fun heappop :: "'a::linorder list \<Rightarrow> ('a \<times> 'a list) option" where
  "heappop [] = None"
| "heappop (x # h) = Some (x, h)"

locale priority_queue =
  fixes push :: "'a::linorder \<Rightarrow> 'q \<Rightarrow> 'q"
    and pop :: "'q \<Rightarrow> ('a \<times> 'q) option"
    and build :: "'a list \<Rightarrow> 'q"
    and contents :: "'q \<Rightarrow> 'a multiset"
    and ok :: "'q \<Rightarrow> bool"
  assumes contents_push: "contents (push x q) = add_mset x (contents q)"
    and contents_build: "contents (build xs) = mset xs"
    and pop_None: "pop q = None \<longleftrightarrow> contents q = {#}"
    and contents_pop: "pop q = Some (x, q') \<Longrightarrow> contents q = add_mset x (contents q')"
    and pop_least: "ok q \<Longrightarrow> pop q = Some (x, q') \<Longrightarrow> y \<in># contents q \<Longrightarrow> x \<le> y"
    and ok_push: "ok q \<Longrightarrow> ok (push x q)"
    and ok_build: "ok (build xs)"
    and ok_pop: "ok q \<Longrightarrow> pop q = Some (x, q') \<Longrightarrow> ok q'"
begin

text \<open>If the least element is above a bound, so is every element: the exit test of a sweep.\<close>

lemma pop_above:
  "ok q \<Longrightarrow> pop q = Some (x, q') \<Longrightarrow> b < x \<Longrightarrow> y \<in># contents q \<Longrightarrow> b < y"
  using pop_least by (meson order_less_le_trans)

lemma size_pop: "pop q = Some (x, q') \<Longrightarrow> size (contents q') < size (contents q)"
  by (simp add: contents_pop)

end

interpretation hq: priority_queue heappush heappop heapify mset sorted
proof
  fix x y :: "'a::linorder" and q q' xs :: "'a list"
  show "mset (heappush x q) = add_mset x (mset q)"
    by (simp add: heappush_def)
  show "mset (heapify xs) = mset xs"
    by (simp add: heapify_def)
  show "heappop q = None \<longleftrightarrow> mset q = {#}"
    by (cases q) auto
  show "heappop q = Some (x, q') \<Longrightarrow> mset q = add_mset x (mset q')"
    by (cases q) auto
  show "sorted q \<Longrightarrow> heappop q = Some (x, q') \<Longrightarrow> y \<in># mset q \<Longrightarrow> x \<le> y"
    by (cases q) auto
  show "sorted q \<Longrightarrow> sorted (heappush x q)"
    by (simp add: heappush_def sorted_insort)
  show "sorted (heapify xs)"
    by (simp add: heapify_def)
  show "sorted q \<Longrightarrow> heappop q = Some (x, q') \<Longrightarrow> sorted q'"
    by (cases q) auto
qed

end
