(* ===== verification/Resp_Protocol.thy ===== *)
theory Resp_Protocol
  imports Py_Collections
begin

text \<open>
  The wire protocol (\<^verbatim>\<open>protocol.py\<close>): the values that can be sent, \<^verbatim>\<open>encode\<close>, and the readers
  \<^verbatim>\<open>read_command\<close> and \<^verbatim>\<open>read_reply\<close>.

  A reader is a stream that holds all remaining bytes up to the end of the connection; every read
  returns the value and the bytes left, or raises. Reading is split into the two ways the code fails:
  a \<^verbatim>\<open>ProtocolError\<close>, one constructor per raise of the source, and asyncio's
  \<^verbatim>\<open>IncompleteReadError\<close>. The locale \<open>stream_codec\<close> states what the log and the replication link
  need of a wire format: what was written is read back, and a record cut short is never read as
  anything else.
\<close>

section \<open>Values\<close>

text \<open>\<^verbatim>\<open>Arg = bytes | str\<close>.\<close>

datatype arg = Bytes bytes | Str pystr

text \<open>
  The Python objects the program stores and sends. \<^verbatim>\<open>PyFloat\<close> stands for the objects that have no
  encoding.
\<close>

datatype pyobj =
    SimpleString pystr
  | Error pystr
  | PyBool bool
  | PyInt int
  | PyNone
  | PyArg arg
  | PyList "pyobj list"
  | PyFloat rat

definition to_text :: "arg \<Rightarrow> pystr" where
  "to_text a = (case a of Bytes b \<Rightarrow> utf8_decode b | Str s \<Rightarrow> s)"

text \<open>Comparison of keys, as Python compares two values of one kind.\<close>

instantiation arg :: linorder
begin

fun less_eq_arg :: "arg \<Rightarrow> arg \<Rightarrow> bool" where
  "less_eq_arg (Bytes a) (Bytes b) = (a \<le> b)"
| "less_eq_arg (Bytes a) (Str b) = True"
| "less_eq_arg (Str a) (Bytes b) = False"
| "less_eq_arg (Str a) (Str b) = (a \<le> b)"

definition less_arg :: "arg \<Rightarrow> arg \<Rightarrow> bool" where
  "less_arg a b = (a \<le> b \<and> \<not> b \<le> a)"

instance
proof
  fix x y z :: arg
  show "(x < y) = (x \<le> y \<and> \<not> y \<le> x)" by (rule less_arg_def)
  show "x \<le> x" by (cases x) auto
  show "x \<le> y \<Longrightarrow> y \<le> z \<Longrightarrow> x \<le> z" by (cases x; cases y; cases z) auto
  show "x \<le> y \<Longrightarrow> y \<le> x \<Longrightarrow> x = y" by (cases x; cases y) auto
  show "x \<le> y \<or> y \<le> x" by (cases x; cases y) auto
qed

end


section \<open>Encoding\<close>

definition CRLF :: bytes where "CRLF = [CR, LF]"

definition MAX_BULK_LENGTH :: int where "MAX_BULK_LENGTH = 64 * 1024 * 1024"
definition MAX_ARRAY_LENGTH :: int where "MAX_ARRAY_LENGTH = 1024 * 1024"

text \<open>Why \<^verbatim>\<open>encode\<close> raises: a surrogate in a text, an object with no encoding, or an integer with
  more digits than \<^verbatim>\<open>str\<close> converts.\<close>

datatype encode_error = UnicodeEncodeError | TypeError | IntTooLarge

definition encode_bulk :: "bytes \<Rightarrow> bytes" where
  "encode_bulk raw = ''$'' @ str_int (int (length raw)) @ CRLF @ raw @ CRLF"

fun encode :: "pyobj \<Rightarrow> encode_error + bytes"
and encode_all :: "pyobj list \<Rightarrow> encode_error + bytes" where
  "encode (SimpleString s) =
     (case utf8_encode s of None \<Rightarrow> Inl UnicodeEncodeError | Some raw \<Rightarrow> Inr (''+'' @ raw @ CRLF))"
| "encode (Error s) =
     (case utf8_encode s of None \<Rightarrow> Inl UnicodeEncodeError | Some raw \<Rightarrow> Inr (''-'' @ raw @ CRLF))"
| "encode (PyBool b) = Inr ('':'' @ (if b then ''1'' else ''0'') @ CRLF)"
| "encode (PyInt n) =
     (if int_max_str_digits < length (dec_nat (nat \<bar>n\<bar>)) then Inl IntTooLarge
      else Inr ('':'' @ str_int n @ CRLF))"
| "encode PyNone = Inr (''$-1'' @ CRLF)"
| "encode (PyArg (Bytes b)) = Inr (encode_bulk b)"
| "encode (PyArg (Str s)) =
     (case utf8_encode s of None \<Rightarrow> Inl UnicodeEncodeError | Some raw \<Rightarrow> Inr (encode_bulk raw))"
| "encode (PyList xs) =
     map_sum id (\<lambda>body. ''*'' @ str_int (int (length xs)) @ CRLF @ body) (encode_all xs)"
| "encode (PyFloat x) = Inl TypeError"
| "encode_all [] = Inr []"
| "encode_all (x # xs) = sum_bind (encode x) (\<lambda>b. map_sum id (\<lambda>r. b @ r) (encode_all xs))"

text \<open>A command is a list of arguments.\<close>

definition command_obj :: "arg list \<Rightarrow> pyobj" where
  "command_obj cmd = PyList (map PyArg cmd)"


section \<open>Reading\<close>

datatype protocol_error =
    Invalid_int string bytes
  | Array_too_large int
  | Line_too_long
  | Not_CRLF_terminated bytes
  | Invalid_bulk_length int
  | Eof_in_bulk_header
  | Expected_bulk bytes
  | Missing_trailing_CRLF
  | Eof_in_reply
  | Empty_reply_line
  | Invalid_array_length int
  | Unknown_reply bytes

datatype read_error = ProtocolError protocol_error | IncompleteReadError | RecursionError

type_synonym 'a parsed = "read_error + 'a \<times> bytes"

text \<open>asyncio's limit on the length of a line; \<open>None\<close> is the ValueError of \<^verbatim>\<open>readline\<close>.\<close>

definition STREAM_LIMIT :: nat where "STREAM_LIMIT = 65536"

definition readline :: "bytes \<Rightarrow> (bytes \<times> bytes) option" where
  "readline r =
     (let n = length (takeWhile (\<lambda>c. c \<noteq> LF) r)
      in if STREAM_LIMIT < n then None else Some (take (Suc n) r, drop (Suc n) r))"

definition readexactly :: "nat \<Rightarrow> bytes \<Rightarrow> bytes parsed" where
  "readexactly n r = (if length r < n then Inl IncompleteReadError else Inr (take n r, drop n r))"

definition parse_int :: "bytes \<Rightarrow> string \<Rightarrow> read_error + int" where
  "parse_int b what =
     (case py_int_bytes b of Inl _ \<Rightarrow> Inl (ProtocolError (Invalid_int what b)) | Inr n \<Rightarrow> Inr n)"

definition ends_with :: "bytes \<Rightarrow> bytes \<Rightarrow> bool" where
  "ends_with s t \<longleftrightarrow> length t \<le> length s \<and> drop (length s - length t) s = t"

definition starts_with :: "bytes \<Rightarrow> char \<Rightarrow> bool" where
  "starts_with s c \<longleftrightarrow> (case s of [] \<Rightarrow> False | x # _ \<Rightarrow> x = c)"

definition read_line :: "bytes \<Rightarrow> bytes option parsed" where
  "read_line r =
     (case readline r of
        None \<Rightarrow> Inl (ProtocolError Line_too_long)
      | Some (raw, rest) \<Rightarrow>
          if raw = [] then Inr (None, rest)
          else if \<not> ends_with raw CRLF then Inl (ProtocolError (Not_CRLF_terminated raw))
          else Inr (Some (take (length raw - 2) raw), rest))"

definition check_bulk_length :: "int \<Rightarrow> read_error + unit" where
  "check_bulk_length n =
     (if n < -1 \<or> MAX_BULK_LENGTH < n then Inl (ProtocolError (Invalid_bulk_length n)) else Inr ())"

definition read_bulk_string :: "bytes \<Rightarrow> bytes parsed" where
  "read_bulk_string r =
     sum_bind (read_line r) (\<lambda>(header, r1).
       case header of
         None \<Rightarrow> Inl (ProtocolError Eof_in_bulk_header)
       | Some h \<Rightarrow>
           if \<not> starts_with h CHR ''$'' then Inl (ProtocolError (Expected_bulk h))
           else sum_bind (parse_int (drop 1 h) ''bulk string length'') (\<lambda>n.
             sum_bind (check_bulk_length n) (\<lambda>_.
               if n = -1 then Inr ([], r1)
               else sum_bind (readexactly (nat n) r1) (\<lambda>(body, r2).
                 sum_bind (readexactly 2 r2) (\<lambda>(trailer, r3).
                   if trailer \<noteq> CRLF then Inl (ProtocolError Missing_trailing_CRLF)
                   else Inr (body, r3))))))"

text \<open>\<^verbatim>\<open>[await read(reader) for _ in range(n)]\<close>.\<close>

fun read_n :: "(bytes \<Rightarrow> 'a parsed) \<Rightarrow> nat \<Rightarrow> bytes \<Rightarrow> 'a list parsed" where
  "read_n f 0 r = Inr ([], r)"
| "read_n f (Suc n) r =
     sum_bind (f r) (\<lambda>(x, r1). map_sum id (\<lambda>(xs, r2). (x # xs, r2)) (read_n f n r1))"

definition read_command :: "bytes \<Rightarrow> bytes list option parsed" where
  "read_command r =
     sum_bind (read_line r) (\<lambda>(line, r1).
       case line of
         None \<Rightarrow> Inr (None, r1)
       | Some l \<Rightarrow>
           if \<not> starts_with l CHR ''*'' then Inr (Some (py_split l), r1)
           else sum_bind (parse_int (drop 1 l) ''array length'') (\<lambda>n.
             if n < 0 then Inr (Some [], r1)
             else if MAX_ARRAY_LENGTH < n then Inl (ProtocolError (Array_too_large n))
             else map_sum id (map_prod Some id) (read_n read_bulk_string (nat n) r1)))"

text \<open>
  \<^verbatim>\<open>read_reply\<close> calls itself for the elements of an array. Its first argument is the number of
  nested calls the interpreter still allows.
\<close>

fun read_reply :: "nat \<Rightarrow> bytes \<Rightarrow> pyobj parsed" where
  "read_reply 0 r = Inl RecursionError"
| "read_reply (Suc d) r =
     sum_bind (read_line r) (\<lambda>(line, r1).
       case line of
         None \<Rightarrow> Inl (ProtocolError Eof_in_reply)
       | Some [] \<Rightarrow> Inl (ProtocolError Empty_reply_line)
       | Some (prefix # body) \<Rightarrow>
           if prefix = CHR ''+'' then Inr (PyArg (Str (utf8_decode body)), r1)
           else if prefix = CHR ''-'' then Inr (Error (utf8_decode body), r1)
           else if prefix = CHR '':'' then map_sum id (\<lambda>n. (PyInt n, r1)) (parse_int body ''integer reply'')
           else if prefix = CHR ''$'' then
             sum_bind (parse_int body ''bulk string length'') (\<lambda>n.
               sum_bind (check_bulk_length n) (\<lambda>_.
                 if n = -1 then Inr (PyNone, r1)
                 else sum_bind (readexactly (nat n) r1) (\<lambda>(x, r2).
                   map_sum id (\<lambda>(_, r3). (PyArg (Bytes x), r3)) (readexactly 2 r2))))
           else if prefix = CHR ''*'' then
             sum_bind (parse_int body ''array length'') (\<lambda>n.
               if n = -1 then Inr (PyNone, r1)
               else if n < 0 \<or> MAX_ARRAY_LENGTH < n then Inl (ProtocolError (Invalid_array_length n))
               else map_sum id (map_prod PyList id) (read_n (read_reply d) (nat n) r1))
           else Inl (ProtocolError (Unknown_reply (prefix # body))))"


section \<open>Lines and bulk strings\<close>

lemma CRLF_simps [simp]: "CR \<noteq> LF" "LF \<noteq> CR" "length CRLF = 2"
  by (simp_all add: CR_def LF_def CRLF_def)

lemma read_line_end [simp]: "read_line [] = Inr (None, [])"
  by (simp add: read_line_def readline_def STREAM_LIMIT_def)

lemma ends_with_append [simp]: "ends_with (s @ t) t"
  by (simp add: ends_with_def)

lemma ends_with_iff: "ends_with s t \<longleftrightarrow> (\<exists>u. s = u @ t)"
proof
  assume "ends_with s t"
  then show "\<exists>u. s = u @ t"
    by (intro exI [of _ "take (length s - length t) s"]) (metis append_take_drop_id ends_with_def)
qed auto

lemma readline_LF:
  "LF \<notin> set s \<Longrightarrow> length s \<le> STREAM_LIMIT \<Longrightarrow> readline (s @ LF # rest) = Some (s @ [LF], rest)"
  by (simp add: readline_def Let_def)

lemma read_line_CRLF:
  assumes "LF \<notin> set s" and "length s < STREAM_LIMIT"
  shows "read_line (s @ CRLF @ rest) = Inr (Some s, rest)"
proof -
  have "readline ((s @ [CR]) @ LF # rest) = Some ((s @ [CR]) @ [LF], rest)"
    using assms by (intro readline_LF) auto
  moreover have "ends_with (s @ [CR, LF]) CRLF"
    using ends_with_append [of s CRLF] by (simp add: CRLF_def)
  ultimately show ?thesis
    by (simp add: read_line_def CRLF_def)
qed

text \<open>A line whose end is missing is refused, never read as a shorter line.\<close>

lemma read_line_torn:
  assumes "LF \<notin> set p" and "p \<noteq> []"
  shows "\<exists>e. read_line p = Inl e"
proof -
  from assms have "takeWhile (\<lambda>c. c \<noteq> LF) p = p" and "\<not> ends_with p CRLF"
    by (auto simp: takeWhile_eq_all_conv ends_with_iff CRLF_def)
  with assms show ?thesis
    by (simp add: read_line_def readline_def Let_def del: takeWhile_eq_all_conv)
qed

lemma readline_split: "readline r = Some (raw, rest) \<Longrightarrow> r = raw @ rest"
  by (auto simp: readline_def Let_def split: if_splits)

lemma read_line_suffix: "read_line r = Inr (l, rest) \<Longrightarrow> \<exists>p. r = p @ rest \<and> (l \<noteq> None \<longrightarrow> p \<noteq> [])"
  by (auto simp: read_line_def dest!: readline_split split: option.splits if_splits)

lemma LF_notin_str_int [simp]: "LF \<notin> set (str_int n)"
proof
  assume "LF \<in> set (str_int n)"
  moreover have "LF \<noteq> CHR ''-''" by (simp add: LF_def)
  ultimately have "LF \<in> set (dec_nat (nat (- n))) \<or> LF \<in> set (dec_nat (nat n))"
    by (auto simp: str_int_def split: if_splits)
  then show False
    using dec_nat_digits digit_not_special by blast
qed

text \<open>Numbers short enough for a header line: far above every length the protocol allows.\<close>

definition header_int :: "int \<Rightarrow> bool" where
  "header_int n \<longleftrightarrow> nat \<bar>n\<bar> < 10 ^ 20"

lemma header_int_digits: "header_int n \<Longrightarrow> nat \<bar>n\<bar> < 10 ^ int_max_str_digits"
  unfolding header_int_def by (rule below_max_digits [of 20]) simp_all

lemma length_str_int: "header_int n \<Longrightarrow> length (str_int n) \<le> 21"
  using length_dec_nat [of 20 "nat \<bar>n\<bar>"] by (auto simp: header_int_def str_int_def)

lemma parse_int_str_int: "header_int n \<Longrightarrow> parse_int (str_int n) what = Inr n"
  by (simp add: parse_int_def py_int_bytes_str_int [OF header_int_digits])

lemma read_header:
  assumes "header_int n" and "c \<noteq> LF"
  shows "read_line (c # str_int n @ CRLF @ rest) = Inr (Some (c # str_int n), rest)"
  using read_line_CRLF [of "c # str_int n" rest] length_str_int [OF assms(1)] assms(2)
  by (simp add: STREAM_LIMIT_def)

lemma readexactly_append [simp]: "readexactly (length b) (b @ rest) = Inr (b, rest)"
  by (simp add: readexactly_def)

lemma readexactly_2 [simp]: "readexactly 2 (CRLF @ rest) = Inr (CRLF, rest)"
  using readexactly_append [of CRLF rest] by simp

definition ok_bulk :: "bytes \<Rightarrow> bool" where
  "ok_bulk b \<longleftrightarrow> int (length b) \<le> MAX_BULK_LENGTH"

lemma header_int_bulk: "ok_bulk b \<Longrightarrow> header_int (int (length b))"
  by (simp add: ok_bulk_def MAX_BULK_LENGTH_def header_int_def)

lemma special_chars [simp]: "CHR ''$'' \<noteq> LF" "CHR ''*'' \<noteq> LF" "CHR '':'' \<noteq> LF" "CHR ''+'' \<noteq> LF" "CHR ''-'' \<noteq> LF"
  by (simp_all add: LF_def)

lemma read_bulk_string_encode:
  assumes "ok_bulk b"
  shows "read_bulk_string (encode_bulk b @ rest) = Inr (b, rest)"
proof -
  from assms have "check_bulk_length (int (length b)) = Inr ()"
    by (simp add: check_bulk_length_def ok_bulk_def)
  with header_int_bulk [OF assms] show ?thesis
    by (simp add: encode_bulk_def read_bulk_string_def read_header starts_with_def parse_int_str_int)
qed


section \<open>Commands on the wire\<close>

text \<open>The bytes an argument is sent as, and the encoding of a command all of whose arguments are bytes.\<close>

definition arg_bytes :: "arg \<Rightarrow> bytes option" where
  "arg_bytes a = (case a of Bytes b \<Rightarrow> Some b | Str s \<Rightarrow> utf8_encode s)"

definition encode_command :: "bytes list \<Rightarrow> bytes" where
  "encode_command c = ''*'' @ str_int (int (length c)) @ CRLF @ concat (map encode_bulk c)"

definition ok_command :: "bytes list \<Rightarrow> bool" where
  "ok_command c \<longleftrightarrow> int (length c) \<le> MAX_ARRAY_LENGTH \<and> list_all ok_bulk c"

lemma encode_PyArg:
  "encode (PyArg a) = (case arg_bytes a of None \<Rightarrow> Inl UnicodeEncodeError | Some b \<Rightarrow> Inr (encode_bulk b))"
  by (cases a) (simp_all add: arg_bytes_def)

lemma encode_all_args:
  "those (map arg_bytes cmd) = Some bs \<Longrightarrow> encode_all (map PyArg cmd) = Inr (concat (map encode_bulk bs))"
  by (induction cmd arbitrary: bs) (auto simp: encode_PyArg split: option.splits)

lemma length_those: "those xs = Some ys \<Longrightarrow> length ys = length xs"
  by (induction xs arbitrary: ys) (auto split: option.splits)

lemma encode_command_obj:
  "those (map arg_bytes cmd) = Some bs \<Longrightarrow> encode (command_obj cmd) = Inr (encode_command bs)"
  by (auto simp: command_obj_def encode_command_def encode_all_args dest: length_those)

lemma encode_command_obj_bytes [simp]: "encode (command_obj (map Bytes bs)) = Inr (encode_command bs)"
proof (rule encode_command_obj)
  show "those (map arg_bytes (map Bytes bs)) = Some bs"
    by (induction bs) (simp_all add: arg_bytes_def)
qed

lemma encode_command_obj_fails:
  "those (map arg_bytes cmd) = None \<Longrightarrow> \<exists>e. encode (command_obj cmd) = Inl e"
proof -
  assume "those (map arg_bytes cmd) = None"
  then have "\<exists>e. encode_all (map PyArg cmd) = Inl e"
    by (induction cmd) (auto simp: encode_PyArg split: option.splits)
  then show ?thesis by (auto simp: command_obj_def)
qed

lemma read_n_bulks:
  "list_all ok_bulk bs \<Longrightarrow>
   read_n read_bulk_string (length bs) (concat (map encode_bulk bs) @ rest) = Inr (bs, rest)"
  by (induction bs) (simp_all add: read_bulk_string_encode)

lemma header_int_array: "int n \<le> MAX_ARRAY_LENGTH \<Longrightarrow> header_int (int n)"
  by (simp add: MAX_ARRAY_LENGTH_def header_int_def)

lemma read_command_encode:
  assumes "ok_command c"
  shows "read_command (encode_command c @ rest) = Inr (Some c, rest)"
  using assms read_n_bulks [of c rest] header_int_array [of "length c"]
  by (simp add: ok_command_def encode_command_def read_command_def read_header starts_with_def
      parse_int_str_int)


section \<open>Torn records\<close>

text \<open>A proper, non-empty prefix of an encoded command is refused: by a line that does not end, by
  an end of input where a header or data must follow.\<close>

lemma append_eq_prefix_cases:
  assumes "p @ s = a @ b"
  obtains (left) u where "a = p @ u" "s = u @ b" "u \<noteq> []" | (right) u where "p = a @ u" "b = u @ s"
  using assms by (metis append_eq_append_conv2 append_self_conv append_self_conv2)

lemma read_line_header_torn:
  assumes "c # str_int n @ CRLF = p @ s" and "p \<noteq> []" and "s \<noteq> []" and "c \<noteq> LF"
  shows "\<exists>e. read_line p = Inl e"
proof (rule read_line_torn)
  from assms obtain s' z where "s = s' @ [z]"
    by (meson rev_exhaust)
  with assms(1) have "(c # str_int n @ [CR]) @ [LF] = (p @ s') @ [z]"
    by (simp add: CRLF_def)
  then have "p @ s' = c # str_int n @ [CR]"
    by (metis append1_eq_conv append_Cons append_assoc)
  then have "set p \<subseteq> set (c # str_int n @ [CR])"
    by (metis Un_upper1 set_append)
  with assms(4) show "LF \<notin> set p" by auto
qed (fact assms(2))

lemma read_bulk_string_torn:
  assumes ok: "ok_bulk b" and eq: "encode_bulk b = p @ s" and "s \<noteq> []"
  shows "\<exists>e. read_bulk_string p = Inl e"
proof (cases "p = []")
  case True
  then show ?thesis by (simp add: read_bulk_string_def)
next
  case False
  have "p @ s = (CHR ''$'' # str_int (int (length b)) @ CRLF) @ (b @ CRLF)"
    using eq by (simp add: encode_bulk_def)
  then show ?thesis
  proof (cases rule: append_eq_prefix_cases)
    case (left u)
    then obtain e where "read_line p = Inl e"
      using read_line_header_torn [OF left(1) False] by auto
    then show ?thesis by (simp add: read_bulk_string_def)
  next
    case (right u)
    from ok have chk: "check_bulk_length (int (length b)) = Inr ()"
      by (simp add: check_bulk_length_def ok_bulk_def)
    have "length u < length b + 2"
      using right(2) \<open>s \<noteq> []\<close> by (metis CRLF_simps(3) length_append length_greater_0_conv less_add_same_cancel1)
    moreover have "length b \<le> length u \<Longrightarrow> \<exists>v. u = b @ v \<and> length v < 2"
      using right(2) calculation by (metis (no_types, lifting) add_less_cancel_left append_eq_append_conv_if length_append append_take_drop_id)
    ultimately show ?thesis
      using chk header_int_bulk [OF ok]
      by (cases "length u < length b")
        (auto simp: right(1) read_bulk_string_def read_header starts_with_def parse_int_str_int readexactly_def)
  qed
qed

lemma read_n_bulks_torn:
  "list_all ok_bulk bs \<Longrightarrow> concat (map encode_bulk bs) = p @ s \<Longrightarrow> s \<noteq> [] \<Longrightarrow>
   \<exists>e. read_n read_bulk_string (length bs) p = Inl e"
proof (induction bs arbitrary: p)
  case (Cons b bs)
  then have "p @ s = encode_bulk b @ concat (map encode_bulk bs)" by simp
  then show ?case
  proof (cases rule: append_eq_prefix_cases)
    case (left u)
    with Cons.prems have "\<exists>e. read_bulk_string p = Inl e"
      by (intro read_bulk_string_torn [of b p u]) auto
    then show ?thesis by auto
  next
    case (right u)
    with Cons obtain e where "read_n read_bulk_string (length bs) u = Inl e" by auto
    with Cons.prems right show ?thesis
      by (simp add: read_bulk_string_encode)
  qed
qed simp

lemma read_command_torn:
  assumes ok: "ok_command c" and eq: "encode_command c = p @ s" and "p \<noteq> []" and "s \<noteq> []"
  shows "\<exists>e. read_command p = Inl e"
proof -
  have "p @ s = (CHR ''*'' # str_int (int (length c)) @ CRLF) @ concat (map encode_bulk c)"
    using eq by (simp add: encode_command_def)
  then show ?thesis
  proof (cases rule: append_eq_prefix_cases)
    case (left u)
    then obtain e where "read_line p = Inl e"
      using read_line_header_torn [OF left(1) \<open>p \<noteq> []\<close>] by auto
    then show ?thesis by (simp add: read_command_def)
  next
    case (right u)
    with ok \<open>s \<noteq> []\<close> obtain e where "read_n read_bulk_string (length c) u = Inl e"
      using read_n_bulks_torn [of c u s] by (auto simp: ok_command_def)
    with ok right(1) header_int_array [of "length c"] show ?thesis
      by (simp add: ok_command_def read_command_def read_header starts_with_def parse_int_str_int)
  qed
qed


section \<open>Streams of records\<close>

text \<open>Reading records until the stream ends or a read fails: the records, and the failure if any.\<close>

fun read_all :: "(bytes \<Rightarrow> 'e + 'a option \<times> bytes) \<Rightarrow> nat \<Rightarrow> bytes \<Rightarrow> 'a list \<times> 'e option" where
  "read_all f 0 r = ([], None)"
| "read_all f (Suc n) r =
     (case f r of
        Inl e \<Rightarrow> ([], Some e)
      | Inr (None, _) \<Rightarrow> ([], None)
      | Inr (Some x, r1) \<Rightarrow> map_prod ((#) x) id (read_all f n r1))"

locale stream_codec =
  fixes enc :: "'a \<Rightarrow> bytes"
    and dec :: "bytes \<Rightarrow> 'e + 'a option \<times> bytes"
    and ok :: "'a \<Rightarrow> bool"
  assumes dec_end: "dec [] = Inr (None, [])"
    and dec_enc: "ok x \<Longrightarrow> dec (enc x @ rest) = Inr (Some x, rest)"
    and dec_cut: "ok x \<Longrightarrow> enc x = p @ s \<Longrightarrow> p \<noteq> [] \<Longrightarrow> s \<noteq> [] \<Longrightarrow> \<exists>e. dec p = Inl e"
begin

text \<open>What was written is read back in order, and a stream cut inside a record yields exactly the
  records before the cut, followed by an error.\<close>

lemma read_all_written:
  "list_all ok xs \<Longrightarrow> length xs < n \<Longrightarrow> read_all dec n (concat (map enc xs)) = (xs, None)"
proof (induction xs arbitrary: n)
  case Nil
  then show ?case by (cases n) (simp_all add: dec_end)
next
  case (Cons x xs)
  then show ?case by (cases n) (simp_all add: dec_enc)
qed

lemma read_all_cut:
  assumes "list_all ok xs" and "ok x" and "enc x = p @ s" and "p \<noteq> []" and "s \<noteq> []"
    and "length xs < n"
  shows "\<exists>e. read_all dec n (concat (map enc xs) @ p) = (xs, Some e)"
  using assms(1,6)
proof (induction xs arbitrary: n)
  case Nil
  then show ?case using dec_cut [OF assms(2-5)] by (cases n) auto
next
  case (Cons y xs)
  then obtain m where n: "n = Suc m" by (cases n) auto
  with Cons obtain e where "read_all dec m (concat (map enc xs) @ p) = (xs, Some e)"
    by auto
  with Cons.prems n show ?case by (simp add: dec_enc)
qed

text \<open>Two streams of valid records with the same bytes hold the same records.\<close>

lemma enc_stream_inj:
  assumes "list_all ok xs" and "list_all ok ys" and "concat (map enc xs) = concat (map enc ys)"
  shows "xs = ys"
  using read_all_written [OF assms(1), of "Suc (length xs + length ys)"]
    read_all_written [OF assms(2), of "Suc (length xs + length ys)"] assms(3) by simp

end

interpretation cmd: stream_codec encode_command read_command ok_command
proof
  show "read_command [] = Inr (None, [])"
    by (simp add: read_command_def)
qed (simp_all add: read_command_encode read_command_torn)


section \<open>Consumption\<close>

lemma read_line_Some: "read_line r = Inr (Some l, rest) \<Longrightarrow> r = l @ CRLF @ rest"
  by (auto simp: read_line_def ends_with_iff dest!: readline_split split: option.splits if_splits)

lemma readexactly_split: "readexactly n r = Inr (b, rest) \<Longrightarrow> r = b @ rest \<and> length b = n"
  by (auto simp: readexactly_def split: if_splits)

lemma check_bulk_length_Inr: "check_bulk_length n = Inr u \<Longrightarrow> -1 \<le> n \<and> n \<le> MAX_BULK_LENGTH"
  by (simp add: check_bulk_length_def split: if_splits)

lemma read_bulk_string_Inr:
  assumes "read_bulk_string r = Inr (b, rest)"
  shows "(\<exists>p. r = p @ rest) \<and> ok_bulk b"
proof -
  from assms obtain h r1 n where line: "read_line r = Inr (Some h, r1)"
    and chk: "check_bulk_length n = Inr ()"
    and alt: "(n = -1 \<and> b = [] \<and> rest = r1) \<or>
      (n \<noteq> -1 \<and> (\<exists>r2 t. readexactly (nat n) r1 = Inr (b, r2) \<and> readexactly 2 r2 = Inr (t, rest)))"
    by (auto simp: read_bulk_string_def sum_bind_eq_Inr split: option.splits if_splits)
  from line obtain q where r: "r = q @ r1"
    using read_line_suffix by blast
  from alt show ?thesis
  proof
    assume "n = -1 \<and> b = [] \<and> rest = r1"
    with r show ?thesis by (auto simp: ok_bulk_def MAX_BULK_LENGTH_def)
  next
    assume "n \<noteq> -1 \<and> (\<exists>r2 t. readexactly (nat n) r1 = Inr (b, r2) \<and> readexactly 2 r2 = Inr (t, rest))"
    then obtain r2 t where "r1 = b @ r2" "length b = nat n" "r2 = t @ rest"
      by (auto dest!: readexactly_split)
    with r check_bulk_length_Inr [OF chk] show ?thesis
      by (auto simp: ok_bulk_def MAX_BULK_LENGTH_def)
  qed
qed

lemma read_n_Inr:
  assumes "\<And>r x rest. f r = Inr (x, rest) \<Longrightarrow> (\<exists>p. r = p @ rest) \<and> Q x"
  shows "read_n f n r = Inr (xs, rest) \<Longrightarrow> (\<exists>p. r = p @ rest) \<and> length xs = n \<and> list_all Q xs"
proof (induction n arbitrary: r xs)
  case (Suc n)
  then obtain x r1 xs1 where f: "f r = Inr (x, r1)" and rec: "read_n f n r1 = Inr (xs1, rest)"
    and xs: "xs = x # xs1"
    by (auto simp: sum_bind_eq_Inr map_sum_eq_Inr)
  from assms [OF f] Suc.IH [OF rec] xs show ?case by auto
qed simp

text \<open>A command that is read consumes input, and the limits of the protocol hold for it.\<close>

lemma read_command_Some:
  assumes "read_command r = Inr (Some c, rest)"
  shows "\<exists>p. r = p @ rest \<and> p \<noteq> []"
proof -
  from assms obtain l r1 where line: "read_line r = Inr (Some l, r1)"
    and alt: "rest = r1 \<or> (\<exists>n. read_n read_bulk_string n r1 = Inr (c, rest))"
    by (auto simp: read_command_def sum_bind_eq_Inr map_sum_eq_Inr split: option.splits if_splits)
  from read_line_suffix [OF line] obtain q where "r = q @ r1" "q \<noteq> []" by auto
  moreover from alt have "\<exists>p. r1 = p @ rest"
    using read_n_Inr [of read_bulk_string ok_bulk _ r1 c rest, OF read_bulk_string_Inr] by auto
  ultimately show ?thesis by force
qed

lemma read_command_shorter: "read_command r = Inr (Some c, rest) \<Longrightarrow> length rest < length r"
  using read_command_Some by fastforce

lemma read_line_short: "read_line r = Inr (Some l, rest) \<Longrightarrow> length l \<le> STREAM_LIMIT"
  by (auto simp: read_line_def readline_def Let_def split: option.splits if_splits)

lemma split_words_short:
  "length (split_words acc s) \<le> Suc (length s) \<and> list_all (\<lambda>w. length w \<le> length acc + length s) (split_words acc s)"
proof (induction acc s rule: split_words.induct)
  case (2 acc c s)
  then show ?case by (auto simp: list_all_iff dest!: bspec)
qed simp

lemma read_command_ok:
  assumes "read_command r = Inr (Some c, rest)"
  shows "ok_command c"
proof -
  from assms obtain l r1 where line: "read_line r = Inr (Some l, r1)"
    and alt: "c = py_split l \<or> c = [] \<or> (\<exists>n. \<not> MAX_ARRAY_LENGTH < n \<and> read_n read_bulk_string (nat n) r1 = Inr (c, rest))"
    by (fastforce simp: read_command_def sum_bind_eq_Inr map_sum_eq_Inr split: option.splits if_splits)
  from alt consider "c = py_split l" | "c = []"
    | n where "\<not> MAX_ARRAY_LENGTH < n" "read_n read_bulk_string (nat n) r1 = Inr (c, rest)" by blast
  then show ?thesis
  proof cases
    case 1
    with split_words_short [of "[]" l] read_line_short [OF line] show ?thesis
      by (auto simp: ok_command_def ok_bulk_def py_split_def list_all_iff STREAM_LIMIT_def MAX_ARRAY_LENGTH_def
          MAX_BULK_LENGTH_def)
  next
    case 3
    from read_n_Inr [of read_bulk_string ok_bulk, OF read_bulk_string_Inr 3(2)] 3(1) show ?thesis
      by (auto simp: ok_command_def MAX_ARRAY_LENGTH_def)
  qed (simp add: ok_command_def MAX_ARRAY_LENGTH_def)
qed


section \<open>Replies on the wire\<close>

text \<open>What the client gets for a value the server sends: simple strings arrive as text, booleans as
  integers, text as bytes.\<close>

fun wire_value :: "pyobj \<Rightarrow> pyobj" where
  "wire_value (SimpleString s) = PyArg (Str s)"
| "wire_value (PyBool b) = PyInt (if b then 1 else 0)"
| "wire_value (PyArg (Str s)) = PyArg (Bytes (the (utf8_encode s)))"
| "wire_value (PyList xs) = PyList (map wire_value xs)"
| "wire_value v = v"

text \<open>A text that fits into one line of a reply.\<close>

definition line_text :: "pystr \<Rightarrow> bool" where
  "line_text s \<longleftrightarrow>
     (case utf8_encode s of None \<Rightarrow> False | Some raw \<Rightarrow> LF \<notin> set raw \<and> Suc (length raw) < STREAM_LIMIT)"

fun ok_reply :: "pyobj \<Rightarrow> bool" where
  "ok_reply (SimpleString s) = line_text s"
| "ok_reply (Error s) = line_text s"
| "ok_reply (PyBool b) = True"
| "ok_reply (PyInt n) = header_int n"
| "ok_reply PyNone = True"
| "ok_reply (PyArg a) = (case arg_bytes a of None \<Rightarrow> False | Some b \<Rightarrow> ok_bulk b)"
| "ok_reply (PyList xs) = (int (length xs) \<le> MAX_ARRAY_LENGTH \<and> list_all ok_reply xs)"
| "ok_reply (PyFloat x) = False"

fun nesting :: "pyobj \<Rightarrow> nat" where
  "nesting (PyList xs) = Suc (fold max (map nesting xs) 0)"
| "nesting v = 1"

lemma fold_max_le: "fold max (map f xs) (a::nat) \<le> d \<longleftrightarrow> a \<le> d \<and> (\<forall>x \<in> set xs. f x \<le> d)"
  by (induction xs arbitrary: a) auto

lemma read_text_line:
  assumes "line_text s" and "utf8_encode s = Some raw" and "c \<noteq> LF"
  shows "read_line (c # raw @ CRLF @ rest) = Inr (Some (c # raw), rest)"
  using assms read_line_CRLF [of "c # raw" rest] by (simp add: line_text_def)

lemma header_int_small [simp]: "header_int 0" "header_int 1" "header_int (-1)"
  by (simp_all add: header_int_def)

lemma str_int_small: "''0'' = str_int 0" "''1'' = str_int 1"
  by (simp_all add: str_int_def dec_nat.simps)

lemma str_int_minus_one: "''-1'' = str_int (-1)"
  by (simp add: str_int_def dec_nat.simps)

lemma read_bulk_reply:
  assumes "ok_bulk b"
  shows "read_reply (Suc d) (encode_bulk b @ rest) = Inr (PyArg (Bytes b), rest)"
proof -
  from assms have "check_bulk_length (int (length b)) = Inr ()"
    by (simp add: check_bulk_length_def ok_bulk_def)
  with header_int_bulk [OF assms] show ?thesis
    by (simp add: encode_bulk_def read_header parse_int_str_int)
qed

lemma read_reply_encode:
  "encode v = Inr w \<Longrightarrow> ok_reply v \<Longrightarrow> nesting v \<le> d \<Longrightarrow> read_reply d (w @ rest) = Inr (wire_value v, rest)"
  and read_replies_encode:
  "encode_all vs = Inr w \<Longrightarrow> list_all ok_reply vs \<Longrightarrow> \<forall>v \<in> set vs. nesting v \<le> d \<Longrightarrow>
   read_n (read_reply d) (length vs) (w @ rest) = Inr (map wire_value vs, rest)"
proof (induction v and vs arbitrary: w d rest and w d rest rule: encode_encode_all.induct)
  case (1 s)
  then show ?case by (cases d) (auto simp: read_text_line utf8_roundtrip split: option.splits)
next
  case (2 s)
  then show ?case by (cases d) (auto simp: read_text_line utf8_roundtrip split: option.splits)
next
  case (3 b)
  then show ?case
    using read_header [of 1 "CHR '':''" rest] read_header [of 0 "CHR '':''" rest]
    by (cases d) (auto simp: str_int_small parse_int_str_int)
next
  case (4 n)
  then show ?case by (cases d) (auto simp: read_header parse_int_str_int split: if_splits)
next
  case 5
  then show ?case
    using read_header [of "-1" "CHR ''$''" rest]
    by (cases d) (auto simp: str_int_minus_one parse_int_str_int check_bulk_length_def MAX_BULK_LENGTH_def)
next
  case (6 b)
  then show ?case by (cases d) (auto simp: arg_bytes_def read_bulk_reply simp del: read_reply.simps)
next
  case (7 s)
  then show ?case by (cases d) (auto simp: arg_bytes_def read_bulk_reply simp del: read_reply.simps split: option.splits)
next
  case (8 xs)
  then show ?case
    by (cases d) (auto simp: map_sum_eq_Inr fold_max_le read_header header_int_array parse_int_str_int)
next
  case (9 x)
  then show ?case by simp
next
  case 10
  then show ?case by simp
next
  case (11 x xs)
  then show ?case by (auto simp: sum_bind_eq_Inr map_sum_eq_Inr)
qed

end
