(* ===== verification/Hash_Ring.thy ===== *)
theory Hash_Ring
  imports Resp_Protocol
begin

text \<open>
  The consistent hash ring (\<^verbatim>\<open>ConsistentHashRing\<close> of \<^verbatim>\<open>cluster.py\<close>) and the binary searches of
  \<^verbatim>\<open>bisect\<close> it uses. The digest of \<^verbatim>\<open>hashlib.md5\<close>, read as a number, is the parameter \<open>digest\<close>.
\<close>

section \<open>Binary search\<close>

text \<open>The loop of \<^verbatim>\<open>bisect\<close>: \<open>left y\<close> tells whether the search goes on to the left of \<open>y\<close>.\<close>

function bisect_loop :: "('a \<Rightarrow> bool) \<Rightarrow> 'a list \<Rightarrow> nat \<Rightarrow> nat \<Rightarrow> nat" where
  "bisect_loop left a lo hi =
     (if lo < hi then
        (let mid = (lo + hi) div 2
         in if left (a ! mid) then bisect_loop left a lo mid else bisect_loop left a (mid + 1) hi)
      else lo)"
  by pat_completeness auto
termination bisect_loop
  by (relation "measure (\<lambda>(left, a, lo, hi). hi - lo)") auto

declare bisect_loop.simps [simp del]

definition bisect_right :: "'a::linorder list \<Rightarrow> 'a \<Rightarrow> nat" where
  "bisect_right a x = bisect_loop (\<lambda>y. x < y) a 0 (length a)"

definition bisect_left :: "'a::linorder list \<Rightarrow> 'a \<Rightarrow> nat" where
  "bisect_left a x = bisect_loop (\<lambda>y. \<not> y < x) a 0 (length a)"

definition insort_right :: "'a::linorder list \<Rightarrow> 'a \<Rightarrow> 'a list" where
  "insort_right a x = (let i = bisect_right a x in take i a @ x # drop i a)"

lemma bisect_loop_spec:
  assumes "\<And>i j. i \<le> j \<Longrightarrow> j < length a \<Longrightarrow> left (a ! i) \<Longrightarrow> left (a ! j)"
    and "lo \<le> hi" "hi \<le> length a" "\<forall>i < lo. \<not> left (a ! i)" "\<forall>i. hi \<le> i \<and> i < length a \<longrightarrow> left (a ! i)"
  shows "bisect_loop left a lo hi = length (takeWhile (\<lambda>y. \<not> left y) a)"
  using assms
proof (induction left a lo hi rule: bisect_loop.induct)
  case (1 left a lo hi)
  show ?case
  proof (cases "lo < hi")
    case True
    let ?mid = "(lo + hi) div 2"
    have mid: "lo \<le> ?mid" "?mid < hi" using True by auto
    show ?thesis
    proof (cases "left (a ! ?mid)")
      case l: True
      have "\<forall>i. ?mid \<le> i \<and> i < length a \<longrightarrow> left (a ! i)" using "1.prems"(1) l by blast
      with "1.IH"(1) [OF True refl l] "1.prems" mid True l show ?thesis
        by (subst bisect_loop.simps) (simp add: Let_def)
    next
      case r: False
      have "\<not> left (a ! i)" if "i < ?mid + 1" for i
        using "1.prems"(1) [of i ?mid] r that mid "1.prems"(3) by auto
      with "1.IH"(2) [OF True refl r] "1.prems" mid True r show ?thesis
        by (subst bisect_loop.simps) (simp add: Let_def)
    qed
  next
    case False
    with "1.prems" have eq: "lo = hi" by simp
    have "length (takeWhile (\<lambda>y. \<not> left y) a) = lo"
    proof (cases "lo < length a")
      case True
      then have "\<not> \<not> left (a ! lo)" using "1.prems"(5) eq by simp
      with True "1.prems"(4) have "takeWhile (\<lambda>y. \<not> left y) a = take lo a"
        by (intro takeWhile_eq_take_P_nth) auto
      with True show ?thesis by simp
    next
      case False
      then have "takeWhile (\<lambda>y. \<not> left y) a = a"
        using "1.prems"(3,4) eq by (auto simp: takeWhile_eq_all_conv in_set_conv_nth)
      with False "1.prems"(3) eq show ?thesis by (simp del: takeWhile_eq_all_conv)
    qed
    with False show ?thesis by (subst bisect_loop.simps) simp
  qed
qed

lemma bisect_right_sorted: "sorted a \<Longrightarrow> bisect_right a x = length (takeWhile (\<lambda>y. y \<le> x) a)"
  unfolding bisect_right_def
  by (subst bisect_loop_spec) (auto simp: not_less dest: sorted_nth_mono intro: less_le_trans)

lemma bisect_left_sorted: "sorted a \<Longrightarrow> bisect_left a x = length (takeWhile (\<lambda>y. y < x) a)"
  unfolding bisect_left_def
  by (subst bisect_loop_spec) (auto dest: sorted_nth_mono intro: le_less_trans)

lemma insort_right_insort: "sorted a \<Longrightarrow> insort_right a x = insort x a"
proof -
  assume s: "sorted a"
  have "take (length (takeWhile P a)) a @ x # drop (length (takeWhile P a)) a = takeWhile P a @ x # dropWhile P a" for P
    by (metis takeWhile_eq_take dropWhile_eq_drop)
  moreover have "sorted a \<Longrightarrow> takeWhile (\<lambda>y. y \<le> x) a @ x # dropWhile (\<lambda>y. y \<le> x) a = insort x a"
  proof (induction a)
    case (Cons y a)
    then show ?case
      by (cases "y = x") (auto simp: insort_is_Cons not_le)
  qed simp
  ultimately show ?thesis
    using s by (simp add: insort_right_def bisect_right_sorted Let_def)
qed


section \<open>The ring\<close>

record hash_ring =
  virtual_nodes :: nat
  ring :: "(nat, pystr) odict"
  sorted_hashes :: "nat list"

datatype ring_error = No_nodes | Hash_not_encodable | Key_missing nat

definition ring_hash :: "(bytes \<Rightarrow> nat) \<Rightarrow> arg \<Rightarrow> ring_error + nat" where
  "ring_hash digest a = (case arg_bytes a of None \<Rightarrow> Inl Hash_not_encodable | Some raw \<Rightarrow> Inr (digest raw))"

definition nodes :: "hash_ring \<Rightarrow> pystr list" where
  "nodes r = remdups (map snd (ring r))"

text \<open>\<^verbatim>\<open>f"{node}#{i}"\<close>\<close>

definition vnode :: "pystr \<Rightarrow> nat \<Rightarrow> pystr" where
  "vnode node i = node @ ascii_str (CHR ''#'' # str_int (int i))"

fun add_loop :: "(bytes \<Rightarrow> nat) \<Rightarrow> pystr \<Rightarrow> nat list \<Rightarrow> hash_ring \<Rightarrow> ring_error + hash_ring" where
  "add_loop digest node [] r = Inr r"
| "add_loop digest node (i # is) r =
     sum_bind (ring_hash digest (Str (vnode node i))) (\<lambda>h.
       add_loop digest node is (r\<lparr>ring := od_set h node (ring r), sorted_hashes := insort_right (sorted_hashes r) h\<rparr>))"

definition add_node :: "(bytes \<Rightarrow> nat) \<Rightarrow> pystr \<Rightarrow> hash_ring \<Rightarrow> ring_error + hash_ring" where
  "add_node digest node r =
     (if List.member (nodes r) node then Inr r else add_loop digest node [0..<virtual_nodes r] r)"

definition delete_at :: "nat \<Rightarrow> 'a list \<Rightarrow> 'a list" where
  "delete_at i a = take i a @ drop (Suc i) a"

fun remove_loop :: "(bytes \<Rightarrow> nat) \<Rightarrow> pystr \<Rightarrow> nat list \<Rightarrow> hash_ring \<Rightarrow> ring_error + hash_ring" where
  "remove_loop digest node [] r = Inr r"
| "remove_loop digest node (i # is) r =
     sum_bind (ring_hash digest (Str (vnode node i))) (\<lambda>h.
       let idx = bisect_left (sorted_hashes r) h;
           hs = (if idx < length (sorted_hashes r) \<and> sorted_hashes r ! idx = h
                 then delete_at idx (sorted_hashes r) else sorted_hashes r)
       in remove_loop digest node is (r\<lparr>ring := od_pop h (ring r), sorted_hashes := hs\<rparr>))"

definition remove_node :: "(bytes \<Rightarrow> nat) \<Rightarrow> pystr \<Rightarrow> hash_ring \<Rightarrow> ring_error + hash_ring" where
  "remove_node digest node r = remove_loop digest node [0..<virtual_nodes r] r"

definition get_node :: "(bytes \<Rightarrow> nat) \<Rightarrow> arg \<Rightarrow> hash_ring \<Rightarrow> ring_error + pystr" where
  "get_node digest key r =
     (if sorted_hashes r = [] then Inl No_nodes
      else sum_bind (ring_hash digest key) (\<lambda>h.
        let i = bisect_right (sorted_hashes r) h;
            idx = (if i = length (sorted_hashes r) then 0 else i);
            p = sorted_hashes r ! idx
        in case od_get (ring r) p of None \<Rightarrow> Inl (Key_missing p) | Some node \<Rightarrow> Inr node))"

fun add_nodes :: "(bytes \<Rightarrow> nat) \<Rightarrow> pystr list \<Rightarrow> hash_ring \<Rightarrow> ring_error + hash_ring" where
  "add_nodes digest [] r = Inr r"
| "add_nodes digest (n # ns) r = sum_bind (add_node digest n r) (add_nodes digest ns)"

definition ring_init :: "(bytes \<Rightarrow> nat) \<Rightarrow> pystr list \<Rightarrow> nat \<Rightarrow> ring_error + hash_ring" where
  "ring_init digest ns vn = add_nodes digest ns \<lparr>virtual_nodes = vn, ring = [], sorted_hashes = []\<rparr>"


section \<open>What a ring holds\<close>

text \<open>The point of a virtual node, for nodes whose names can be encoded.\<close>

definition encodable :: "pystr \<Rightarrow> bool" where
  "encodable s = list_all scalar s"

definition point :: "(bytes \<Rightarrow> nat) \<Rightarrow> pystr \<Rightarrow> nat \<Rightarrow> nat" where
  "point digest node i = digest (the (utf8_encode (vnode node i)))"

lemma ring_hash_vnode: "encodable n \<Longrightarrow> ring_hash digest (Str (vnode n i)) = Inr (point digest n i)"
proof -
  assume "encodable n"
  moreover have "list_all scalar (ascii_str (CHR ''#'' # str_int (int i)))"
    using utf8_encode_ascii [of "CHR ''#'' # str_int (int i)"] is_ascii_str_int [of "int i"]
      utf8_encode_scalar [of "ascii_str (CHR ''#'' # str_int (int i))"] by simp
  ultimately have "utf8_encode (vnode n i) \<noteq> None"
    by (subst utf8_encode_scalar) (simp add: vnode_def encodable_def)
  then show ?thesis by (auto simp: ring_hash_def arg_bytes_def point_def)
qed

text \<open>No two virtual nodes of the nodes \<open>N\<close> share a point.\<close>

definition collision_free :: "(bytes \<Rightarrow> nat) \<Rightarrow> nat \<Rightarrow> pystr set \<Rightarrow> bool" where
  "collision_free digest vn N \<longleftrightarrow> inj_on (\<lambda>(n, i). point digest n i) (N \<times> {..<vn}) \<and> (\<forall>n \<in> N. encodable n)"

text \<open>For a list of nodes this can be evaluated.\<close>

lemma collision_free_list:
  assumes "distinct (map (\<lambda>(n, i). point digest n i) (List.product ns [0..<vn]))" and "list_all encodable ns"
  shows "collision_free digest vn (set ns)"
proof -
  have "inj_on (\<lambda>(n, i). point digest n i) (set (List.product ns [0..<vn]))"
    using assms(1) by (simp add: distinct_map)
  then show ?thesis
    using assms(2) by (simp add: collision_free_def list_all_iff atLeast0LessThan)
qed

definition points :: "(bytes \<Rightarrow> nat) \<Rightarrow> nat \<Rightarrow> pystr set \<Rightarrow> nat set" where
  "points digest vn N = (\<lambda>(n, i). point digest n i) ` (N \<times> {..<vn})"

text \<open>The ring of a set of nodes: their points in order, each with its node.\<close>

definition ring_of :: "(bytes \<Rightarrow> nat) \<Rightarrow> nat \<Rightarrow> pystr set \<Rightarrow> hash_ring \<Rightarrow> bool" where
  "ring_of digest vn N r \<longleftrightarrow>
     virtual_nodes r = vn \<and> finite N \<and> sorted (sorted_hashes r) \<and> distinct (sorted_hashes r) \<and>
     set (sorted_hashes r) = points digest vn N \<and> od_wf (ring r) \<and> dom (od_get (ring r)) = points digest vn N \<and>
     (\<forall>n \<in> N. \<forall>i < vn. od_get (ring r) (point digest n i) = Some n)"

lemma ring_of_empty: "ring_of digest vn {} \<lparr>virtual_nodes = vn, ring = [], sorted_hashes = []\<rparr>"
  by (simp add: ring_of_def points_def od_get_def od_wf_def dom_def)

lemma od_get_set [simp]: "od_get (od_set k v d) = (od_get d)(k \<mapsto> v)"
  by (rule od.lookup_assign)

lemma od_get_pop [simp]: "od_get (od_pop k d) = (od_get d)(k := None)"
  by (rule od.lookup_pop)

text \<open>The loop over the virtual nodes: after it the points of \<open>is\<close> are in, the others unchanged.\<close>

lemma add_loop_run:
  assumes "encodable n" and "distinct is" and "inj_on (point digest n) (set is)"
    and "sorted (sorted_hashes r)" "distinct (sorted_hashes r)"
    and "point digest n ` set is \<inter> set (sorted_hashes r) = {}" and "od_wf (ring r)"
  shows "\<exists>r'. add_loop digest n is r = Inr r' \<and> virtual_nodes r' = virtual_nodes r \<and>
     sorted (sorted_hashes r') \<and> distinct (sorted_hashes r') \<and>
     set (sorted_hashes r') = point digest n ` set is \<union> set (sorted_hashes r) \<and> od_wf (ring r') \<and>
     od_get (ring r') = (\<lambda>h. if h \<in> point digest n ` set is then Some n else od_get (ring r) h)"
  using assms
proof (induction "is" arbitrary: r)
  case (Cons i "is")
  let ?h = "point digest n i"
  let ?r = "r\<lparr>ring := od_set ?h n (ring r), sorted_hashes := insort_right (sorted_hashes r) ?h\<rparr>"
  have hs: "sorted_hashes ?r = insort ?h (sorted_hashes r)"
    using Cons.prems(4) by (simp add: insort_right_insort)
  have "?h \<notin> set (sorted_hashes r)" using Cons.prems(6) by auto
  then have srt: "sorted (sorted_hashes ?r)" "distinct (sorted_hashes ?r)"
    "set (sorted_hashes ?r) = insert ?h (set (sorted_hashes r))"
    using hs Cons.prems(4,5) by (simp_all add: sorted_insort distinct_insort set_insort_key)
  have "point digest n ` set is \<inter> set (sorted_hashes ?r) = {}"
    using srt(3) Cons.prems(2,3,6) by (auto simp: inj_on_def)
  from Cons.IH [OF Cons.prems(1) _ _ srt(1,2) this] Cons.prems(2,3,7) obtain r' where r':
    "add_loop digest n is ?r = Inr r'" "virtual_nodes r' = virtual_nodes ?r" "sorted (sorted_hashes r')"
    "distinct (sorted_hashes r')" "set (sorted_hashes r') = point digest n ` set is \<union> set (sorted_hashes ?r)" "od_wf (ring r')"
    "od_get (ring r') = (\<lambda>h. if h \<in> point digest n ` set is then Some n else od_get (ring ?r) h)"
    by (auto simp: inj_on_def od.wf_assign)
  have "add_loop digest n (i # is) r = Inr r'"
    using r'(1) by (simp add: ring_hash_vnode [OF Cons.prems(1)])
  with r'(2-7) srt(3) show ?case by (intro exI [of _ r']) (auto simp: fun_eq_iff)
qed simp

text \<open>Deleting the element a binary search finds.\<close>

lemma delete_split:
  assumes "\<forall>x \<in> set t. x < h" and "sorted d" and "distinct d" and "\<forall>x \<in> set d. h \<le> x"
  shows "(if length t < length (t @ d) \<and> (t @ d) ! length t = h then delete_at (length t) (t @ d) else t @ d) =
    filter (\<lambda>x. x \<noteq> h) (t @ d)"
proof -
  have t: "filter (\<lambda>x. x \<noteq> h) t = t" using assms(1) by (intro filter_True) auto
  show ?thesis
  proof (cases d)
    case (Cons y d')
    have "filter (\<lambda>x. x \<noteq> h) d' = d'"
      using assms Cons by (cases "y = h") (auto intro!: filter_True)
    with t Cons show ?thesis by (simp add: delete_at_def)
  qed (simp add: t)
qed

lemma delete_found:
  assumes "sorted hs" and "distinct hs"
  shows "(let idx = bisect_left hs h
          in if idx < length hs \<and> hs ! idx = h then delete_at idx hs else hs) = filter (\<lambda>x. x \<noteq> h) hs"
proof -
  let ?t = "takeWhile (\<lambda>y. y < h) hs" and ?d = "dropWhile (\<lambda>y. y < h) hs"
  have srt: "sorted ?d" and dst: "distinct ?d"
    using assms by (simp_all add: sorted_dropWhile)
  have "\<forall>x \<in> set ?d. h \<le> x"
  proof (cases ?d)
    case (Cons y d)
    then have "\<not> y < h" using hd_dropWhile [of "\<lambda>y. y < h" hs] by simp
    with srt show ?thesis unfolding Cons by auto
  qed (simp only: list.set ball_empty)
  from delete_split [OF _ srt dst this, of ?t] bisect_left_sorted [OF assms(1), of h] show ?thesis
    by (auto simp only: Let_def takeWhile_dropWhile_id dest: set_takeWhileD)
qed

lemma remove_loop_run:
  assumes "encodable n" and "sorted (sorted_hashes r)" "distinct (sorted_hashes r)" and "od_wf (ring r)"
  shows "\<exists>r'. remove_loop digest n is r = Inr r' \<and> virtual_nodes r' = virtual_nodes r \<and>
     sorted (sorted_hashes r') \<and> distinct (sorted_hashes r') \<and>
     set (sorted_hashes r') = set (sorted_hashes r) - point digest n ` set is \<and> od_wf (ring r') \<and>
     od_get (ring r') = (\<lambda>h. if h \<in> point digest n ` set is then None else od_get (ring r) h)"
  using assms(2-4)
proof (induction "is" arbitrary: r)
  case (Cons i "is")
  let ?h = "point digest n i"
  let ?r = "r\<lparr>ring := od_pop ?h (ring r), sorted_hashes := filter (\<lambda>x. x \<noteq> ?h) (sorted_hashes r)\<rparr>"
  have "sorted (sorted_hashes ?r)" "distinct (sorted_hashes ?r)" "od_wf (ring ?r)"
    using Cons.prems sorted_filter [of id "sorted_hashes r"] by (simp_all add: od.wf_pop)
  from Cons.IH [OF this] obtain r' where r': "remove_loop digest n is ?r = Inr r'" "virtual_nodes r' = virtual_nodes ?r"
    "sorted (sorted_hashes r')" "distinct (sorted_hashes r')"
    "set (sorted_hashes r') = set (sorted_hashes ?r) - point digest n ` set is" "od_wf (ring r')"
    "od_get (ring r') = (\<lambda>h. if h \<in> point digest n ` set is then None else od_get (ring ?r) h)" by auto
  have "remove_loop digest n (i # is) r = Inr r'"
    using r'(1) delete_found [OF Cons.prems(1,2), of ?h] by (simp add: ring_hash_vnode [OF assms(1)] Let_def)
  with r'(2-7) show ?case by (intro exI [of _ r']) (auto simp: fun_eq_iff)
qed simp

lemma points_insert: "points digest vn (insert n N) = point digest n ` {..<vn} \<union> points digest vn N"
  by (auto simp: points_def)

lemma collision_free_mono: "collision_free digest vn N \<Longrightarrow> M \<subseteq> N \<Longrightarrow> collision_free digest vn M"
  unfolding collision_free_def by (blast intro: inj_on_subset)

lemma collision_free_disjoint:
  assumes "collision_free digest vn (insert n N)" and "n \<notin> N"
  shows "point digest n ` {..<vn} \<inter> points digest vn N = {}"
proof (rule ccontr)
  assume "point digest n ` {..<vn} \<inter> points digest vn N \<noteq> {}"
  then obtain i m j where "i < vn" "m \<in> N" "j < vn" "point digest n i = point digest m j"
    by (auto simp: points_def)
  with assms have "(n, i) = (m, j)"
    unfolding collision_free_def inj_on_def by fastforce
  with assms(2) \<open>m \<in> N\<close> show False by simp
qed

lemma collision_free_inj: "collision_free digest vn N \<Longrightarrow> n \<in> N \<Longrightarrow> inj_on (point digest n) {..<vn}"
  unfolding collision_free_def inj_on_def by fastforce

lemma nodes_of:
  assumes "ring_of digest vn N r"
  shows "set (nodes r) \<subseteq> N" and "0 < vn \<Longrightarrow> N \<subseteq> set (nodes r)"
proof -
  have get: "od_get (ring r) h = Some n \<longleftrightarrow> (h, n) \<in> set (ring r)" for h n
    using assms by (simp add: ring_of_def od_wf_def od_get_def)
  show "set (nodes r) \<subseteq> N"
  proof
    fix n assume "n \<in> set (nodes r)"
    then obtain h where h: "od_get (ring r) h = Some n" by (auto simp: nodes_def get)
    then have "h \<in> points digest vn N" using assms by (auto simp: ring_of_def dom_def)
    with assms h show "n \<in> N" by (auto simp: points_def ring_of_def)
  qed
  show "N \<subseteq> set (nodes r)" if "0 < vn"
  proof
    fix n assume "n \<in> N"
    with assms that have "od_get (ring r) (point digest n 0) = Some n" by (simp add: ring_of_def)
    then show "n \<in> set (nodes r)" by (force simp: nodes_def get)
  qed
qed

text \<open>Adding and removing a node.\<close>

lemma add_node_run:
  assumes r: "ring_of digest vn N r" and cf: "collision_free digest vn (insert n N)"
  shows "\<exists>r'. add_node digest n r = Inr r' \<and> ring_of digest vn (insert n N) r'"
proof (cases "n \<in> set (nodes r)")
  case True
  then have "insert n N = N" using nodes_of(1) [OF r] by auto
  with True r show ?thesis by (simp add: add_node_def)
next
  case False
  have enc: "encodable n" using cf by (simp add: collision_free_def)
  show ?thesis
  proof (cases "n \<in> N")
    case True
    with False nodes_of(2) [OF r] have "vn = 0" by auto
    with False r True show ?thesis by (simp add: add_node_def insert_absorb ring_of_def)
  next
    case notin: False
    have vn: "virtual_nodes r = vn" using r by (simp add: ring_of_def)
    have "point digest n ` set [0..<vn] \<inter> set (sorted_hashes r) = {}"
      using collision_free_disjoint [OF cf notin] r by (simp add: ring_of_def atLeast0LessThan)
    moreover have "inj_on (point digest n) (set [0..<vn])"
      using collision_free_inj [OF cf, of n] by (simp add: atLeast0LessThan)
    ultimately obtain r' where r': "add_loop digest n [0..<vn] r = Inr r'" "virtual_nodes r' = vn"
      "sorted (sorted_hashes r')" "distinct (sorted_hashes r')"
      "set (sorted_hashes r') = point digest n ` {..<vn} \<union> points digest vn N" "od_wf (ring r')"
      "od_get (ring r') = (\<lambda>h. if h \<in> point digest n ` {..<vn} then Some n else od_get (ring r) h)"
      using add_loop_run [OF enc, of "[0..<vn]" digest r] r by (auto simp: ring_of_def atLeast0LessThan)
    have "ring_of digest vn (insert n N) r'"
      using r r' collision_free_disjoint [OF cf notin]
      by (auto simp: ring_of_def points_insert dom_def) (auto simp: points_def)
    with False vn r'(1) show ?thesis by (simp add: add_node_def)
  qed
qed

lemma remove_node_run:
  assumes r: "ring_of digest vn N r" and cf: "collision_free digest vn (insert n N)"
  shows "\<exists>r'. remove_node digest n r = Inr r' \<and> ring_of digest vn (N - {n}) r'"
proof -
  have enc: "encodable n" using cf by (simp add: collision_free_def)
  have vn: "virtual_nodes r = vn" and N: "finite N" using r by (simp_all add: ring_of_def)
  have cf': "collision_free digest vn (insert n (N - {n}))"
    using collision_free_mono [OF cf] by auto
  note disj = collision_free_disjoint [OF cf']
  have pts: "points digest vn N - point digest n ` {..<vn} = points digest vn (N - {n})"
    using disj by (auto simp: points_def)
  obtain r' where r': "remove_loop digest n [0..<vn] r = Inr r'" "virtual_nodes r' = vn"
    "sorted (sorted_hashes r')" "distinct (sorted_hashes r')"
    "set (sorted_hashes r') = set (sorted_hashes r) - point digest n ` {..<vn}" "od_wf (ring r')"
    "od_get (ring r') = (\<lambda>h. if h \<in> point digest n ` {..<vn} then None else od_get (ring r) h)"
    using remove_loop_run [OF enc, of r digest "[0..<vn]"] r vn by (auto simp: ring_of_def atLeast0LessThan)
  have "dom (od_get (ring r')) = points digest vn (N - {n})"
    using r r'(7) pts by (auto simp: ring_of_def dom_def split: if_splits)
  moreover have "od_get (ring r') (point digest m i) = Some m" if "m \<in> N - {n}" "i < vn" for m i
  proof -
    have "point digest m i \<in> points digest vn (N - {n})" using that by (auto simp: points_def)
    then have "point digest m i \<notin> point digest n ` {..<vn}" using disj by auto
    with r r'(7) that show ?thesis by (simp add: ring_of_def)
  qed
  ultimately have "ring_of digest vn (N - {n}) r'"
    using r r' pts N by (simp add: ring_of_def)
  with r'(1) vn show ?thesis by (simp add: remove_node_def)
qed

lemma add_nodes_run:
  assumes "ring_of digest vn N r" and "collision_free digest vn (N \<union> set ns)"
  shows "\<exists>r'. add_nodes digest ns r = Inr r' \<and> ring_of digest vn (N \<union> set ns) r'"
  using assms
proof (induction ns arbitrary: N r)
  case (Cons n ns)
  have "collision_free digest vn (insert n N)"
    using Cons.prems(2) by (rule collision_free_mono) auto
  from add_node_run [OF Cons.prems(1) this] obtain r1 where r1: "add_node digest n r = Inr r1"
    "ring_of digest vn (insert n N) r1" by blast
  from Cons.IH [OF r1(2)] Cons.prems(2) r1(1) show ?case by simp
qed simp


section \<open>Lookup\<close>

text \<open>The point that owns a hash: the next one clockwise.\<close>

definition successor :: "nat set \<Rightarrow> nat \<Rightarrow> nat" where
  "successor S h = (if {x \<in> S. h < x} = {} then Min S else Min {x \<in> S. h < x})"

lemma successor_in: "finite S \<Longrightarrow> S \<noteq> {} \<Longrightarrow> successor S h \<in> S"
proof -
  assume "finite S" "S \<noteq> {}"
  then show ?thesis
    using Min_in [of S] Min_in [of "{x \<in> S. h < x}"] by (auto simp: successor_def)
qed

lemma successor_list:
  assumes "sorted hs" and "hs \<noteq> []"
  shows "hs ! (if bisect_right hs h = length hs then 0 else bisect_right hs h) = successor (set hs) h"
proof -
  let ?t = "takeWhile (\<lambda>y. y \<le> h) hs" and ?d = "dropWhile (\<lambda>y. y \<le> h) hs"
  note idx = bisect_right_sorted [OF assms(1), of h]
  have srt: "sorted ?d" using assms(1) by (simp add: sorted_dropWhile)
  have all: "set hs = set ?t \<union> set ?d" by (metis set_append takeWhile_dropWhile_id)
  have low: "\<forall>x \<in> set ?t. \<not> h < x" by (auto dest: set_takeWhileD)
  show ?thesis
  proof (cases ?d)
    case Nil
    then have "length ?t = length hs" by (metis append_Nil2 takeWhile_dropWhile_id)
    moreover have "{x \<in> set hs. h < x} = {}" using all low Nil by auto
    moreover have "hs ! 0 = Min (set hs)"
      using assms by (cases hs) (auto intro!: Min_eqI [symmetric])
    ultimately show ?thesis using idx by (simp add: successor_def)
  next
    case (Cons y d)
    then have y: "h < y" using hd_dropWhile [of "\<lambda>y. y \<le> h" hs] by simp
    have eq: "hs = ?t @ y # d" using Cons by (metis takeWhile_dropWhile_id)
    then have "hs ! length ?t = y" by (metis nth_append_length)
    moreover have "length ?t \<noteq> length hs"
      using eq by (metis append_eq_append_conv append_Nil2 list.distinct(1))
    moreover have "{x \<in> set hs. h < x} = set (y # d)"
      using all low y srt Cons by (auto intro: less_le_trans)
    moreover have "Min (set (y # d)) = y"
      using srt Cons by (intro Min_eqI) auto
    ultimately show ?thesis using idx by (simp add: successor_def)
  qed
qed

lemma finite_points: "finite N \<Longrightarrow> finite (points digest vn N)"
  by (simp add: points_def)

lemma points_empty: "points digest vn N = {} \<longleftrightarrow> N = {} \<or> vn = 0"
  by (auto simp: points_def lessThan_empty_iff)

lemma get_node_run:
  assumes r: "ring_of digest vn N r" and "N \<noteq> {}" and "0 < vn" and key: "arg_bytes key = Some raw"
  shows "\<exists>n \<in> N. \<exists>i < vn. point digest n i = successor (points digest vn N) (digest raw) \<and> get_node digest key r = Inr n"
proof -
  have hs: "sorted (sorted_hashes r)" "set (sorted_hashes r) = points digest vn N" "finite N"
    using r by (simp_all add: ring_of_def)
  have ne: "points digest vn N \<noteq> {}" using assms(2,3) by (simp add: points_empty)
  then have "sorted_hashes r \<noteq> []" using hs(2) by auto
  note s = successor_list [OF hs(1) this, of "digest raw", unfolded hs(2)]
  from successor_in [OF finite_points [OF hs(3)] ne, of "digest raw"]
  obtain n i where n: "n \<in> N" "i < vn" "point digest n i = successor (points digest vn N) (digest raw)"
    by (auto simp: points_def)
  then have "od_get (ring r) (successor (points digest vn N) (digest raw)) = Some n"
    using r by (metis ring_of_def)
  with s n key \<open>sorted_hashes r \<noteq> []\<close> show ?thesis
    by (auto simp: get_node_def ring_hash_def Let_def)
qed

text \<open>Every point has one node, so the node of a key is determined by the owning point.\<close>

lemma get_node_point:
  assumes "ring_of digest vn N r" and "arg_bytes key = Some raw" and "n \<in> N" and "i < vn"
    and "point digest n i = successor (points digest vn N) (digest raw)"
  shows "get_node digest key r = Inr n"
proof -
  obtain m j where m: "m \<in> N" "j < vn" "point digest m j = successor (points digest vn N) (digest raw)"
    "get_node digest key r = Inr m"
    using get_node_run [OF assms(1) _ _ assms(2)] assms(3,4) by (metis empty_iff gr_implies_not0 not_gr_zero)
  have "od_get (ring r) (point digest n i) = Some n" "od_get (ring r) (point digest m j) = Some m"
    using assms(1,3,4) m(1,2) by (simp_all add: ring_of_def)
  with m assms(5) show ?thesis by simp
qed

text \<open>New points only take over hashes for themselves.\<close>

lemma successor_union:
  assumes "finite S" "finite T" "S \<noteq> {}"
  shows "successor (S \<union> T) h \<in> T \<or> successor (S \<union> T) h = successor S h"
proof (rule disjCI)
  let ?u = "\<lambda>X. {x \<in> X. h < x}"
  assume *: "successor (S \<union> T) h \<noteq> successor S h"
  have in_ST: "successor (S \<union> T) h \<in> S \<union> T" using assms by (intro successor_in) auto
  have "successor (S \<union> T) h \<notin> S"
  proof
    assume S: "successor (S \<union> T) h \<in> S"
    have "successor (S \<union> T) h = successor S h"
    proof (cases "?u (S \<union> T) = {}")
      case True
      then have "?u S = {}" by auto
      with True S have "Min (S \<union> T) \<in> S" by (simp add: successor_def)
      with assms have "Min (S \<union> T) = Min S"
        by (intro Min_eqI [symmetric]) auto
      with True \<open>?u S = {}\<close> show ?thesis by (simp add: successor_def)
    next
      case False
      then have s: "successor (S \<union> T) h = Min (?u (S \<union> T))" by (simp only: successor_def if_False)
      have "Min (?u (S \<union> T)) \<in> ?u (S \<union> T)" using False assms by (intro Min_in) auto
      with S s have mem: "Min (?u (S \<union> T)) \<in> ?u S" by auto
      then have "Min (?u S) = Min (?u (S \<union> T))"
        using assms by (intro Min_eqI) auto
      with mem s show ?thesis by (auto simp: successor_def)
    qed
    with * show False by simp
  qed
  with in_ST show "successor (S \<union> T) h \<in> T" by simp
qed

lemma points_union: "points digest vn (M \<union> N) = points digest vn M \<union> points digest vn N"
  by (auto simp: points_def)

text \<open>Two rings, one with one node more: a key keeps its node or moves to the new one.\<close>

lemma get_node_insert:
  assumes r: "ring_of digest vn N r" and r': "ring_of digest vn (insert n N) r'"
    and "N \<noteq> {}" and "0 < vn" and key: "arg_bytes key = Some raw"
  shows "get_node digest key r' = Inr n \<or> get_node digest key r' = get_node digest key r"
proof -
  have fin: "finite (points digest vn N)" "finite (points digest vn {n})"
    using r by (simp_all add: ring_of_def finite_points)
  have ne: "points digest vn N \<noteq> {}" using assms(3,4) by (simp add: points_empty)
  have ins: "points digest vn (insert n N) = points digest vn N \<union> points digest vn {n}"
    by (metis Un_commute insert_is_Un points_union)
  obtain m i where m: "m \<in> N" "i < vn" "point digest m i = successor (points digest vn N) (digest raw)"
    "get_node digest key r = Inr m"
    using get_node_run [OF r assms(3,4) key] by blast
  from successor_union [OF fin ne, of "digest raw"] show ?thesis
  proof
    assume "successor (points digest vn N \<union> points digest vn {n}) (digest raw) \<in> points digest vn {n}"
    then obtain j where "j < vn" "point digest n j = successor (points digest vn (insert n N)) (digest raw)"
      using ins by (auto simp: points_def)
    then show ?thesis using get_node_point [OF r' key, of n j] by simp
  next
    assume "successor (points digest vn N \<union> points digest vn {n}) (digest raw) = successor (points digest vn N) (digest raw)"
    then show ?thesis using get_node_point [OF r' key, of m i] m ins by simp
  qed
qed


section \<open>The lookup is a scan\<close>

text \<open>Whatever points collide, the list of a ring stays sorted.\<close>

lemma add_loop_sorted: "add_loop digest node is r = Inr r' \<Longrightarrow> sorted (sorted_hashes r) \<Longrightarrow> sorted (sorted_hashes r')"
  by (induction "is" arbitrary: r) (auto simp: insort_right_insort sorted_insort sum_bind_eq_Inr)

lemma add_nodes_sorted: "add_nodes digest ns r = Inr r' \<Longrightarrow> sorted (sorted_hashes r) \<Longrightarrow> sorted (sorted_hashes r')"
  by (induction ns arbitrary: r) (auto simp: sum_bind_eq_Inr add_node_def split: if_splits dest: add_loop_sorted)

lemma ring_init_sorted: "ring_init digest ns vn = Inr r \<Longrightarrow> sorted (sorted_hashes r)"
  unfolding ring_init_def by (drule add_nodes_sorted) simp_all

text \<open>The lookup by a scan of the list: the first point after the hash, else the first of all.\<close>

definition scan_point :: "nat list \<Rightarrow> nat \<Rightarrow> nat" where
  "scan_point hs h = (case find (\<lambda>p. h < p) hs of Some p \<Rightarrow> p | None \<Rightarrow> hd hs)"

lemma bisect_scan:
  assumes "sorted hs" and "hs \<noteq> []"
  shows "hs ! (if bisect_right hs h = length hs then 0 else bisect_right hs h) = scan_point hs h"
proof -
  have "length (takeWhile (\<lambda>y. y \<le> h) hs) = length hs \<longleftrightarrow> find (\<lambda>p. h < p) hs = None"
    by (induction hs) auto
  moreover have "find (\<lambda>p. h < p) hs = Some p \<Longrightarrow> hs ! length (takeWhile (\<lambda>y. y \<le> h) hs) = p" for p
    by (induction hs) (auto split: if_splits)
  ultimately show ?thesis
    using assms(2) by (auto simp: bisect_right_sorted [OF assms(1)] scan_point_def hd_conv_nth split: option.split)
qed

end
