(* ===== verification/Kv_Store.thy ===== *)
theory Kv_Store
  imports Resp_Protocol
begin

text \<open>
  The in-memory store (\<^verbatim>\<open>store.py\<close>): entries with an optional deadline, memory accounting, expiry
  through a heap of deadlines, and eviction of the least recently used keys.

  Every operation takes the readings of \<^verbatim>\<open>time.monotonic()\<close> it makes as its first arguments, in the
  order the code makes them (\<open>now\<close>, then \<open>now'\<close>), and returns the new store. A key is an \<^verbatim>\<open>Arg\<close>; a
  value is any object.
\<close>

section \<open>State\<close>

definition POLICIES :: "string list" where
  "POLICIES = [''allkeys-lru'', ''noeviction'']"

definition ENTRY_OVERHEAD :: int where "ENTRY_OVERHEAD = 96"
definition INT64_MIN :: int where "INT64_MIN = - (2 ^ 63)"
definition INT64_MAX :: int where "INT64_MAX = 2 ^ 63 - 1"

record entry =
  val :: pyobj
  expire_at :: "seconds option"
  esize :: int

record store =
  data :: "(arg, entry) odict"
  expiry_heap :: "(seconds \<times> arg) list"
  maxmemory :: int
  policy :: string
  used_memory :: int
  writes :: nat
  hits :: nat
  misses :: nat
  expired_keys :: nat
  evicted_keys :: nat
  evicted :: "arg list"

datatype init_error = Bad_policy string | Negative_maxmemory

text \<open>The attributes \<^verbatim>\<open>__init__\<close> sets.\<close>

definition fresh_store :: "int \<Rightarrow> string \<Rightarrow> store" where
  "fresh_store mm pol =
     \<lparr>data = [], expiry_heap = [], maxmemory = mm, policy = pol, used_memory = 0,
      writes = 0, hits = 0, misses = 0, expired_keys = 0, evicted_keys = 0, evicted = []\<rparr>"

definition store_init :: "int \<Rightarrow> string \<Rightarrow> init_error + store" where
  "store_init mm pol =
     (if \<not> List.member POLICIES pol then Inl (Bad_policy pol)
      else if mm < 0 then Inl Negative_maxmemory
      else Inr (fresh_store mm pol))"


section \<open>Helpers\<close>

definition size_of :: "pyobj \<Rightarrow> int" where
  "size_of item =
     (case item of
        PyArg (Bytes b) \<Rightarrow> int (length b)
      | PyArg (Str s) \<Rightarrow> int (length s)
      | SimpleString s \<Rightarrow> int (length s)
      | Error s \<Rightarrow> int (length s)
      | _ \<Rightarrow> 8)"

definition not_integer_msg :: string where
  "not_integer_msg = ''value is not an integer or out of range''"

text \<open>The text of the ValueError that \<^verbatim>\<open>int()\<close> raises. The first case never reaches a client: the
  pattern \<^verbatim>\<open>-?[0-9]+\<close> is checked before every conversion whose message is passed on.\<close>

definition int_error_msg :: "int_error \<Rightarrow> string" where
  "int_error_msg e =
     (case e of
        Invalid_literal \<Rightarrow> ''invalid literal for int() with base 10''
      | Too_many_digits n \<Rightarrow>
          ''Exceeds the limit (4300 digits) for integer string conversion: value has '' @ str_int (int n)
          @ '' digits; use sys.set_int_max_str_digits() to increase the limit'')"

definition stored_text :: "pyobj \<Rightarrow> pystr option" where
  "stored_text v =
     (case v of
        PyArg (Bytes b) \<Rightarrow> Some (ascii_decode b)
      | PyArg (Str s) \<Rightarrow> Some s
      | SimpleString s \<Rightarrow> Some s
      | Error s \<Rightarrow> Some s
      | _ \<Rightarrow> None)"

definition stored_int :: "pyobj \<Rightarrow> string + int" where
  "stored_int v =
     (case stored_text v of
        None \<Rightarrow> Inl not_integer_msg
      | Some s \<Rightarrow>
          if \<not> INT_RE_fullmatch s then Inl not_integer_msg
          else (case py_int_str s of
                  Inl e \<Rightarrow> Inl (int_error_msg e)
                | Inr n \<Rightarrow> if INT64_MIN \<le> n \<and> n \<le> INT64_MAX then Inr n else Inl not_integer_msg))"

definition cost :: "arg \<Rightarrow> pyobj \<Rightarrow> int" where
  "cost k v = ENTRY_OVERHEAD + size_of (PyArg k) + size_of v"

definition is_expired :: "seconds \<Rightarrow> entry \<Rightarrow> bool" where
  "is_expired now e = (case expire_at e of None \<Rightarrow> False | Some t \<Rightarrow> t \<le> now)"

definition over_limit :: "store \<Rightarrow> bool" where
  "over_limit st \<longleftrightarrow> 0 < maxmemory st \<and> maxmemory st < used_memory st"

definition put :: "arg \<Rightarrow> entry \<Rightarrow> store \<Rightarrow> store" where
  "put k e st =
     (let used = (case od_get (data st) k of
                    None \<Rightarrow> used_memory st
                  | Some old \<Rightarrow> used_memory st - esize old);
          e' = e\<lparr>esize := cost k (val e)\<rparr>
      in st\<lparr>used_memory := used + esize e', data := move_to_end k (od_set k e' (data st))\<rparr>)"

definition store_remove :: "arg \<Rightarrow> bool \<Rightarrow> store \<Rightarrow> store" where
  "store_remove k expired st =
     (case od_get (data st) k of
        None \<Rightarrow> st
      | Some e \<Rightarrow>
          st\<lparr>data := od_pop k (data st), used_memory := used_memory st - esize e,
             expired_keys := (if expired then Suc (expired_keys st) else expired_keys st)\<rparr>)"

text \<open>The deadlines of all entries, in the order of the dictionary.\<close>

definition deadlines :: "(arg, entry) odict \<Rightarrow> (seconds \<times> arg) list" where
  "deadlines d = List.map_filter (\<lambda>(k, e). map_option (\<lambda>t. (t, k)) (expire_at e)) d"

definition schedule :: "arg \<Rightarrow> seconds \<Rightarrow> store \<Rightarrow> store" where
  "schedule k t st =
     (let h = heappush (t, k) (expiry_heap st)
      in if 4 * length (data st) + 1024 < length h
         then st\<lparr>expiry_heap := heapify (deadlines (data st))\<rparr>
         else st\<lparr>expiry_heap := h\<rparr>)"


section \<open>Expiry and eviction\<close>

text \<open>The loop of \<^verbatim>\<open>sweep_expired\<close>: pop every deadline that has passed; an entry goes when the
  popped deadline is still its own.\<close>

function sweep_loop :: "seconds \<Rightarrow> store \<Rightarrow> nat \<Rightarrow> nat \<times> store" where
  "sweep_loop now st removed =
     (case heappop (expiry_heap st) of
        None \<Rightarrow> (removed, st)
      | Some ((t, k), h) \<Rightarrow>
          if t \<le> now then
            (let st1 = st\<lparr>expiry_heap := h\<rparr>
             in case od_get (data st1) k of
                  None \<Rightarrow> sweep_loop now st1 removed
                | Some e \<Rightarrow>
                    if expire_at e = Some t then sweep_loop now (store_remove k True st1) (Suc removed)
                    else sweep_loop now st1 removed)
          else (removed, st))"
  by pat_completeness auto

lemma remove_heap [simp]: "expiry_heap (store_remove k b st) = expiry_heap st"
  by (simp add: store_remove_def split: option.splits)

lemma heappop_length: "heappop h = Some (x, h') \<Longrightarrow> length h' < length h"
  by (cases h) auto

termination sweep_loop
  by (relation "measure (\<lambda>(now, st, removed). length (expiry_heap st))") (auto dest: heappop_length)

declare sweep_loop.simps [simp del]

definition sweep_expired :: "seconds \<Rightarrow> store \<Rightarrow> nat \<times> store" where
  "sweep_expired now st = sweep_loop now st 0"

function evict_loop :: "store \<Rightarrow> store" where
  "evict_loop st =
     (case data st of
        [] \<Rightarrow> st
      | (k, e) # rest \<Rightarrow>
          if over_limit st \<and> 1 < length (data st) then
            (let st1 = store_remove k False st
             in evict_loop (st1\<lparr>evicted_keys := Suc (evicted_keys st1), evicted := evicted st1 @ [k]\<rparr>))
          else st)"
  by pat_completeness auto
termination evict_loop
  by (relation "measure (\<lambda>st. length (data st))")
    (auto simp: store_remove_def od_get_def od_pop_def intro: le_imp_less_Suc length_delete_le)

declare evict_loop.simps [simp del]

definition evict :: "seconds \<Rightarrow> store \<Rightarrow> store" where
  "evict now st =
     (if policy st \<noteq> ''allkeys-lru'' \<or> \<not> over_limit st then st
      else evict_loop (snd (sweep_expired now st)))"


section \<open>Operations\<close>

definition store_set :: "seconds \<Rightarrow> seconds \<Rightarrow> arg \<Rightarrow> pyobj \<Rightarrow> seconds option \<Rightarrow> store \<Rightarrow> store" where
  "store_set now now' k v ttl st =
     (let st1 = st\<lparr>writes := Suc (writes st)\<rparr>;
          deadline = map_option (\<lambda>t. now + t) ttl;
          st2 = put k \<lparr>val = v, expire_at = deadline, esize = 0\<rparr> st1;
          st3 = (case deadline of None \<Rightarrow> st2 | Some t \<Rightarrow> schedule k t st2)
      in evict now' st3)"

text \<open>The entry an operation works on: one whose deadline has passed is removed first.\<close>

definition lookup_live :: "seconds \<Rightarrow> arg \<Rightarrow> store \<Rightarrow> entry option \<times> store" where
  "lookup_live now k st =
     (case od_get (data st) k of
        None \<Rightarrow> (None, st)
      | Some e \<Rightarrow> if is_expired now e then (None, store_remove k True st) else (Some e, st))"

definition is_bytes :: "pyobj \<Rightarrow> bool" where
  "is_bytes v = (case v of PyArg (Bytes _) \<Rightarrow> True | _ \<Rightarrow> False)"

definition overflow_msg :: string where
  "overflow_msg = ''increment or decrement would overflow''"

text \<open>A counter that exists: its entry moves to the end and gets the new value and size.\<close>

definition overwrite :: "arg \<Rightarrow> entry \<Rightarrow> pyobj \<Rightarrow> store \<Rightarrow> store" where
  "overwrite k e v st =
     (let d = move_to_end k (data st);
          used = used_memory st - esize e;
          e' = e\<lparr>val := v, esize := cost k v\<rparr>
      in st\<lparr>data := od_set k e' d, used_memory := used + esize e'\<rparr>)"

definition store_incr :: "seconds \<Rightarrow> seconds \<Rightarrow> arg \<Rightarrow> int \<Rightarrow> store \<Rightarrow> (string + int) \<times> store" where
  "store_incr now now' k delta st =
     (case lookup_live now k st of (found, st1) \<Rightarrow>
        let sample = (case found of None \<Rightarrow> PyArg k | Some e \<Rightarrow> val e)
        in case (case found of None \<Rightarrow> Inr 0 | Some e \<Rightarrow> stored_int (val e)) of
             Inl msg \<Rightarrow> (Inl msg, st1)
           | Inr current \<Rightarrow>
               let new = current + delta
               in if \<not> (INT64_MIN \<le> new \<and> new \<le> INT64_MAX) then (Inl overflow_msg, st1)
                  else
                    let v = (if is_bytes sample then PyArg (Bytes (str_int new))
                             else PyArg (Str (ascii_str (str_int new))));
                        st2 = st1\<lparr>writes := Suc (writes st1)\<rparr>;
                        st3 = (case found of
                                 None \<Rightarrow> put k \<lparr>val = v, expire_at = None, esize = 0\<rparr> st2
                               | Some e \<Rightarrow> overwrite k e v st2)
                    in (Inr new, evict now' st3))"

definition store_delete :: "seconds \<Rightarrow> arg \<Rightarrow> store \<Rightarrow> bool \<times> store" where
  "store_delete now k st =
     (case od_get (data st) k of
        None \<Rightarrow> (False, st)
      | Some e \<Rightarrow> (\<not> is_expired now e, store_remove k (is_expired now e) st))"

definition store_expire :: "seconds \<Rightarrow> seconds \<Rightarrow> arg \<Rightarrow> seconds \<Rightarrow> store \<Rightarrow> bool \<times> store" where
  "store_expire now now' k ttl st =
     (case lookup_live now k st of
        (None, st1) \<Rightarrow> (False, st1)
      | (Some e, st1) \<Rightarrow>
          let t = now' + ttl
          in (True, schedule k t (st1\<lparr>data := od_set k (e\<lparr>expire_at := Some t\<rparr>) (data st1)\<rparr>)))"

definition expire_at_unix :: "seconds \<Rightarrow> seconds \<Rightarrow> seconds \<Rightarrow> arg \<Rightarrow> seconds \<Rightarrow> store \<Rightarrow> bool \<times> store" where
  "expire_at_unix wall now now' k unix_seconds st = store_expire now now' k (unix_seconds - wall) st"

definition store_persist :: "seconds \<Rightarrow> arg \<Rightarrow> store \<Rightarrow> bool \<times> store" where
  "store_persist now k st =
     (case lookup_live now k st of
        (None, st1) \<Rightarrow> (False, st1)
      | (Some e, st1) \<Rightarrow>
          if expire_at e = None then (False, st1)
          else (True, st1\<lparr>data := od_set k (e\<lparr>expire_at := None\<rparr>) (data st1)\<rparr>))"

definition store_flush :: "store \<Rightarrow> store" where
  "store_flush st = st\<lparr>data := [], expiry_heap := [], used_memory := 0\<rparr>"

definition store_get :: "seconds \<Rightarrow> arg \<Rightarrow> store \<Rightarrow> pyobj \<times> store" where
  "store_get now k st =
     (case lookup_live now k st of
        (None, st1) \<Rightarrow> (PyNone, st1)
      | (Some e, st1) \<Rightarrow> (val e, st1\<lparr>data := move_to_end k (data st1)\<rparr>))"

definition store_exists :: "seconds \<Rightarrow> arg \<Rightarrow> store \<Rightarrow> bool \<times> store" where
  "store_exists now k st = map_prod (\<lambda>v. v \<noteq> PyNone) id (store_get now k st)"

definition store_ttl :: "seconds \<Rightarrow> seconds \<Rightarrow> arg \<Rightarrow> store \<Rightarrow> seconds option \<times> store" where
  "store_ttl now now' k st =
     (case lookup_live now k st of
        (None, st1) \<Rightarrow> (None, st1)
      | (Some e, st1) \<Rightarrow>
          (case expire_at e of
             None \<Rightarrow> (Some (-1), st1)
           | Some t \<Rightarrow> (Some (max 0 (t - now')), st1)))"

definition store_keys :: "seconds \<Rightarrow> store \<Rightarrow> arg list \<times> store" where
  "store_keys now st = (let st1 = snd (sweep_expired now st) in (od_keys (data st1), st1))"

definition store_snapshot ::
  "seconds \<Rightarrow> seconds \<Rightarrow> store \<Rightarrow> (arg \<times> pyobj \<times> seconds option) list \<times> store" where
  "store_snapshot now now' st =
     (let st1 = snd (sweep_expired now st)
      in (List.map_filter
            (\<lambda>(k, e). if is_expired now' e then None
                      else Some (k, val e, map_option (\<lambda>t. t - now') (expire_at e)))
            (data st1), st1))"

definition store_len :: "seconds \<Rightarrow> store \<Rightarrow> nat \<times> store" where
  "store_len now st = (let st1 = snd (sweep_expired now st) in (length (data st1), st1))"

definition drain_evictions :: "store \<Rightarrow> arg list \<times> store" where
  "drain_evictions st = (evicted st, st\<lparr>evicted := []\<rparr>)"


section \<open>The invariant\<close>

definition total_size :: "(arg, entry) odict \<Rightarrow> int" where
  "total_size d = sum_list (map (\<lambda>(k, e). esize e) d)"

text \<open>The accounting part: distinct keys, every entry carries its cost, the counter is their sum.\<close>

definition mem_inv :: "store \<Rightarrow> bool" where
  "mem_inv st \<longleftrightarrow>
     od_wf (data st) \<and> used_memory st = total_size (data st) \<and>
     list_all (\<lambda>(k, e). esize e = cost k (val e)) (data st)"

text \<open>The expiry part: the heap is ordered and holds the deadline of every entry that has one.\<close>

definition heap_inv :: "store \<Rightarrow> bool" where
  "heap_inv st \<longleftrightarrow>
     sorted (expiry_heap st) \<and> list_all (\<lambda>x. List.member (expiry_heap st) x) (deadlines (data st))"

definition store_inv :: "store \<Rightarrow> bool" where
  "store_inv st \<longleftrightarrow> mem_inv st \<and> heap_inv st"

lemma od_get_iff: "od_wf d \<Longrightarrow> od_get d k = Some e \<longleftrightarrow> (k, e) \<in> set d"
  by (simp add: od_wf_def od_get_def)

lemma set_deadlines: "set (deadlines d) = {(t, k). \<exists>e. (k, e) \<in> set d \<and> expire_at e = Some t}"
  by (force simp: deadlines_def map_filter_def)

lemma mem_inv_iff:
  "mem_inv st \<longleftrightarrow> od_wf (data st) \<and> used_memory st = total_size (data st) \<and>
     (\<forall>k e. od_get (data st) k = Some e \<longrightarrow> esize e = cost k (val e))"
  by (auto simp: mem_inv_def list_all_iff od_get_iff)

lemma heap_inv_iff:
  "od_wf (data st) \<Longrightarrow> heap_inv st \<longleftrightarrow> sorted (expiry_heap st) \<and>
     (\<forall>k e t. od_get (data st) k = Some e \<and> expire_at e = Some t \<longrightarrow> (t, k) \<in> set (expiry_heap st))"
  by (auto simp: heap_inv_def list_all_iff set_deadlines od_get_iff)

lemma store_inv_wf: "store_inv st \<Longrightarrow> od_wf (data st)"
  by (simp add: store_inv_def mem_inv_def)

lemma mem_inv_wf: "mem_inv st \<Longrightarrow> od_wf (data st)"
  by (simp add: mem_inv_def)

text \<open>How the sum of the sizes changes with the dictionary.\<close>

lemma total_pop:
  "od_wf d \<Longrightarrow> od_get d k = Some e \<Longrightarrow> total_size (od_pop k d) = total_size d - esize e"
  by (simp add: total_size_def od_wf_def od_get_def od_pop_def sum_list_delete)

lemma total_append [simp]: "total_size (d @ d') = total_size d + total_size d'"
  by (simp add: total_size_def)

lemma total_single [simp]: "total_size [] = 0" "total_size [(k, e)] = esize e"
  by (simp_all add: total_size_def)

lemma total_to_end: "od_wf d \<Longrightarrow> total_size (move_to_end k d) = total_size d"
  by (auto simp: move_to_end_def total_pop [unfolded od_pop_def od_get_def] split: option.splits)

lemma total_set:
  "od_wf d \<Longrightarrow> total_size (od_set k e d)
     = total_size d + esize e - (case od_get d k of None \<Rightarrow> 0 | Some old \<Rightarrow> esize old)"
proof (induction d)
  case (Cons p d)
  then show ?case
    by (cases p) (auto simp: od_set_def od_get_def od_wf_def total_size_def split: option.splits
        dest: map_of_SomeD)
qed (simp add: od_set_def od_get_def)

lemmas total_simps = total_pop total_to_end total_set od.wf_assign od.wf_pop od.wf_to_end
lemmas lookup_simps = od.lookup_assign od.lookup_pop od.lookup_to_end

section \<open>Preservation\<close>

lemma mem_inv_put: "mem_inv st \<Longrightarrow> mem_inv (put k e st)"
  by (auto simp: mem_inv_iff put_def Let_def total_simps lookup_simps split: option.splits)

lemma mem_inv_remove: "mem_inv st \<Longrightarrow> mem_inv (store_remove k b st)"
  by (auto simp: mem_inv_iff store_remove_def total_simps lookup_simps split: option.splits)

lemma store_inv_remove [inv_intros]: "store_inv st \<Longrightarrow> store_inv (store_remove k b st)"
  by (auto simp: store_inv_def mem_inv_remove heap_inv_iff mem_inv_wf mem_inv_remove [THEN mem_inv_wf])
    (auto simp: store_remove_def lookup_simps split: option.splits if_splits)

lemma data_schedule [simp]: "data (schedule k t st) = data st"
  by (simp add: schedule_def Let_def)

lemma mem_inv_schedule: "mem_inv st \<Longrightarrow> mem_inv (schedule k t st)"
  by (auto simp: mem_inv_def schedule_def Let_def)

text \<open>Scheduling repairs the expiry part when only the deadline it adds is missing.\<close>

lemma store_inv_schedule:
  assumes "mem_inv st" and "sorted (expiry_heap st)"
    and "\<And>k' e t'. od_get (data st) k' = Some e \<Longrightarrow> expire_at e = Some t' \<Longrightarrow>
           (t', k') \<in> insert (t, k) (set (expiry_heap st))"
  shows "store_inv (schedule k t st)"
proof -
  have "heap_inv (schedule k t st)"
  proof (cases "4 * length (data st) + 1024 < length (heappush (t, k) (expiry_heap st))")
    case True
    then show ?thesis
      by (simp add: heap_inv_def schedule_def hq.ok_build list_all_iff heapify_def)
  next
    case False
    with assms show ?thesis
      by (auto simp: heap_inv_iff mem_inv_wf schedule_def heappush_def sorted_insort set_insort_key)
  qed
  with assms(1) show ?thesis by (simp add: store_inv_def mem_inv_schedule)
qed

lemma store_inv_lookup_live [inv_intros]: "store_inv st \<Longrightarrow> store_inv (snd (lookup_live now k st))"
  by (auto simp: lookup_live_def inv_intros split: option.splits)

lemma lookup_live_Some:
  "lookup_live now k st = (Some e, st1) \<longleftrightarrow> st1 = st \<and> od_get (data st) k = Some e \<and> \<not> is_expired now e"
  by (auto simp: lookup_live_def split: option.splits if_splits)

lemma lookup_live_None:
  "lookup_live now k st = (None, st1) \<longleftrightarrow>
     (od_get (data st) k = None \<and> st1 = st) \<or>
     (\<exists>e. od_get (data st) k = Some e \<and> is_expired now e \<and> st1 = store_remove k True st)"
  by (auto simp: lookup_live_def split: option.splits if_splits)

lemma store_inv_heap_update:
  "store_inv st \<Longrightarrow> heap_inv st' \<Longrightarrow> data st' = data st \<Longrightarrow> used_memory st' = used_memory st \<Longrightarrow> store_inv st'"
  by (simp add: store_inv_def mem_inv_def)


section \<open>Sweeping\<close>

abbreviation live_entries :: "seconds \<Rightarrow> (arg, entry) odict \<Rightarrow> (arg, entry) odict" where
  "live_entries now d \<equiv> filter (\<lambda>(k, e). \<not> is_expired now e) d"

lemma filter_pop:
  assumes "od_wf d" and "od_get d k = Some e" and "\<not> P (k, e)"
  shows "filter P (od_pop k d) = filter P d"
proof -
  have "filter P (od_pop k d) = filter (\<lambda>p. P p \<and> fst p \<noteq> k) d"
    by (auto simp: od_pop_def AList.delete_eq intro!: filter_cong)
  also have "\<dots> = filter P d"
    using assms by (intro filter_cong) (auto simp: od_get_iff [symmetric])
  finally show ?thesis .
qed

text \<open>Fields of the store that sweeping and evicting do not touch.\<close>

definition same_config :: "store \<Rightarrow> store \<Rightarrow> bool" where
  "same_config st st' \<longleftrightarrow> maxmemory st' = maxmemory st \<and> policy st' = policy st \<and>
     writes st' = writes st \<and> hits st' = hits st \<and> misses st' = misses st"

lemma same_config_refl [simp]: "same_config st st"
  by (simp add: same_config_def)

lemma same_config_trans: "same_config a b \<Longrightarrow> same_config b c \<Longrightarrow> same_config a c"
  by (simp add: same_config_def)

lemma same_config_remove [simp]: "same_config st (store_remove k b st)"
  by (simp add: same_config_def store_remove_def split: option.splits)

lemma evicted_remove [simp]:
  "evicted (store_remove k b st) = evicted st" "evicted_keys (store_remove k b st) = evicted_keys st"
  by (simp_all add: store_remove_def split: option.splits)

lemma length_pop: "od_wf d \<Longrightarrow> od_get d k = Some e \<Longrightarrow> Suc (length (od_pop k d)) = length d"
  by (simp add: od_wf_def od_get_def od_pop_def length_delete_Some)

text \<open>One step of the sweep when the popped deadline belongs to the entry, and when it is stale.\<close>

lemma pop_own_deadline:
  assumes inv: "store_inv st" and pop: "heappop (expiry_heap st) = Some ((t, k), h)"
    and e: "od_get (data st) k = Some e" and t: "expire_at e = Some t"
  shows "store_inv (store_remove k True (st\<lparr>expiry_heap := h\<rparr>))"
proof -
  let ?st = "store_remove k True (st\<lparr>expiry_heap := h\<rparr>)"
  from inv have "mem_inv (st\<lparr>expiry_heap := h\<rparr>)"
    by (simp add: store_inv_def mem_inv_def)
  then have mem: "mem_inv ?st" by (rule mem_inv_remove)
  from pop have h: "expiry_heap st = (t, k) # h"
    by (cases "expiry_heap st") auto
  have "heap_inv ?st"
    using inv h e
    by (auto simp: heap_inv_iff [OF mem_inv_wf [OF mem]] store_inv_def heap_inv_iff [OF store_inv_wf [OF inv]])
      (force simp: store_remove_def lookup_simps split: if_splits)
  with mem show ?thesis by (simp add: store_inv_def)
qed

lemma pop_stale_deadline:
  assumes inv: "store_inv st" and pop: "heappop (expiry_heap st) = Some ((t, k), h)"
    and stale: "\<And>e. od_get (data st) k = Some e \<Longrightarrow> expire_at e \<noteq> Some t"
  shows "store_inv (st\<lparr>expiry_heap := h\<rparr>)"
proof -
  from pop have h: "expiry_heap st = (t, k) # h"
    by (cases "expiry_heap st") auto
  have wf: "od_wf (data st)" using inv by (rule store_inv_wf)
  show ?thesis
    using inv h stale
    by (fastforce simp: store_inv_def mem_inv_def heap_inv_iff wf)
qed

lemma sweep_done:
  assumes inv: "store_inv st"
    and stop: "heappop (expiry_heap st) = None \<or> (\<exists>t k h. heappop (expiry_heap st) = Some ((t, k), h) \<and> now < t)"
  shows "live_entries now (data st) = data st"
proof (rule filter_True, clarify)
  fix k e assume ke: "(k, e) \<in> set (data st)" and ex: "is_expired now e"
  then obtain t where t: "expire_at e = Some t" "t \<le> now"
    by (auto simp: is_expired_def split: option.splits)
  with ke inv have mem: "(t, k) \<in> set (expiry_heap st)" and srt: "sorted (expiry_heap st)"
    by (auto simp: store_inv_def heap_inv_def list_all_iff set_deadlines)
  from stop show False
  proof
    assume "heappop (expiry_heap st) = None"
    with mem show False by (cases "expiry_heap st") auto
  next
    assume "\<exists>t k h. heappop (expiry_heap st) = Some ((t, k), h) \<and> now < t"
    then obtain t' k' h where pop: "heappop (expiry_heap st) = Some ((t', k'), h)" and "now < t'"
      by blast
    from hq.pop_least [OF srt pop, of "(t, k)"] mem have "(t', k') \<le> (t, k)" by simp
    with \<open>now < t'\<close> t show False by (auto simp: less_eq_prod_def)
  qed
qed

text \<open>What a sweep achieves, as a relation between the store and counter before and after.\<close>

definition sweep_post :: "seconds \<Rightarrow> store \<Rightarrow> nat \<Rightarrow> nat \<times> store \<Rightarrow> bool" where
  "sweep_post now st n = (\<lambda>(m, st').
     store_inv st' \<and> data st' = live_entries now (data st) \<and>
     m + length (data st') = n + length (data st) \<and>
     expired_keys st' + length (data st') = expired_keys st + length (data st) \<and>
     same_config st st' \<and> evicted st' = evicted st \<and> evicted_keys st' = evicted_keys st)"

lemma sweep_post_stale:
  "sweep_post now (st\<lparr>expiry_heap := h\<rparr>) n r \<Longrightarrow> sweep_post now st n r"
  by (auto simp: sweep_post_def same_config_def)

lemma sweep_post_own:
  assumes wf: "od_wf (data st)" and e: "od_get (data st) k = Some e" and "is_expired now e"
    and post: "sweep_post now (store_remove k True (st\<lparr>expiry_heap := h\<rparr>)) (Suc n) r"
  shows "sweep_post now st n r"
proof -
  let ?st = "store_remove k True (st\<lparr>expiry_heap := h\<rparr>)"
  have d: "data ?st = od_pop k (data st)" "expired_keys ?st = Suc (expired_keys st)"
    using e by (simp_all add: store_remove_def)
  moreover have "live_entries now (od_pop k (data st)) = live_entries now (data st)"
    using filter_pop [OF wf e, of "\<lambda>(k, e). \<not> is_expired now e"] assms(3) by simp
  moreover have "Suc (length (od_pop k (data st))) = length (data st)"
    by (rule length_pop [OF wf e])
  moreover have "same_config st ?st"
    by (simp add: same_config_def store_remove_def split: option.splits)
  ultimately show ?thesis
    using post by (auto simp: sweep_post_def elim: same_config_trans)
qed

lemma sweep_loop_post: "store_inv st \<Longrightarrow> sweep_post now st n (sweep_loop now st n)"
proof (induction now st n rule: sweep_loop.induct)
  case (1 now st n)
  note eq = sweep_loop.simps [of now st n]
  show ?case
  proof (cases "heappop (expiry_heap st) = None \<or> (\<exists>t k h. heappop (expiry_heap st) = Some ((t, k), h) \<and> now < t)")
    case True
    with eq have "sweep_loop now st n = (n, st)" by auto
    with "1.prems" sweep_done [OF "1.prems" True] show ?thesis
      by (simp add: sweep_post_def)
  next
    case False
    then obtain t k h where pop: "heappop (expiry_heap st) = Some ((t, k), h)" and due: "t \<le> now"
      by (cases "heappop (expiry_heap st)") (auto simp: not_less)
    show ?thesis
    proof (cases "\<exists>e. od_get (data st) k = Some e \<and> expire_at e = Some t")
      case True
      then obtain e where e: "od_get (data st) k = Some e" "expire_at e = Some t" by blast
      have "sweep_post now (store_remove k True (st\<lparr>expiry_heap := h\<rparr>)) (Suc n)
              (sweep_loop now (store_remove k True (st\<lparr>expiry_heap := h\<rparr>)) (Suc n))"
        using "1.IH"(2) [OF pop refl refl due refl _ e(2)] pop_own_deadline [OF "1.prems" pop e] e by simp
      with e due pop eq show ?thesis
        by (auto simp: is_expired_def intro: sweep_post_own [OF store_inv_wf [OF "1.prems"] e(1)])
    next
      case stale: False
      then have "store_inv (st\<lparr>expiry_heap := h\<rparr>)"
        using pop_stale_deadline [OF "1.prems" pop] by auto
      with "1.IH"(1,3) stale pop due
      have "sweep_post now (st\<lparr>expiry_heap := h\<rparr>) n (sweep_loop now (st\<lparr>expiry_heap := h\<rparr>) n)"
        by (cases "od_get (data st) k") auto
      with stale pop due eq show ?thesis
        by (cases "od_get (data st) k") (auto simp: Let_def dest: sweep_post_stale)
    qed
  qed
qed

lemma sweep_expired_post: "store_inv st \<Longrightarrow> sweep_post now st 0 (sweep_expired now st)"
  by (simp add: sweep_expired_def sweep_loop_post)

lemma sweep_expired_facts:
  assumes "store_inv st"
  shows "store_inv (snd (sweep_expired now st))"
    and "data (snd (sweep_expired now st)) = live_entries now (data st)"
    and "same_config st (snd (sweep_expired now st))"
    and "evicted (snd (sweep_expired now st)) = evicted st"
    and "evicted_keys (snd (sweep_expired now st)) = evicted_keys st"
    and "fst (sweep_expired now st) + length (live_entries now (data st)) = length (data st)"
    and "expired_keys (snd (sweep_expired now st)) = expired_keys st + fst (sweep_expired now st)"
  using sweep_expired_post [OF assms, of now] by (auto simp: sweep_post_def split: prod.splits)

section \<open>Eviction\<close>

text \<open>The reference for the eviction loop: the shortest cut from the least recently used end after
  which the rest fits, keeping at least one entry.\<close>

fun lru_cut :: "int \<Rightarrow> (arg, entry) odict \<Rightarrow> nat" where
  "lru_cut limit (p # q # d) =
     (if 0 < limit \<and> limit < total_size (p # q # d) then Suc (lru_cut limit (q # d)) else 0)"
| "lru_cut limit d = 0"

lemma lru_cut_fits:
  "0 < limit \<Longrightarrow> total_size (drop (lru_cut limit d) d) \<le> limit \<or> length (drop (lru_cut limit d) d) \<le> 1"
  by (induction limit d rule: lru_cut.induct) auto

lemma lru_cut_minimal: "j < lru_cut limit d \<Longrightarrow> limit < total_size (drop j d)"
proof (induction limit d arbitrary: j rule: lru_cut.induct)
  case (1 limit p q d)
  then show ?case by (cases j) (auto split: if_splits)
qed simp_all

lemma lru_cut_less: "d \<noteq> [] \<Longrightarrow> lru_cut limit d < length d"
  by (induction limit d rule: lru_cut.induct) auto

lemma od_wf_drop: "od_wf d \<Longrightarrow> od_wf (drop n d)"
  by (simp add: od_wf_def drop_map [symmetric] distinct_drop)

text \<open>The loop removes exactly this cut and records the keys in order.\<close>

lemma evict_loop_spec:
  "mem_inv st \<Longrightarrow> evict_loop st =
     (let n = lru_cut (maxmemory st) (data st); d = drop n (data st)
      in st\<lparr>data := d, used_memory := total_size d, evicted_keys := evicted_keys st + n,
            evicted := evicted st @ map fst (take n (data st))\<rparr>)"
proof (induction st rule: evict_loop.induct)
  case (1 st)
  note eq = evict_loop.simps [of st]
  have used: "used_memory st = total_size (data st)"
    using "1.prems" by (simp add: mem_inv_def)
  show ?case
  proof (cases "over_limit st \<and> 1 < length (data st)")
    case False
    then have "lru_cut (maxmemory st) (data st) = 0"
      using used by (cases "(maxmemory st, data st)" rule: lru_cut.cases) (auto simp: over_limit_def)
    with False eq used show ?thesis by (auto split: list.splits)
  next
    case True
    then obtain k e q d where d: "data st = (k, e) # q # d"
      by (cases "data st" rule: list.exhaust; cases "tl (data st)") auto
    let ?st = "store_remove k False st"
    let ?st' = "?st\<lparr>evicted_keys := Suc (evicted_keys ?st), evicted := evicted ?st @ [k]\<rparr>"
    have wf: "od_wf ((k, e) # q # d)" using "1.prems" d by (simp add: mem_inv_def)
    then have pop: "od_pop k ((k, e) # q # d) = q # d"
      using delete_hd_tl [of "(k, e)" "q # d"] by (simp add: od_pop_def od_wf_def)
    have st: "?st = st\<lparr>data := q # d, used_memory := used_memory st - esize e\<rparr>"
      using pop by (simp add: store_remove_def d od_get_def)
    have "mem_inv ?st'"
      using mem_inv_remove [OF "1.prems", of k False] by (simp add: mem_inv_def)
    with "1.IH" [of "(k, e)" "q # d" k e] True d eq show ?thesis
      by (auto simp: st Let_def used over_limit_def)
  qed
qed


lemma mem_inv_drop:
  "mem_inv st \<Longrightarrow> mem_inv (st\<lparr>data := drop n (data st), used_memory := total_size (drop n (data st)),
     evicted_keys := i, evicted := ev\<rparr>)"
  by (auto simp: mem_inv_def od_wf_drop list_all_iff dest: in_set_dropD)

lemma store_inv_evict_loop: "store_inv st \<Longrightarrow> store_inv (evict_loop st)"
proof -
  assume inv: "store_inv st"
  then have mem: "mem_inv st" by (simp add: store_inv_def)
  have "mem_inv (evict_loop st)"
    by (simp add: evict_loop_spec [OF mem] Let_def mem_inv_drop [OF mem])
  moreover have "set (data (evict_loop st)) \<subseteq> set (data st)" "expiry_heap (evict_loop st) = expiry_heap st"
    by (simp_all add: evict_loop_spec [OF mem] Let_def set_drop_subset)
  ultimately show ?thesis
    using inv by (fastforce simp: store_inv_def heap_inv_def list_all_iff set_deadlines)
qed

lemma store_inv_evict [inv_intros]: "store_inv st \<Longrightarrow> store_inv (evict now st)"
  by (simp add: evict_def store_inv_evict_loop sweep_expired_facts)

lemma store_inv_writes [inv_intros]: "store_inv st \<Longrightarrow> store_inv (st\<lparr>writes := n\<rparr>)"
  by (simp add: store_inv_def mem_inv_def heap_inv_def)

lemma put_heap [simp]: "expiry_heap (put k e st) = expiry_heap st"
  by (simp add: put_def Let_def)

lemma od_get_put: "od_get (data (put k e st)) = (od_get (data st))(k \<mapsto> e\<lparr>esize := cost k (val e)\<rparr>)"
  by (simp add: put_def Let_def lookup_simps)

lemma store_inv_put_plain:
  assumes "store_inv st" and "expire_at e = None"
  shows "store_inv (put k e st)"
proof -
  have mem: "mem_inv (put k e st)"
    using assms by (simp add: store_inv_def mem_inv_put)
  have "heap_inv (put k e st)"
    using assms heap_inv_iff [OF store_inv_wf [OF assms(1)]]
    by (auto simp: heap_inv_iff [OF mem_inv_wf [OF mem]] od_get_put store_inv_def split: if_splits)
  with mem show ?thesis by (simp add: store_inv_def)
qed

lemma store_inv_put_schedule:
  assumes "store_inv st" and "expire_at e = Some t"
  shows "store_inv (schedule k t (put k e st))"
proof (rule store_inv_schedule)
  show "mem_inv (put k e st)" using assms by (simp add: store_inv_def mem_inv_put)
  show "sorted (expiry_heap (put k e st))" using assms by (simp add: store_inv_def heap_inv_def)
  show "(t', k') \<in> insert (t, k) (set (expiry_heap (put k e st)))"
    if "od_get (data (put k e st)) k' = Some e'" and "expire_at e' = Some t'" for k' e' t'
    using that assms heap_inv_iff [OF store_inv_wf [OF assms(1)]]
    by (auto simp: od_get_put store_inv_def split: if_splits)
qed

lemma store_inv_set [inv_intros]: "store_inv st \<Longrightarrow> store_inv (store_set now now' k v ttl st)"
  unfolding store_set_def Let_def
  by (auto intro!: inv_intros store_inv_put_plain store_inv_put_schedule split: option.splits)

text \<open>Overwriting the entry of a present key in place.\<close>

definition replace_entry :: "arg \<Rightarrow> entry \<Rightarrow> entry \<Rightarrow> store \<Rightarrow> store" where
  "replace_entry k old e st =
     st\<lparr>data := od_set k e (data st), used_memory := used_memory st - esize old + esize e\<rparr>"

lemma mem_inv_replace:
  "mem_inv st \<Longrightarrow> od_get (data st) k = Some old \<Longrightarrow> esize e = cost k (val e) \<Longrightarrow>
   mem_inv (replace_entry k old e st)"
  by (auto simp: mem_inv_iff replace_entry_def total_simps lookup_simps)

lemma store_inv_replace:
  assumes "store_inv st" and "od_get (data st) k = Some old" and "esize e = cost k (val e)"
    and "expire_at e = None \<or> expire_at e = expire_at old"
  shows "store_inv (replace_entry k old e st)"
proof -
  have mem: "mem_inv (replace_entry k old e st)"
    using assms by (simp add: store_inv_def mem_inv_replace)
  have "heap_inv (replace_entry k old e st)"
    using assms heap_inv_iff [OF store_inv_wf [OF assms(1)]]
    unfolding heap_inv_iff [OF mem_inv_wf [OF mem]]
    by (auto simp: store_inv_def replace_entry_def lookup_simps split: if_splits)
  with mem show ?thesis by (simp add: store_inv_def)
qed

lemma store_inv_esize: "store_inv st \<Longrightarrow> od_get (data st) k = Some e \<Longrightarrow> esize e = cost k (val e)"
  by (simp add: store_inv_def mem_inv_iff)

lemma store_inv_to_end [inv_intros]: "store_inv st \<Longrightarrow> store_inv (st\<lparr>data := move_to_end k (data st)\<rparr>)"
  by (auto simp: store_inv_def mem_inv_iff heap_inv_iff total_simps lookup_simps)

lemma store_inv_expire [inv_intros]:
  assumes "store_inv st"
  shows "store_inv (snd (store_expire now now' k ttl st))"
proof (cases "lookup_live now k st")
  case (Pair found st1)
  show ?thesis
  proof (cases found)
    case None
    with Pair assms store_inv_lookup_live [of st now k] show ?thesis
      by (simp add: store_expire_def)
  next
    case (Some e)
    let ?t = "now' + ttl"
    let ?e = "e\<lparr>expire_at := Some ?t\<rparr>"
    from Pair Some have st1: "st1 = st" and e: "od_get (data st) k = Some e"
      by (simp_all add: lookup_live_Some)
    have st2: "st\<lparr>data := od_set k ?e (data st)\<rparr> = replace_entry k e ?e st"
      by (simp add: replace_entry_def)
    have "store_inv (schedule k ?t (replace_entry k e ?e st))"
    proof (rule store_inv_schedule)
      show "mem_inv (replace_entry k e ?e st)"
        using assms e by (auto simp: store_inv_def intro!: mem_inv_replace store_inv_esize [OF assms e, simplified])
      show "sorted (expiry_heap (replace_entry k e ?e st))"
        using assms by (simp add: store_inv_def heap_inv_def replace_entry_def)
      show "(t', k') \<in> insert (?t, k) (set (expiry_heap (replace_entry k e ?e st)))"
        if "od_get (data (replace_entry k e ?e st)) k' = Some e'" and "expire_at e' = Some t'" for k' e' t'
        using that assms heap_inv_iff [OF store_inv_wf [OF assms]]
        by (auto simp: store_inv_def replace_entry_def lookup_simps split: if_splits)
    qed
    with Pair Some st1 st2 show ?thesis by (simp add: store_expire_def Let_def)
  qed
qed

lemma store_inv_overwrite [inv_intros]:
  assumes "store_inv st" and "od_get (data st) k = Some e"
  shows "store_inv (overwrite k e v st)"
proof -
  let ?e = "e\<lparr>val := v, esize := cost k v\<rparr>"
  have "store_inv (replace_entry k e ?e (st\<lparr>data := move_to_end k (data st)\<rparr>))"
    using assms by (intro store_inv_replace inv_intros) (simp_all add: lookup_simps)
  also have "replace_entry k e ?e (st\<lparr>data := move_to_end k (data st)\<rparr>) = overwrite k e v st"
    by (simp add: replace_entry_def overwrite_def Let_def)
  finally show ?thesis .
qed

lemma store_inv_incr [inv_intros]:
  assumes "store_inv st"
  shows "store_inv (snd (store_incr now now' k delta st))"
proof (cases "lookup_live now k st")
  case (Pair found st1)
  with assms store_inv_lookup_live [of st now k] have inv1: "store_inv st1" by simp
  show ?thesis
  proof (cases found)
    case None
    with Pair inv1 show ?thesis
      by (auto simp: store_incr_def Let_def intro!: inv_intros store_inv_put_plain)
  next
    case (Some e)
    with Pair have "st1 = st" and "od_get (data st) k = Some e"
      by (simp_all add: lookup_live_Some)
    with Pair Some assms show ?thesis
      by (auto simp: store_incr_def Let_def split: sum.splits intro!: inv_intros)
  qed
qed

lemma store_inv_delete [inv_intros]: "store_inv st \<Longrightarrow> store_inv (snd (store_delete now k st))"
  by (auto simp: store_delete_def intro: inv_intros split: option.splits)

lemma store_inv_persist [inv_intros]:
  assumes "store_inv st"
  shows "store_inv (snd (store_persist now k st))"
proof (cases "lookup_live now k st")
  case (Pair found st1)
  show ?thesis
  proof (cases found)
    case (Some e)
    from Pair Some have st1: "st1 = st" and e: "od_get (data st) k = Some e"
      by (simp_all add: lookup_live_Some)
    have "store_inv (replace_entry k e (e\<lparr>expire_at := None\<rparr>) st)"
      using assms e store_inv_esize [OF assms e] by (intro store_inv_replace) simp_all
    with Pair Some st1 assms show ?thesis
      by (simp add: store_persist_def replace_entry_def)
  qed (use Pair assms store_inv_lookup_live [of st now k] in \<open>simp add: store_persist_def\<close>)
qed

lemma store_inv_get [inv_intros]: "store_inv st \<Longrightarrow> store_inv (snd (store_get now k st))"
  using store_inv_lookup_live [of st now k]
  by (auto simp: store_get_def intro: inv_intros split: prod.splits option.splits)

lemma store_inv_ttl [inv_intros]: "store_inv st \<Longrightarrow> store_inv (snd (store_ttl now now' k st))"
  using store_inv_lookup_live [of st now k]
  by (auto simp: store_ttl_def split: prod.splits option.splits)

lemma store_inv_flush [inv_intros]: "store_inv (store_flush st)"
  by (simp add: store_inv_def mem_inv_def heap_inv_def store_flush_def od_wf_def deadlines_def map_filter_def)

lemma store_inv_counters [inv_intros]:
  "store_inv st \<Longrightarrow> store_inv (st\<lparr>hits := n\<rparr>)" "store_inv st \<Longrightarrow> store_inv (st\<lparr>misses := n\<rparr>)"
  "store_inv st \<Longrightarrow> store_inv (st\<lparr>evicted := ev\<rparr>)"
  by (simp_all add: store_inv_def mem_inv_def heap_inv_def)

lemma store_inv_readers [inv_intros]:
  assumes "store_inv st"
  shows "store_inv (snd (store_keys now st))" "store_inv (snd (store_snapshot now now' st))"
    "store_inv (snd (store_len now st))" "store_inv (snd (store_exists now k st))"
    "store_inv (snd (drain_evictions st))" "store_inv (snd (sweep_expired now st))"
    "store_inv (snd (expire_at_unix wall now now' k u st))"
  using assms
  by (simp_all add: store_keys_def store_snapshot_def store_len_def store_exists_def drain_evictions_def
      expire_at_unix_def Let_def sweep_expired_facts inv_intros)

lemma store_inv_fresh [inv_intros]: "store_inv (fresh_store mm pol)"
  by (simp add: fresh_store_def store_inv_def mem_inv_def heap_inv_def od_wf_def deadlines_def map_filter_def)

lemma store_inv_init: "store_init mm pol = Inr st \<Longrightarrow> store_inv st"
  by (auto simp: store_init_def store_inv_fresh split: if_splits)

end
