(* ===== verification/Kv_Refine.thy ===== *)
theory Kv_Refine
  imports Kv_Store
begin

text \<open>
  The contract of the store. \<open>live t st\<close> is the finite map a client sees at time \<open>t\<close>; every operation
  of \<^verbatim>\<open>store.py\<close> is shown to act on it as the corresponding operation on maps, up to the keys a write
  evicts, which are recorded. The locale \<open>kv_contract\<close> states the part of this contract the command
  handlers with several keys rely on, and proves their loops correct once.
\<close>

section \<open>The abstract view\<close>

text \<open>What a client can observe at time \<open>t\<close>: for every key its value and deadline, if the entry has
  not expired.\<close>

definition live :: "seconds \<Rightarrow> store \<Rightarrow> arg \<rightharpoonup> pyobj \<times> seconds option" where
  "live t st k =
     (case od_get (data st) k of
        None \<Rightarrow> None
      | Some e \<Rightarrow> if is_expired t e then None else Some (val e, expire_at e))"

text \<open>The view of one entry.\<close>

definition view_entry :: "seconds \<Rightarrow> pyobj \<Rightarrow> seconds option \<Rightarrow> (pyobj \<times> seconds option) option" where
  "view_entry t v d = (case d of None \<Rightarrow> Some (v, d) | Some x \<Rightarrow> if x \<le> t then None else Some (v, d))"

lemma live_view:
  "live t st k = (case od_get (data st) k of None \<Rightarrow> None | Some e \<Rightarrow> view_entry t (val e) (expire_at e))"
  by (auto simp: live_def view_entry_def is_expired_def split: option.splits)

lemma is_expired_mono: "is_expired now e \<Longrightarrow> now \<le> t \<Longrightarrow> is_expired t e"
  by (auto simp: is_expired_def split: option.splits)

lemma view_entry_None [simp]: "view_entry t v None = Some (v, None)"
  by (simp add: view_entry_def)

lemma view_entry_expired: "view_entry t (val e) (expire_at e) = None \<longleftrightarrow> is_expired t e"
  by (auto simp: view_entry_def is_expired_def split: option.splits)

text \<open>Two stores with the same dictionary look the same.\<close>

lemma live_cong: "od_get (data st') = od_get (data st) \<Longrightarrow> live t st' = live t st"
  by (simp add: live_def fun_eq_iff)

lemma live_remove: "live t (store_remove k b st) = (live t st)(k := None)"
  by (auto simp: live_def store_remove_def lookup_simps fun_eq_iff split: option.splits)

lemma live_put: "live t (put k e st) = (live t st)(k := view_entry t (val e) (expire_at e))"
  by (auto simp: live_view od_get_put fun_eq_iff)

lemma live_schedule [simp]: "live t (schedule k x st) = live t st"
  by (simp add: live_def fun_eq_iff)

lemma live_fields [simp]:
  "live t (st\<lparr>writes := n\<rparr>) = live t st" "live t (st\<lparr>hits := n\<rparr>) = live t st"
  "live t (st\<lparr>misses := n\<rparr>) = live t st" "live t (st\<lparr>evicted := ev\<rparr>) = live t st"
  "live t (st\<lparr>evicted_keys := n\<rparr>) = live t st" "live t (st\<lparr>used_memory := i\<rparr>) = live t st"
  by (simp_all add: live_def fun_eq_iff)

lemma live_to_end [simp]: "live t (st\<lparr>data := move_to_end k (data st)\<rparr>) = live t st"
  by (intro live_cong) (simp add: lookup_simps)

lemma live_set_entry:
  "live t (st\<lparr>data := od_set k e (data st)\<rparr>) = (live t st)(k := view_entry t (val e) (expire_at e))"
  by (auto simp: live_view lookup_simps fun_eq_iff)

lemma live_upd_same: "live t st k = None \<Longrightarrow> (live t st)(k := None) = live t st"
  by auto

lemma live_lookup_live:
  "now \<le> t \<Longrightarrow> live t (snd (lookup_live now k st)) = live t st"
  by (auto simp: lookup_live_def live_remove live_def is_expired_mono intro!: live_upd_same [unfolded live_def]
      split: option.splits)

lemma fst_lookup_live:
  "live now st k = map_option (\<lambda>e. (val e, expire_at e)) (fst (lookup_live now k st))"
  by (auto simp: lookup_live_def live_def split: option.splits)

lemma od_get_live_entries:
  "od_wf d \<Longrightarrow> od_get (live_entries now d) k =
     (case od_get d k of None \<Rightarrow> None | Some e \<Rightarrow> if is_expired now e then None else Some e)"
  by (auto simp: od_get_def od_wf_def map_of_filter_distinct split: option.splits)

lemma live_sweep:
  assumes "store_inv st" and "now \<le> t"
  shows "live t (snd (sweep_expired now st)) = live t st"
  using assms
  by (auto simp: live_def sweep_expired_facts od_get_live_entries store_inv_wf is_expired_mono fun_eq_iff
      split: option.splits)

lemma od_get_drop:
  "od_wf d \<Longrightarrow> od_get (drop n d) k = (if k \<in> set (map fst (take n d)) then None else od_get d k)"
proof -
  assume "od_wf d"
  then have "distinct (map fst (take n d @ drop n d))" by (simp add: od_wf_def)
  then have disj: "set (map fst (take n d)) \<inter> set (map fst (drop n d)) = {}"
    by (simp only: map_append distinct_append)
  have "map_of d k = map_of (take n d @ drop n d) k" by simp
  also have "\<dots> = (case map_of (take n d) k of None \<Rightarrow> map_of (drop n d) k | Some v \<Rightarrow> Some v)"
    by (simp only: map_of_append map_add_def)
  finally show ?thesis
    using disj map_of_eq_None_iff [of "take n d" k] map_of_eq_None_iff [of "drop n d" k]
    by (auto simp: od_get_def)
qed

text \<open>Eviction: what is cut, and what it leaves.\<close>

definition evict_base :: "seconds \<Rightarrow> store \<Rightarrow> (arg, entry) odict" where
  "evict_base now st =
     (if policy st \<noteq> ''allkeys-lru'' \<or> \<not> over_limit st then data st else live_entries now (data st))"

definition evict_count :: "seconds \<Rightarrow> store \<Rightarrow> nat" where
  "evict_count now st =
     (if policy st \<noteq> ''allkeys-lru'' \<or> \<not> over_limit st then 0
      else lru_cut (maxmemory st) (live_entries now (data st)))"

lemma evict_facts:
  assumes "store_inv st"
  shows "data (evict now st) = drop (evict_count now st) (evict_base now st)"
    and "evicted (evict now st) = evicted st @ map fst (take (evict_count now st) (evict_base now st))"
    and "evicted_keys (evict now st) = evicted_keys st + evict_count now st"
    and "same_config st (evict now st)"
proof -
  let ?s = "snd (sweep_expired now st)"
  note f = sweep_expired_facts [OF assms, of now]
  have mem: "mem_inv ?s" using f(1) by (simp add: store_inv_def)
  have cfg: "maxmemory ?s = maxmemory st" using f(3) by (simp add: same_config_def)
  show "data (evict now st) = drop (evict_count now st) (evict_base now st)"
    and "evicted (evict now st) = evicted st @ map fst (take (evict_count now st) (evict_base now st))"
    and "evicted_keys (evict now st) = evicted_keys st + evict_count now st"
    by (simp_all add: evict_def evict_count_def evict_base_def evict_loop_spec [OF mem] Let_def f cfg)
  show "same_config st (evict now st)"
    using f(3) by (simp add: evict_def evict_loop_spec [OF mem] Let_def same_config_def)
qed

lemma evict_count_less: "evict_base now st \<noteq> [] \<Longrightarrow> evict_count now st < length (evict_base now st)"
  by (auto simp: evict_count_def evict_base_def intro: lru_cut_less)

lemma od_get_evict_base:
  "store_inv st \<Longrightarrow> now \<le> t \<Longrightarrow>
   live t st k = (case od_get (evict_base now st) k of None \<Rightarrow> None
                  | Some e \<Rightarrow> if is_expired t e then None else Some (val e, expire_at e))"
  by (auto simp: evict_base_def live_def od_get_live_entries store_inv_wf is_expired_mono split: option.splits)

lemma evict_base_wf: "store_inv st \<Longrightarrow> od_wf (evict_base now st)"
  by (auto simp: evict_base_def store_inv_wf) (simp add: od_wf_def filter_distinct_keys store_inv_wf [unfolded od_wf_def])

lemma live_evict:
  assumes "store_inv st" and "now \<le> t"
  shows "live t (evict now st) = live t st |` (- set (drop (length (evicted st)) (evicted (evict now st))))"
proof
  fix k
  show "live t (evict now st) k = (live t st |` (- set (drop (length (evicted st)) (evicted (evict now st))))) k"
    using od_get_evict_base [OF assms, of k] od_get_drop [OF evict_base_wf [OF assms(1), of now]]
    by (simp add: live_def [of t "evict now st"] evict_facts [OF assms(1)] restrict_map_def)
qed


section \<open>The operations refine the abstract map\<close>

text \<open>Storing a key never evicts that key: it is the most recent one.\<close>

lemma put_last: "od_wf (data st) \<Longrightarrow> \<exists>d. data (put k e st) = d @ [(k, e\<lparr>esize := cost k (val e)\<rparr>)]"
  using od.lookup_assign [of k "e\<lparr>esize := cost k (val e)\<rparr>" "data st"]
  by (auto simp: put_def Let_def move_to_end_def od_get_def fun_upd_def dest!: fun_cong [of _ _ k]
      split: option.splits)

lemma last_not_evicted:
  assumes "store_inv st" and "data st = d @ [(k, e)]"
  shows "k \<notin> set (map fst (take (evict_count now st) (evict_base now st)))"
proof
  let ?b = "evict_base now st" and ?n = "evict_count now st"
  assume k: "k \<in> set (map fst (take ?n ?b))"
  have wf: "od_wf ?b" by (rule evict_base_wf [OF assms(1)])
  from k have "?b \<noteq> []" by auto
  then have "?n < length ?b" by (rule evict_count_less)
  then have "take ?n ?b = take ?n (butlast ?b)" by (simp add: take_butlast)
  with k have "k \<in> set (map fst (butlast ?b))"
    by (auto dest: in_set_takeD)
  moreover from k have "k \<in> set (map fst ?b)" by (auto dest: in_set_takeD)
  then have "last ?b = (k, e)"
    using assms store_inv_wf [OF assms(1)]
    by (auto simp: evict_base_def od_wf_def split: if_splits)
  ultimately have "\<not> distinct (map fst (butlast ?b @ [last ?b]))"
    by simp
  with wf \<open>?b \<noteq> []\<close> show False by (simp add: od_wf_def)
qed

text \<open>A store whose last entry is the one just written, then evicted: the rest of every write.\<close>

lemma evict_after_write:
  assumes "store_inv s" and "now \<le> t" and "data s = d @ [(k, e)]" and "evicted s = evicted st"
    and "E = drop (length (evicted st)) (evicted (evict now s))"
  shows "evicted (evict now s) = evicted st @ E \<and> k \<notin> set E \<and>
     live t (evict now s) = live t s |` (- set E)"
  using assms live_evict [OF assms(1,2)] last_not_evicted [OF assms(1,3), of now]
    evict_facts(2) [OF assms(1), of now] by simp

lemma store_set_refines:
  assumes inv: "store_inv st" and t: "now' \<le> t"
    and st': "st' = store_set now now' k v ttl st"
    and ev: "E = drop (length (evicted st)) (evicted st')"
  shows "evicted st' = evicted st @ E \<and> k \<notin> set E \<and>
     live t st' = ((live t st)(k := view_entry t v (map_option (\<lambda>x. now + x) ttl))) |` (- set E)"
proof -
  let ?e = "\<lparr>val = v, expire_at = map_option (\<lambda>x. now + x) ttl, esize = 0\<rparr>"
  define s2 where "s2 = put k ?e (st\<lparr>writes := Suc (writes st)\<rparr>)"
  define s3 where "s3 = (case map_option (\<lambda>x. now + x) ttl of None \<Rightarrow> s2 | Some x \<Rightarrow> schedule k x s2)"
  have st3: "st' = evict now' s3"
    unfolding st' s3_def s2_def store_set_def Let_def by (rule refl)
  have inv3: "store_inv s3"
    unfolding s3_def s2_def using inv
    by (auto intro!: inv_intros store_inv_put_plain store_inv_put_schedule split: option.splits)
  have data3: "data s3 = data s2"
    by (simp add: s3_def split: option.splits)
  obtain d where "data s2 = d @ [(k, ?e\<lparr>esize := cost k (val ?e)\<rparr>)]"
    unfolding s2_def using put_last [of "st\<lparr>writes := Suc (writes st)\<rparr>" k ?e] store_inv_wf [OF inv] by auto
  then have last: "data s3 = d @ [(k, ?e\<lparr>esize := cost k (val ?e)\<rparr>)]" by (simp add: data3)
  have evs: "evicted s3 = evicted st"
    by (simp add: s3_def s2_def put_def schedule_def Let_def split: option.splits)
  have "live t s3 = (live t st)(k := view_entry t v (map_option (\<lambda>x. now + x) ttl))"
    by (simp add: s3_def s2_def live_put split: option.splits)
  with evict_after_write [OF inv3 t last evs ev [unfolded st3]] st3 show ?thesis by simp
qed

lemma store_get_refines:
  "now \<le> t \<Longrightarrow> live t (snd (store_get now k st)) = live t st"
  "fst (store_get now k st) = (case live now st k of None \<Rightarrow> PyNone | Some (v, _) \<Rightarrow> v)"
  using live_lookup_live [of now t k st] fst_lookup_live [of now st k]
  by (auto simp: store_get_def split: prod.splits option.splits)

lemma store_delete_refines:
  "live t (snd (store_delete now k st)) = (live t st)(k := None)"
  "fst (store_delete now k st) \<longleftrightarrow> live now st k \<noteq> None"
proof -
  have "od_get (data st) k = None \<Longrightarrow> live t st k = None" by (simp add: live_def)
  then show "live t (snd (store_delete now k st)) = (live t st)(k := None)"
    by (auto simp: store_delete_def live_remove live_upd_same split: option.splits)
  show "fst (store_delete now k st) \<longleftrightarrow> live now st k \<noteq> None"
    by (auto simp: store_delete_def live_def split: option.splits)
qed

lemma store_expire_refines:
  assumes "now \<le> t"
  shows "fst (store_expire now now' k ttl st) \<longleftrightarrow> live now st k \<noteq> None"
    and "live t (snd (store_expire now now' k ttl st)) =
      (case live now st k of
         None \<Rightarrow> live t st
       | Some (v, _) \<Rightarrow> (live t st)(k := view_entry t v (Some (now' + ttl))))"
  using live_lookup_live [OF assms, of k st] fst_lookup_live [of now st k]
  by (auto simp: store_expire_def Let_def live_set_entry split: prod.splits option.splits)

lemma store_persist_refines:
  assumes "now \<le> t"
  shows "fst (store_persist now k st) \<longleftrightarrow> (\<exists>v d. live now st k = Some (v, Some d))"
    and "live t (snd (store_persist now k st)) =
      (case live now st k of
         Some (v, Some _) \<Rightarrow> (live t st)(k \<mapsto> (v, None))
       | _ \<Rightarrow> live t st)"
  using live_lookup_live [OF assms, of k st] fst_lookup_live [of now st k]
  by (auto simp: store_persist_def live_set_entry split: prod.splits option.splits)

lemma store_flush_refines: "live t (store_flush st) = Map.empty"
  by (simp add: live_def store_flush_def od_get_def fun_eq_iff)

lemma store_ttl_refines:
  "now \<le> t \<Longrightarrow> live t (snd (store_ttl now now' k st)) = live t st"
  "fst (store_ttl now now' k st) =
     (case live now st k of None \<Rightarrow> None | Some (_, None) \<Rightarrow> Some (-1) | Some (_, Some d) \<Rightarrow> Some (max 0 (d - now')))"
  using live_lookup_live [of now t k st] fst_lookup_live [of now st k]
  by (auto simp: store_ttl_def split: prod.splits option.splits)

lemma dom_live:
  assumes "od_wf (data st)"
  shows "dom (live now st) = set (map fst (live_entries now (data st)))"
proof -
  have "live now st k \<noteq> None \<longleftrightarrow> k \<in> set (map fst (live_entries now (data st)))" for k
    using od.lookup_keys [of "live_entries now (data st)" k] od_get_live_entries [OF assms, of now k]
    by (auto simp: live_def od_keys_def split: option.splits if_splits)
  then show ?thesis by (simp add: dom_def set_eq_iff)
qed

lemma store_keys_refines:
  assumes "store_inv st"
  shows "now \<le> t \<Longrightarrow> live t (snd (store_keys now st)) = live t st"
    and "distinct (fst (store_keys now st)) \<and> set (fst (store_keys now st)) = dom (live now st)"
    and "fst (store_len now st) = card (dom (live now st))"
proof -
  let ?d = "live_entries now (data st)"
  have dist: "distinct (map fst ?d)"
    using store_inv_wf [OF assms] by (simp add: od_wf_def filter_distinct_keys)
  show "now \<le> t \<Longrightarrow> live t (snd (store_keys now st)) = live t st"
    using assms by (simp add: store_keys_def Let_def live_sweep)
  show "distinct (fst (store_keys now st)) \<and> set (fst (store_keys now st)) = dom (live now st)"
    using dist dom_live [OF store_inv_wf [OF assms]]
    by (simp add: store_keys_def Let_def sweep_expired_facts [OF assms] od_keys_def)
  show "fst (store_len now st) = card (dom (live now st))"
    using distinct_card [OF dist] dom_live [OF store_inv_wf [OF assms]]
    by (simp add: store_len_def Let_def sweep_expired_facts [OF assms])
qed


section \<open>Counters\<close>

text \<open>The number a counter operation starts from, and the object it stores.\<close>

definition counter_base :: "seconds \<Rightarrow> arg \<Rightarrow> store \<Rightarrow> string + int" where
  "counter_base now k st = (case live now st k of None \<Rightarrow> Inr 0 | Some (v, _) \<Rightarrow> stored_int v)"

definition counter_obj :: "pyobj \<Rightarrow> int \<Rightarrow> pyobj" where
  "counter_obj sample n =
     (if is_bytes sample then PyArg (Bytes (str_int n)) else PyArg (Str (ascii_str (str_int n))))"

lemma stored_int_counter_obj:
  assumes "INT64_MIN \<le> n" and "n \<le> INT64_MAX"
  shows "stored_int (counter_obj sample n) = Inr n"
proof -
  have "stored_text (counter_obj sample n) = Some (ascii_str (str_int n))"
    using ascii_decode_ascii [OF is_ascii_str_int [of n]] by (simp add: counter_obj_def stored_text_def)
  moreover have "py_int_str (ascii_str (str_int n)) = Inr n"
    using assms by (intro py_int_str_str_int int64_digits) (simp_all add: INT64_MIN_def INT64_MAX_def)
  ultimately show ?thesis
    using assms INT_RE_str_int [of n] by (simp add: stored_int_def)
qed

lemma overwrite_facts:
  assumes "od_get (data st) k = Some e0"
  shows "\<exists>d. data (overwrite k e v st) = d @ [(k, e\<lparr>val := v, esize := cost k v\<rparr>)]"
    and "live t (overwrite k e v st) = (live t st)(k := view_entry t v (expire_at e))"
    and "evicted (overwrite k e v st) = evicted st"
proof -
  have "AList.update k x (d @ [(k, y)]) = d @ [(k, x)]" if "k \<notin> fst ` set d" for x y and d :: "(arg, entry) odict"
    using that by (induction d) auto
  moreover have "k \<notin> fst ` set (AList.delete k (data st))"
    using arg_cong [OF keys_delete [of k "data st"], of set] by auto
  ultimately show "\<exists>d. data (overwrite k e v st) = d @ [(k, e\<lparr>val := v, esize := cost k v\<rparr>)]"
    using assms by (simp add: overwrite_def od_set_def move_to_end_def od_get_def Let_def)
  show "live t (overwrite k e v st) = (live t st)(k := view_entry t v (expire_at e))"
    by (simp add: overwrite_def Let_def live_view lookup_simps fun_eq_iff)
qed (simp add: overwrite_def Let_def)

lemma store_incr_error:
  assumes "now \<le> t"
    and "counter_base now k st = Inl msg \<or>
         (\<exists>n. counter_base now k st = Inr n \<and> \<not> (INT64_MIN \<le> n + delta \<and> n + delta \<le> INT64_MAX))"
  shows "isl (fst (store_incr now now' k delta st)) \<and>
         live t (snd (store_incr now now' k delta st)) = live t st"
  using assms(2) live_lookup_live [OF assms(1), of k st] fst_lookup_live [of now st k]
  by (auto simp: store_incr_def counter_base_def Let_def split: prod.splits option.splits)

lemma store_incr_refines:
  assumes inv: "store_inv st" and t: "now \<le> t" "now' \<le> t"
    and base: "counter_base now k st = Inr n"
    and range: "INT64_MIN \<le> n + delta" "n + delta \<le> INT64_MAX"
    and st': "st' = snd (store_incr now now' k delta st)"
    and ev: "E = drop (length (evicted st)) (evicted st')"
  shows "fst (store_incr now now' k delta st) = Inr (n + delta) \<and>
     evicted st' = evicted st @ E \<and> k \<notin> set E \<and>
     live t st' = ((live t st)(k := (case live now st k of
          None \<Rightarrow> Some (counter_obj (PyArg k) (n + delta), None)
        | Some (v, d) \<Rightarrow> view_entry t (counter_obj v (n + delta)) d))) |` (- set E)"
proof (cases "lookup_live now k st")
  case (Pair found st1)
  let ?w = "st1\<lparr>writes := Suc (writes st1)\<rparr>"
  have inv1: "store_inv ?w" and live1: "live t ?w = live t st" and ev1: "evicted ?w = evicted st"
    using store_inv_lookup_live [OF inv, of now k] live_lookup_live [OF t(1), of k st] Pair
    by (auto simp: inv_intros lookup_live_def split: option.splits if_splits)
  note found = fst_lookup_live [of now st k]
  show ?thesis
  proof (cases found)
    case None
    let ?e = "\<lparr>val = counter_obj (PyArg k) (n + delta), expire_at = None, esize = 0\<rparr>"
    have run: "store_incr now now' k delta st = (Inr (n + delta), evict now' (put k ?e ?w))"
      using base range Pair None found
      by (simp add: store_incr_def counter_base_def counter_obj_def Let_def)
    have "store_inv (put k ?e ?w)"
      using inv1 by (rule store_inv_put_plain) simp
    moreover have "evicted (put k ?e ?w) = evicted st"
      using ev1 by (simp add: put_def Let_def)
    moreover obtain d where "data (put k ?e ?w) = d @ [(k, ?e\<lparr>esize := cost k (val ?e)\<rparr>)]"
      using put_last [OF store_inv_wf [OF inv1], of k ?e] by auto
    ultimately show ?thesis
      using evict_after_write [of "put k ?e ?w" now' t d k _ st E] t run st' ev live1 Pair None found
      by (simp add: live_put)
  next
    case (Some e)
    let ?v = "counter_obj (val e) (n + delta)"
    have e: "od_get (data ?w) k = Some e" and st1: "st1 = st"
      using Pair Some by (simp_all add: lookup_live_Some)
    have run: "store_incr now now' k delta st = (Inr (n + delta), evict now' (overwrite k e ?v ?w))"
      using base range Pair Some found
      by (simp add: store_incr_def counter_base_def counter_obj_def Let_def)
    obtain d where "data (overwrite k e ?v ?w) = d @ [(k, e\<lparr>val := ?v, esize := cost k ?v\<rparr>)]"
      using overwrite_facts(1) [OF e] by blast
    with evict_after_write [OF store_inv_overwrite [OF inv1 e] t(2) this, of st E]
    show ?thesis
      using run st' ev ev1 live1 Pair Some found overwrite_facts(2,3) [OF e] by simp
  qed
qed


section \<open>Loops over keys\<close>

text \<open>\<^verbatim>\<open>sum(1 for key in keys if f(key))\<close> and \<^verbatim>\<open>[f(key) for key in keys]\<close> for an \<^verbatim>\<open>f\<close> that changes the
  store.\<close>

fun count_loop :: "('k \<Rightarrow> 's \<Rightarrow> bool \<times> 's) \<Rightarrow> 'k list \<Rightarrow> 's \<Rightarrow> int \<times> 's" where
  "count_loop f [] s = (0, s)"
| "count_loop f (k # ks) s =
     (case f k s of (b, s1) \<Rightarrow> case count_loop f ks s1 of (n, s2) \<Rightarrow> (if b then n + 1 else n, s2))"

fun map_loop :: "('k \<Rightarrow> 's \<Rightarrow> 'v \<times> 's) \<Rightarrow> 'k list \<Rightarrow> 's \<Rightarrow> 'v list \<times> 's" where
  "map_loop f [] s = ([], s)"
| "map_loop f (k # ks) s =
     (case f k s of (v, s1) \<Rightarrow> case map_loop f ks s1 of (vs, s2) \<Rightarrow> (v # vs, s2))"

lemma map_loop_Cons [simp]:
  "fst (map_loop f (k # ks) s) = fst (f k s) # fst (map_loop f ks (snd (f k s)))"
  "snd (map_loop f (k # ks) s) = snd (map_loop f ks (snd (f k s)))"
  by (simp_all split: prod.splits)

lemma count_loop_Cons [simp]:
  "fst (count_loop f (k # ks) s) =
     (if fst (f k s) then 1 else 0) + fst (count_loop f ks (snd (f k s)))"
  "snd (count_loop f (k # ks) s) = snd (count_loop f ks (snd (f k s)))"
  by (simp_all split: prod.splits)

lemma map_loop_inv:
  assumes "\<And>k s. I s \<Longrightarrow> I (snd (f k s))"
  shows "I s \<Longrightarrow> I (snd (map_loop f ks s))"
  by (induction ks arbitrary: s) (simp_all add: assms del: map_loop.simps(2))

lemma count_loop_inv:
  assumes "\<And>k s. I s \<Longrightarrow> I (snd (f k s))"
  shows "I s \<Longrightarrow> I (snd (count_loop f ks s))"
  by (induction ks arbitrary: s) (simp_all add: assms del: count_loop.simps(2))

declare map_loop.simps(2) [simp del] count_loop.simps(2) [simp del]

text \<open>The contract between a store and the handlers that visit several keys.\<close>

locale kv_contract =
  fixes view :: "'s \<Rightarrow> 'k \<rightharpoonup> 'v"
    and ok :: "'s \<Rightarrow> bool"
    and fetch :: "'k \<Rightarrow> 's \<Rightarrow> 'r \<times> 's"
    and drop_key :: "'k \<Rightarrow> 's \<Rightarrow> bool \<times> 's"
    and render :: "'v option \<Rightarrow> 'r"
  assumes view_fetch: "ok s \<Longrightarrow> view (snd (fetch k s)) = view s"
    and fetch_value: "ok s \<Longrightarrow> fst (fetch k s) = render (view s k)"
    and ok_fetch: "ok s \<Longrightarrow> ok (snd (fetch k s))"
    and view_drop: "ok s \<Longrightarrow> view (snd (drop_key k s)) = (view s)(k := None)"
    and drop_result: "ok s \<Longrightarrow> fst (drop_key k s) \<longleftrightarrow> view s k \<noteq> None"
    and ok_drop: "ok s \<Longrightarrow> ok (snd (drop_key k s))"
begin

text \<open>Reading many keys returns their values in order and changes nothing.\<close>

lemma fetch_many:
  "ok s \<Longrightarrow> fst (map_loop fetch ks s) = map (\<lambda>k. render (view s k)) ks \<and>
   view (snd (map_loop fetch ks s)) = view s \<and> ok (snd (map_loop fetch ks s))"
  by (induction ks arbitrary: s) (simp_all add: view_fetch fetch_value ok_fetch)

text \<open>Dropping many keys counts every present key once, however often it is named.\<close>

lemma drop_many:
  "ok s \<Longrightarrow> fst (count_loop drop_key ks s) = int (card (set ks \<inter> dom (view s))) \<and>
   view (snd (count_loop drop_key ks s)) = view s |` (- set ks) \<and> ok (snd (count_loop drop_key ks s))"
proof (induction ks arbitrary: s)
  case Nil
  then show ?case by (simp add: restrict_map_def)
next
  case (Cons k ks)
  obtain b s1 where f: "drop_key k s = (b, s1)" by (cases "drop_key k s")
  with Cons.prems have s1: "ok s1" "view s1 = (view s)(k := None)" "b \<longleftrightarrow> k \<in> dom (view s)"
    using ok_drop [of s k] view_drop [of s k] drop_result [of s k] by auto
  have "set (k # ks) \<inter> dom (view s) = (if b then {k} else {}) \<union> (set ks \<inter> dom (view s1))"
    using s1 by auto
  moreover have "k \<notin> set ks \<inter> dom (view s1)" using s1 by simp
  ultimately have "card (set (k # ks) \<inter> dom (view s)) = (if b then 1 else 0) + card (set ks \<inter> dom (view s1))"
    by simp
  moreover have "view s1 |` (- set ks) = view s |` (- set (k # ks))"
    using s1 by (auto simp: restrict_map_def fun_eq_iff)
  ultimately show ?case
    using Cons.IH [OF s1(1)] f by simp
qed

end

text \<open>The reply to a read: the value, or None.\<close>

definition reply_of :: "(pyobj \<times> seconds option) option \<Rightarrow> pyobj" where
  "reply_of x = (case x of None \<Rightarrow> PyNone | Some (v, _) \<Rightarrow> v)"

interpretation kv: kv_contract "live now" store_inv "store_get now" "store_delete now" reply_of for now
proof
  fix s :: store and k :: arg
  assume "store_inv s"
  show "live now (snd (store_get now k s)) = live now s"
    by (simp add: store_get_refines)
  show "fst (store_get now k s) = reply_of (live now s k)"
    by (simp add: store_get_refines reply_of_def)
  show "live now (snd (store_delete now k s)) = (live now s)(k := None)"
    "fst (store_delete now k s) \<longleftrightarrow> live now s k \<noteq> None"
    by (rule store_delete_refines)+
qed (simp_all add: inv_intros)

section \<open>Reachable stores\<close>

text \<open>One step is one call of a method, at any readings of the clock, or one of the two counters the
  command handlers increment themselves.\<close>

inductive store_step :: "store \<Rightarrow> store \<Rightarrow> bool" where
  step_set: "store_step st (store_set now now' k v ttl st)"
| step_incr: "store_step st (snd (store_incr now now' k delta st))"
| step_delete: "store_step st (snd (store_delete now k st))"
| step_expire: "store_step st (snd (store_expire now now' k ttl st))"
| step_expire_at_unix: "store_step st (snd (expire_at_unix wall now now' k u st))"
| step_persist: "store_step st (snd (store_persist now k st))"
| step_flush: "store_step st (store_flush st)"
| step_get: "store_step st (snd (store_get now k st))"
| step_exists: "store_step st (snd (store_exists now k st))"
| step_ttl: "store_step st (snd (store_ttl now now' k st))"
| step_keys: "store_step st (snd (store_keys now st))"
| step_snapshot: "store_step st (snd (store_snapshot now now' st))"
| step_len: "store_step st (snd (store_len now st))"
| step_sweep: "store_step st (snd (sweep_expired now st))"
| step_drain: "store_step st (snd (drain_evictions st))"
| step_hit: "store_step st (st\<lparr>hits := Suc (hits st)\<rparr>)"
| step_miss: "store_step st (st\<lparr>misses := Suc (misses st)\<rparr>)"

inductive store_reachable :: "store \<Rightarrow> bool" where
  reach_init: "store_init mm pol = Inr st \<Longrightarrow> store_reachable st"
| reach_step: "store_reachable st \<Longrightarrow> store_step st st' \<Longrightarrow> store_reachable st'"

definition within_limit :: "store \<Rightarrow> bool" where
  "within_limit st \<longleftrightarrow>
     (policy st = ''allkeys-lru'' \<and> 0 < maxmemory st \<longrightarrow> used_memory st \<le> maxmemory st \<or> length (data st) \<le> 1)"

lemma within_limit_evict:
  assumes "store_inv st"
  shows "within_limit (evict now st)"
proof (cases "policy st \<noteq> ''allkeys-lru'' \<or> \<not> over_limit st")
  case True
  then show ?thesis by (auto simp: evict_def within_limit_def over_limit_def)
next
  case False
  let ?d = "live_entries now (data st)"
  have "used_memory (evict now st) = total_size (data (evict now st))"
    using store_inv_evict [OF assms] by (simp add: store_inv_def mem_inv_def)
  moreover have "data (evict now st) = drop (lru_cut (maxmemory st) ?d) ?d"
    using evict_facts(1) [OF assms, of now] False by (simp add: evict_count_def evict_base_def)
  moreover have "maxmemory (evict now st) = maxmemory st"
    using evict_facts(4) [OF assms] by (simp add: same_config_def)
  ultimately show ?thesis
    using lru_cut_fits [of "maxmemory st" ?d] by (auto simp: within_limit_def)
qed

text \<open>Steps that do not write never grow the store.\<close>

definition shrinks :: "store \<Rightarrow> store \<Rightarrow> bool" where
  "shrinks st st' \<longleftrightarrow> used_memory st' \<le> used_memory st \<and> length (data st') \<le> length (data st) \<and>
     maxmemory st' = maxmemory st \<and> policy st' = policy st"

lemma within_limit_shrinks: "within_limit st \<Longrightarrow> shrinks st st' \<Longrightarrow> within_limit st'"
  by (auto simp: within_limit_def shrinks_def)

lemma shrinks_refl [simp]: "shrinks st st"
  by (simp add: shrinks_def)

lemma size_of_nonneg: "0 \<le> size_of v"
  by (simp add: size_of_def split: pyobj.splits arg.splits)

lemma cost_ge: "ENTRY_OVERHEAD \<le> cost k v"
  using size_of_nonneg [of v] size_of_nonneg [of "PyArg k"] by (simp add: cost_def)

lemma shrinks_remove: "store_inv st \<Longrightarrow> shrinks st (store_remove k b st)"
  using cost_ge [of k] length_pop [OF store_inv_wf, of st k]
  by (auto simp: shrinks_def store_remove_def store_inv_esize ENTRY_OVERHEAD_def split: option.splits
      dest!: length_pop [OF store_inv_wf])
    (metis cost_ge ENTRY_OVERHEAD_def order_trans zero_le_numeral)

lemma shrinks_lookup_live: "store_inv st \<Longrightarrow> lookup_live now k st = (found, st1) \<Longrightarrow> shrinks st st1"
  by (auto simp: lookup_live_def shrinks_remove split: option.splits if_splits)

lemma total_nonneg: "list_all (\<lambda>(k, e). esize e = cost k (val e)) d \<Longrightarrow> 0 \<le> total_size d"
proof (induction d)
  case (Cons p d)
  then show ?case
    using cost_ge [of "fst p" "val (snd p)"] by (auto simp: total_size_def ENTRY_OVERHEAD_def split: prod.splits)
qed (simp add: total_size_def)

lemma total_filter: "list_all (\<lambda>(k, e). esize e = cost k (val e)) d \<Longrightarrow> total_size (filter P d) \<le> total_size d"
proof (induction d)
  case (Cons p d)
  then show ?case
    using cost_ge [of "fst p" "val (snd p)"] by (auto simp: total_size_def ENTRY_OVERHEAD_def split: prod.splits)
qed (simp add: total_size_def)

lemma shrinks_sweep:
  assumes "store_inv st"
  shows "shrinks st (snd (sweep_expired now st))"
proof -
  note f = sweep_expired_facts [OF assms, of now]
  have "used_memory (snd (sweep_expired now st)) = total_size (live_entries now (data st))"
    using f(1,2) by (simp add: store_inv_def mem_inv_def)
  with assms total_filter [of "data st"] f(2,3) show ?thesis
    by (simp add: shrinks_def same_config_def store_inv_def mem_inv_def)
qed

lemma length_od_set: "od_get d k = Some e \<Longrightarrow> length (od_set k e' d) = length d"
  by (induction d) (auto simp: od_get_def od_set_def)

lemma length_to_end: "od_wf d \<Longrightarrow> length (move_to_end k d) = length d"
  by (auto simp: move_to_end_def od_wf_def length_delete_Some split: option.splits)

lemma shrinks_schedule: "shrinks st (schedule k t st')" if "shrinks st st'"
  using that by (simp add: shrinks_def schedule_def Let_def)

lemma shrinks_ops:
  assumes "store_inv st"
  shows "shrinks st (snd (store_delete now k st))" "shrinks st (snd (store_expire now now' k ttl st))"
    "shrinks st (snd (store_persist now k st))" "shrinks st (snd (store_get now k st))"
    "shrinks st (snd (store_ttl now now' k st))"
proof -
  note wf = store_inv_wf [OF assms]
  show "shrinks st (snd (store_delete now k st))"
    using assms by (auto simp: store_delete_def shrinks_remove split: option.splits)
  show "shrinks st (snd (store_expire now now' k ttl st))"
    using shrinks_lookup_live [OF assms, of now k]
    by (auto simp: store_expire_def Let_def lookup_live_Some length_od_set split: prod.splits option.splits
        intro!: shrinks_schedule) (simp add: shrinks_def length_od_set)
  show "shrinks st (snd (store_persist now k st))"
    using shrinks_lookup_live [OF assms, of now k]
    by (auto simp: store_persist_def lookup_live_Some split: prod.splits option.splits)
      (simp add: shrinks_def length_od_set)
  show "shrinks st (snd (store_get now k st))"
    using shrinks_lookup_live [OF assms, of now k] wf
    by (auto simp: store_get_def lookup_live_Some split: prod.splits option.splits)
      (simp add: shrinks_def length_to_end)
  show "shrinks st (snd (store_ttl now now' k st))"
    using shrinks_lookup_live [OF assms, of now k]
    by (auto simp: store_ttl_def split: prod.splits option.splits)
qed

lemma shrinks_readers:
  assumes "store_inv st"
  shows "shrinks st (snd (store_keys now st))" "shrinks st (snd (store_snapshot now now' st))"
    "shrinks st (snd (store_len now st))" "shrinks st (snd (store_exists now k st))"
    "shrinks st (snd (drain_evictions st))" "shrinks st (store_flush st)"
  using assms shrinks_ops(4) [OF assms, of now k] total_nonneg [of "data st"]
  by (simp_all add: store_keys_def store_snapshot_def store_len_def store_exists_def drain_evictions_def
      Let_def shrinks_sweep)
    (auto simp: shrinks_def store_flush_def store_inv_def mem_inv_def)

lemma within_limit_set:
  assumes "store_inv st"
  shows "within_limit (store_set now now' k v ttl st)"
  unfolding store_set_def Let_def using assms
  by (auto intro!: within_limit_evict inv_intros store_inv_put_plain store_inv_put_schedule split: option.splits)

lemma within_limit_incr:
  assumes "store_inv st" and "within_limit st"
  shows "within_limit (snd (store_incr now now' k delta st))"
proof (cases "lookup_live now k st")
  case (Pair found st1)
  with assms shrinks_lookup_live [OF assms(1)] within_limit_shrinks
  have lim: "within_limit st1" by blast
  have inv1: "store_inv (st1\<lparr>writes := n\<rparr>)" for n
    using store_inv_lookup_live [OF assms(1), of now k] Pair by (simp add: inv_intros)
  have e: "od_get (data st1) k = Some e" if "found = Some e" for e
    using that Pair by (auto simp: lookup_live_Some)
  from lim inv1 e Pair show ?thesis
    by (auto simp: store_incr_def Let_def split: sum.splits option.splits
        intro!: within_limit_evict store_inv_put_plain store_inv_overwrite)
qed

lemma within_limit_counters [simp]:
  "within_limit (st\<lparr>hits := n\<rparr>) = within_limit st" "within_limit (st\<lparr>misses := n\<rparr>) = within_limit st"
  by (simp_all add: within_limit_def)

lemma store_step_inv:
  "store_step st st' \<Longrightarrow> store_inv st \<and> within_limit st \<Longrightarrow> store_inv st' \<and> within_limit st'"
proof (induction rule: store_step.induct)
  case (step_expire_at_unix st wall now now' k u)
  then show ?case
    using within_limit_shrinks shrinks_ops(2) by (simp add: expire_at_unix_def inv_intros) blast
qed (use within_limit_shrinks shrinks_ops shrinks_readers shrinks_sweep within_limit_set within_limit_incr
      in \<open>auto intro: inv_intros\<close>)

lemma store_reachable_inv: "store_reachable st \<Longrightarrow> store_inv st \<and> within_limit st"
proof (induction rule: store_reachable.induct)
  case (reach_init mm pol st)
  then have "data st = []" by (auto simp: store_init_def fresh_store_def split: if_splits)
  with reach_init store_inv_init show ?case by (simp add: within_limit_def)
next
  case (reach_step st st')
  then show ?case using store_step_inv by blast
qed

end
