(* ===== verification/Glob_Match.thy ===== *)
theory Glob_Match
  imports Py_Text
begin

text \<open>
  The pattern language of \<^verbatim>\<open>KEYS\<close>: Python's \<^verbatim>\<open>fnmatch.fnmatchcase\<close>, on lists of code points (of
  byte values, for bytes). A pattern is first translated, as \<^verbatim>\<open>fnmatch.translate\<close> does, and then
  matched against the whole name.
\<close>

datatype class_item = One nat | Range nat nat

datatype glob_token = Star | AnyOne | Lit nat | Class bool "class_item list"

text \<open>The members of a bracket expression; a range from high to low is dropped.\<close>

fun class_items :: "nat list \<Rightarrow> class_item list" where
  "class_items (a # b # c # r) =
     (if b = 45 then (if c < a then class_items r else Range a c # class_items r)
      else One a # class_items (b # c # r))"
| "class_items (a # r) = One a # class_items r"
| "class_items [] = []"

text \<open>A leading \<^verbatim>\<open>!\<close> negates. It may also become the first character because ranges before it were
  dropped; it then negates too, and a range that started with it leaves a hyphen.\<close>

definition class_of :: "nat list \<Rightarrow> glob_token" where
  "class_of stuff =
     (if stuff \<noteq> [] \<and> hd stuff = 33 then Class True (class_items (tl stuff))
      else (case class_items stuff of
              [] \<Rightarrow> Class False []
            | One a # is \<Rightarrow> if a = 33 then Class True is else Class False (One a # is)
            | Range a z # is \<Rightarrow>
                if a = 33 then Class True (One 45 # One z # is)
                else Class False (Range a z # is)))"

text \<open>The position of the bracket that closes an expression, counted from behind the opening one.\<close>

definition bracket_end :: "nat list \<Rightarrow> nat option" where
  "bracket_end r =
     (let n1 = (if r \<noteq> [] \<and> hd r = 33 then 1 else 0);
          n2 = (if n1 < length r \<and> r ! n1 = 93 then n1 + 1 else n1);
          j = n2 + length (takeWhile (\<lambda>c. c \<noteq> 93) (drop n2 r))
      in if length r \<le> j then None else Some j)"

function translate :: "nat list \<Rightarrow> glob_token list" where
  "translate [] = []"
| "translate (c # r) =
     (if c = 42 then Star # translate r
      else if c = 63 then AnyOne # translate r
      else if c = 91 then
        (case bracket_end r of
           None \<Rightarrow> Lit 91 # translate r
         | Some j \<Rightarrow> class_of (take j r) # translate (drop (Suc j) r))
      else Lit c # translate r)"
  by pat_completeness auto
termination translate
  by (relation "measure length") auto

definition in_item :: "nat \<Rightarrow> class_item \<Rightarrow> bool" where
  "in_item c i = (case i of One a \<Rightarrow> c = a | Range a b \<Rightarrow> a \<le> c \<and> c \<le> b)"

fun glob_match :: "glob_token list \<Rightarrow> nat list \<Rightarrow> bool" where
  "glob_match [] s = (s = [])"
| "glob_match (Star # ts) [] = glob_match ts []"
| "glob_match (Star # ts) (c # s) = (glob_match ts (c # s) \<or> glob_match (Star # ts) s)"
| "glob_match (t # ts) [] = False"
| "glob_match (AnyOne # ts) (c # s) = glob_match ts s"
| "glob_match (Lit a # ts) (c # s) = (c = a \<and> glob_match ts s)"
| "glob_match (Class neg is # ts) (c # s) = (list_ex (in_item c) is \<noteq> neg \<and> glob_match ts s)"

definition fnmatchcase :: "nat list \<Rightarrow> nat list \<Rightarrow> bool" where
  "fnmatchcase name pat = glob_match (translate pat) name"

end
