(* ===== verification/Kv_Commands.thy ===== *)
theory Kv_Commands
  imports Kv_Refine Glob_Match
begin

text \<open>
  The commands (\<^verbatim>\<open>commands.py\<close>): argument parsing, the twenty handlers, the table and \<^verbatim>\<open>dispatch\<close>.

  A handler takes the clock, its arguments and the store, and returns a reply or an exception together
  with the store as it is then: an exception does not undo what ran before it. The clock of a command
  has one reading of \<^verbatim>\<open>time.monotonic()\<close> and one of \<^verbatim>\<open>time.time()\<close>: a handler runs without
  suspension, and its readings are taken to be equal.
\<close>

section \<open>Exceptions and clocks\<close>

record clock =
  mono :: seconds
  wall :: seconds

text \<open>The exceptions \<^verbatim>\<open>dispatch\<close> does not turn into an error reply.\<close>

datatype py_exc = ValueErr int_error | OverflowErr | UnicodeEncodeErr

datatype exc = WrongArity | BadArgument string | Raised py_exc

type_synonym handler = "clock \<Rightarrow> arg list \<Rightarrow> store \<Rightarrow> (exc + pyobj) \<times> store"

definition require :: "arg list \<Rightarrow> nat \<Rightarrow> exc + unit" where
  "require args n = (if length args \<noteq> n then Inl WrongArity else Inr ())"

definition require_min :: "arg list \<Rightarrow> nat \<Rightarrow> exc + unit" where
  "require_min args n = (if length args < n then Inl WrongArity else Inr ())"

text \<open>A step that may raise, followed by a body that works on the store.\<close>

definition guarded :: "exc + 'a \<Rightarrow> ('a \<Rightarrow> store \<Rightarrow> (exc + pyobj) \<times> store) \<Rightarrow> store \<Rightarrow> (exc + pyobj) \<times> store" where
  "guarded m f st = (case m of Inl e \<Rightarrow> (Inl e, st) | Inr x \<Rightarrow> f x st)"

text \<open>A method that always returns; its result becomes the reply.\<close>

definition returning :: "('a \<Rightarrow> pyobj) \<Rightarrow> 'a \<times> store \<Rightarrow> (exc + pyobj) \<times> store" where
  "returning f p = (Inr (f (fst p)), snd p)"


section \<open>Arguments\<close>

definition cmd_parse_int :: "arg \<Rightarrow> exc + int" where
  "cmd_parse_int a =
     (let text = to_text a
      in if \<not> INT_RE_fullmatch text then Inl (BadArgument not_integer_msg)
         else (case py_int_str text of
                 Inl e \<Rightarrow> Inl (Raised (ValueErr e))
               | Inr n \<Rightarrow> if INT64_MIN \<le> n \<and> n \<le> INT64_MAX then Inr n else Inl (BadArgument not_integer_msg)))"

definition like :: "arg \<Rightarrow> arg \<Rightarrow> py_exc + arg" where
  "like sample text =
     (case sample of
        Bytes _ \<Rightarrow>
          (case text of
             Bytes b \<Rightarrow> Inr (Bytes b)
           | Str s \<Rightarrow> (case utf8_encode s of None \<Rightarrow> Inl UnicodeEncodeErr | Some b \<Rightarrow> Inr (Bytes b)))
      | Str _ \<Rightarrow> Inr (Str (to_text text)))"

definition lookup :: "clock \<Rightarrow> arg \<Rightarrow> store \<Rightarrow> pyobj \<times> store" where
  "lookup c k st =
     (case store_get (mono c) k st of (v, st1) \<Rightarrow>
        (v, if v = PyNone then st1\<lparr>misses := Suc (misses st1)\<rparr> else st1\<lparr>hits := Suc (hits st1)\<rparr>))"

record set_options =
  okey :: arg
  oval :: arg
  nx :: bool
  xx :: bool
  oget :: bool
  ottl :: "seconds option"

text \<open>\<^verbatim>\<open>invalid expire time in 'set' command\<close>\<close>

definition bad_ttl_msg :: string where
  "bad_ttl_msg = ''invalid expire time in '' @ [CHR 0x27] @ ''set'' @ [CHR 0x27] @ '' command''"

definition parse_ttl :: "pystr \<Rightarrow> arg \<Rightarrow> exc + seconds" where
  "parse_ttl unit a =
     sum_bind (cmd_parse_int a) (\<lambda>n.
       if n \<le> 0 then Inl (BadArgument bad_ttl_msg)
       else Inr (if unit = ascii_str ''EX'' then of_int n else of_int n / 1000))"

definition syntax_error :: exc where "syntax_error = BadArgument ''syntax error''"

fun parse_set_options :: "arg list \<Rightarrow> set_options \<Rightarrow> exc + set_options" where
  "parse_set_options [] opts = Inr opts"
| "parse_set_options (a # rest) opts =
     (let option = str_upper (to_text a)
      in if option = ascii_str ''NX'' then parse_set_options rest (opts\<lparr>nx := True\<rparr>)
         else if option = ascii_str ''XX'' then parse_set_options rest (opts\<lparr>xx := True\<rparr>)
         else if option = ascii_str ''GET'' then parse_set_options rest (opts\<lparr>oget := True\<rparr>)
         else if option = ascii_str ''EX'' \<or> option = ascii_str ''PX'' then
           (case rest of
              [] \<Rightarrow> Inl syntax_error
            | b # rest' \<Rightarrow>
                if ottl opts \<noteq> None then Inl syntax_error
                else sum_bind (parse_ttl option b) (\<lambda>t. parse_set_options rest' (opts\<lparr>ottl := Some t\<rparr>)))
         else Inl syntax_error)"

definition parse_set :: "arg list \<Rightarrow> exc + set_options" where
  "parse_set args =
     (case args of
        k # v # rest \<Rightarrow>
          sum_bind (parse_set_options rest
              \<lparr>okey = k, oval = v, nx = False, xx = False, oget = False, ottl = None\<rparr>)
            (\<lambda>opts. if nx opts \<and> xx opts then Inl syntax_error else Inr opts)
      | _ \<Rightarrow> Inl syntax_error)"


section \<open>Handlers\<close>

definition cmd_ping :: handler where
  "cmd_ping c args st =
     (case args of
        [] \<Rightarrow> (Inr (SimpleString (ascii_str ''PONG'')), st)
      | [a] \<Rightarrow> (Inr (PyArg a), st)
      | _ \<Rightarrow> (Inl WrongArity, st))"

definition cmd_echo :: handler where
  "cmd_echo c args = guarded (require args 1) (\<lambda>_ st. (Inr (PyArg (hd args)), st))"

definition OK :: pyobj where "OK = SimpleString (ascii_str ''OK'')"

definition cmd_set :: handler where
  "cmd_set c args =
     guarded (require_min args 2) (\<lambda>_.
       guarded (parse_set args) (\<lambda>opts st.
         case store_exists (mono c) (okey opts) st of (exists, st1) \<Rightarrow>
         case (if oget opts then store_get (mono c) (okey opts) st1 else (PyNone, st1)) of (previous, st2) \<Rightarrow>
           if nx opts \<and> exists \<or> xx opts \<and> \<not> exists then (Inr previous, st2)
           else (Inr (if oget opts then previous else OK),
                 store_set (mono c) (mono c) (okey opts) (PyArg (oval opts)) (ottl opts) st2)))"

definition cmd_get :: handler where
  "cmd_get c args = guarded (require args 1) (\<lambda>_ st. returning id (lookup c (hd args) st))"

fun mset_loop :: "clock \<Rightarrow> arg list \<Rightarrow> store \<Rightarrow> store" where
  "mset_loop c (k # v # rest) st = mset_loop c rest (store_set (mono c) (mono c) k (PyArg v) None st)"
| "mset_loop c _ st = st"

definition cmd_mset :: handler where
  "cmd_mset c args =
     guarded (require_min args 2) (\<lambda>_ st.
       if odd (length args) then (Inl WrongArity, st) else (Inr OK, mset_loop c args st))"

definition cmd_mget :: handler where
  "cmd_mget c args = guarded (require_min args 1) (\<lambda>_ st. returning PyList (map_loop (lookup c) args st))"

definition incr_by :: "clock \<Rightarrow> arg \<Rightarrow> int \<Rightarrow> store \<Rightarrow> (exc + pyobj) \<times> store" where
  "incr_by c k delta st = map_prod (map_sum BadArgument PyInt) id (store_incr (mono c) (mono c) k delta st)"

definition cmd_incr :: handler where
  "cmd_incr c args = guarded (require args 1) (\<lambda>_. incr_by c (hd args) 1)"

definition cmd_decr :: handler where
  "cmd_decr c args = guarded (require args 1) (\<lambda>_. incr_by c (hd args) (-1))"

definition cmd_incrby :: handler where
  "cmd_incrby c args =
     guarded (require args 2) (\<lambda>_. guarded (cmd_parse_int (args ! 1)) (\<lambda>n. incr_by c (hd args) n))"

definition cmd_decrby :: handler where
  "cmd_decrby c args =
     guarded (require args 2) (\<lambda>_. guarded (cmd_parse_int (args ! 1)) (\<lambda>n. incr_by c (hd args) (- n)))"

definition cmd_del :: handler where
  "cmd_del c args =
     guarded (require_min args 1) (\<lambda>_ st. returning PyInt (count_loop (store_delete (mono c)) args st))"

definition cmd_exists :: handler where
  "cmd_exists c args =
     guarded (require_min args 1) (\<lambda>_ st.
       returning PyInt (count_loop (\<lambda>k s. map_prod (\<lambda>v. v \<noteq> PyNone) id (lookup c k s)) args st))"

definition cmd_expire :: handler where
  "cmd_expire c args =
     guarded (require args 2) (\<lambda>_. guarded (cmd_parse_int (args ! 1)) (\<lambda>n st.
       returning PyBool (store_expire (mono c) (mono c) (hd args) (of_int n) st)))"

definition cmd_pexpire :: handler where
  "cmd_pexpire c args =
     guarded (require args 2) (\<lambda>_. guarded (cmd_parse_int (args ! 1)) (\<lambda>n st.
       returning PyBool (store_expire (mono c) (mono c) (hd args) (of_int n / 1000) st)))"

text \<open>The integer division \<^verbatim>\<open>unix_ms / 1000\<close> raises OverflowError when the quotient rounds to a
  number beyond the largest float.\<close>

definition MAX_FLOAT_MS :: int where
  "MAX_FLOAT_MS = 1000 * (2 ^ 1024 - 2 ^ 970)"

text \<open>The number itself, for evaluation.\<close>

lemma MAX_FLOAT_MS_code [code]:
  "MAX_FLOAT_MS = 179769313486231580793728971405303415079934132710037826936173778980444968292764750946649017977587207096330286416692887910946555547851940402630657488671505820681908902000708383676273854845817711531764475730270069855571366959622842914819860834936475292719074168444365510704342711559699508093042880177904174497792000"
  by (simp add: MAX_FLOAT_MS_def)

definition cmd_pexpireat :: handler where
  "cmd_pexpireat c args =
     guarded (require args 2) (\<lambda>_ st.
       case py_int_str (to_text (args ! 1)) of
         Inl _ \<Rightarrow> (Inl (BadArgument not_integer_msg), st)
       | Inr unix_ms \<Rightarrow>
           if MAX_FLOAT_MS \<le> \<bar>unix_ms\<bar> then (Inl (Raised OverflowErr), st)
           else returning PyBool
             (expire_at_unix (wall c) (mono c) (mono c) (hd args) (of_int unix_ms / 1000) st))"

definition ttl_reply :: "seconds option \<Rightarrow> pyobj" where
  "ttl_reply r =
     (case r of None \<Rightarrow> PyInt (-2) | Some t \<Rightarrow> if t = -1 then PyInt (-1) else PyInt (math_ceil t))"

definition cmd_ttl :: handler where
  "cmd_ttl c args =
     guarded (require args 1) (\<lambda>_ st. returning ttl_reply (store_ttl (mono c) (mono c) (hd args) st))"

definition cmd_persist :: handler where
  "cmd_persist c args =
     guarded (require args 1) (\<lambda>_ st. returning PyBool (store_persist (mono c) (hd args) st))"

text \<open>The characters \<^verbatim>\<open>fnmatch\<close> works on: the code points of a text, the byte values of bytes.\<close>

definition glob_chars :: "arg \<Rightarrow> nat list" where
  "glob_chars a = (case a of Bytes b \<Rightarrow> map of_char b | Str s \<Rightarrow> s)"

fun match_keys :: "arg \<Rightarrow> arg list \<Rightarrow> py_exc + arg list" where
  "match_keys pattern [] = Inr []"
| "match_keys pattern (k # ks) =
     sum_bind (like k pattern) (\<lambda>p.
       map_sum id (\<lambda>r. if fnmatchcase (glob_chars k) (glob_chars p) then k # r else r) (match_keys pattern ks))"

definition cmd_keys :: handler where
  "cmd_keys c args st =
     (if 1 < length args then (Inl WrongArity, st)
      else case store_keys (mono c) st of (keys, st1) \<Rightarrow>
        (case args of
           [] \<Rightarrow> (Inr (PyList (map PyArg keys)), st1)
         | pattern # _ \<Rightarrow> (map_sum Raised (\<lambda>ks. PyList (map PyArg ks)) (match_keys pattern keys), st1)))"

definition cmd_flushdb :: handler where
  "cmd_flushdb c args = guarded (require args 0) (\<lambda>_ st. (Inr OK, store_flush st))"

definition cmd_dbsize :: handler where
  "cmd_dbsize c args = guarded (require args 0) (\<lambda>_ st. returning (\<lambda>n. PyInt (int n)) (store_len (mono c) st))"


section \<open>Dispatch\<close>

definition COMMANDS :: "(string \<times> handler) list" where
  "COMMANDS =
     [(''PING'', cmd_ping), (''ECHO'', cmd_echo), (''SET'', cmd_set), (''GET'', cmd_get),
      (''MSET'', cmd_mset), (''MGET'', cmd_mget), (''INCR'', cmd_incr), (''DECR'', cmd_decr),
      (''INCRBY'', cmd_incrby), (''DECRBY'', cmd_decrby), (''DEL'', cmd_del), (''EXISTS'', cmd_exists),
      (''EXPIRE'', cmd_expire), (''PEXPIRE'', cmd_pexpire), (''PEXPIREAT'', cmd_pexpireat),
      (''TTL'', cmd_ttl), (''PERSIST'', cmd_persist), (''KEYS'', cmd_keys), (''FLUSHDB'', cmd_flushdb),
      (''DBSIZE'', cmd_dbsize)]"

definition command_handler :: "pystr \<Rightarrow> handler option" where
  "command_handler name = map_of (map (\<lambda>(n, h). (ascii_str n, h)) COMMANDS) name"

text \<open>The reply to what a handler returned or raised.\<close>

definition reply_or_raise :: "pystr \<Rightarrow> exc + pyobj \<Rightarrow> py_exc + pyobj" where
  "reply_or_raise name r =
     (case r of
        Inr v \<Rightarrow> Inr v
      | Inl WrongArity \<Rightarrow>
          Inr (Error (ascii_str ''ERR wrong number of arguments for '' @ [39] @ name @ [39] @ ascii_str '' command''))
      | Inl (BadArgument msg) \<Rightarrow> Inr (Error (ascii_str (''ERR '' @ msg)))
      | Inl (Raised e) \<Rightarrow> Inl e)"

definition dispatch :: "clock \<Rightarrow> arg list \<Rightarrow> store \<Rightarrow> (py_exc + pyobj) \<times> store" where
  "dispatch c command st =
     (case command of
        [] \<Rightarrow> (Inr (Error (ascii_str ''ERR empty command'')), st)
      | first # args \<Rightarrow>
          let name = str_upper (to_text first)
          in case command_handler name of
               None \<Rightarrow> (Inr (Error (ascii_str ''ERR unknown command '' @ [39] @ to_text first @ [39])), st)
             | Some handler \<Rightarrow> map_prod (reply_or_raise name) id (handler c args st))"

end
