(* ===== verification/Kv_Preserve.thy ===== *)
theory Kv_Preserve
  imports Kv_Commands
begin

text \<open>
  What every command preserves. \<open>all_vals P\<close> says that the stored entries satisfy a property of key and
  value; the locale \<open>preserved\<close> is the interface between \<^verbatim>\<open>commands.py\<close> and \<^verbatim>\<open>store.py\<close>: a property
  of stores that every method the handlers call preserves, is preserved by every command. It is
  interpreted for reachability, for the invariant and for stores whose data came over the wire.
\<close>

lemma snd_returning [simp]: "snd (returning f p) = snd p"
  by (simp add: returning_def)

lemma command_handler_in: "command_handler name = Some h \<Longrightarrow> \<exists>n. (n, h) \<in> set COMMANDS \<and> name = ascii_str n"
  by (auto simp: command_handler_def dest!: map_of_SomeD)


section \<open>Properties of stored values\<close>

definition all_vals :: "(arg \<Rightarrow> pyobj \<Rightarrow> bool) \<Rightarrow> store \<Rightarrow> bool" where
  "all_vals P st = list_all (\<lambda>(k, e). P k (val e)) (data st)"

lemma all_vals_iff: "all_vals P st \<longleftrightarrow> (\<forall>(k, e) \<in> set (data st). P k (val e))"
  by (simp add: all_vals_def list_all_iff)

lemma all_vals_mono: "all_vals P st \<Longrightarrow> set (data st') \<subseteq> set (data st) \<Longrightarrow> all_vals P st'"
  by (auto simp: all_vals_iff)

lemma set_to_end: "set (move_to_end k d) \<subseteq> set d"
  using set_delete_subset [of k d] by (auto simp: move_to_end_def dest: map_of_SomeD split: option.splits)

lemma set_od_set: "set (od_set k e d) \<subseteq> insert (k, e) (set d)"
  by (induction d) (auto simp: od_set_def)

lemma set_od_pop: "set (od_pop k d) \<subseteq> set d"
  using set_delete_subset [of k d] by (simp add: od_pop_def)

lemma all_vals_fields [simp]:
  "all_vals P (st\<lparr>writes := n\<rparr>) = all_vals P st" "all_vals P (st\<lparr>hits := n\<rparr>) = all_vals P st"
  "all_vals P (st\<lparr>misses := n\<rparr>) = all_vals P st" "all_vals P (schedule k t st) = all_vals P st"
  "all_vals P (st\<lparr>evicted := ev\<rparr>) = all_vals P st"
  by (simp_all add: all_vals_def)

lemma all_vals_fresh [simp]: "all_vals P (fresh_store mm pol)" "all_vals P (store_flush st)"
  by (simp_all add: all_vals_def fresh_store_def store_flush_def)

lemma all_vals_remove: "all_vals P st \<Longrightarrow> all_vals P (store_remove k b st)"
  by (rule all_vals_mono) (use set_od_pop [of k] in \<open>auto simp: store_remove_def split: option.splits\<close>)

lemma all_vals_lookup_live: "all_vals P st \<Longrightarrow> all_vals P (snd (lookup_live now k st))"
  by (auto simp: lookup_live_def all_vals_remove split: option.splits)

lemma all_vals_to_end: "all_vals P st \<Longrightarrow> all_vals P (st\<lparr>data := move_to_end k (data st)\<rparr>)"
  using set_to_end [of k "data st"] by (auto simp: all_vals_iff)

lemma all_vals_set_entry:
  "all_vals P st \<Longrightarrow> P k (val e) \<Longrightarrow> all_vals P (st\<lparr>data := od_set k e (data st)\<rparr>)"
  using set_od_set [of k e "data st"] by (auto simp: all_vals_iff)

lemma all_vals_get: "all_vals P st \<Longrightarrow> od_get (data st) k = Some e \<Longrightarrow> P k (val e)"
  by (auto simp: all_vals_iff od_get_def dest!: map_of_SomeD)

lemma all_vals_put: "all_vals P st \<Longrightarrow> P k (val e) \<Longrightarrow> all_vals P (put k e st)"
  using set_od_set [of k "e\<lparr>esize := cost k (val e)\<rparr>" "data st"] set_to_end
  by (auto simp: all_vals_iff put_def Let_def) fastforce

lemma all_vals_overwrite: "all_vals P st \<Longrightarrow> P k v \<Longrightarrow> all_vals P (overwrite k e v st)"
  using set_od_set [of k "e\<lparr>val := v, esize := cost k v\<rparr>" "move_to_end k (data st)"] set_to_end [of k "data st"]
  by (fastforce simp: all_vals_iff overwrite_def Let_def)

lemma all_vals_sweep: "store_inv st \<Longrightarrow> all_vals P st \<Longrightarrow> all_vals P (snd (sweep_expired now st))"
  by (rule all_vals_mono) (auto simp: sweep_expired_facts)

lemma all_vals_evict: "store_inv st \<Longrightarrow> all_vals P st \<Longrightarrow> all_vals P (evict now st)"
  by (rule all_vals_mono) (auto simp: evict_facts evict_base_def dest: in_set_dropD)

lemma all_vals_set:
  "store_inv st \<Longrightarrow> all_vals P st \<Longrightarrow> P k v \<Longrightarrow> all_vals P (store_set now now' k v ttl st)"
  unfolding store_set_def Let_def
  by (rule all_vals_evict)
    (auto intro!: inv_intros store_inv_put_plain store_inv_put_schedule all_vals_put split: option.splits)

text \<open>A counter stores the text of a 64-bit integer, of the kind of what it found or of its key.\<close>

lemma all_vals_incr:
  assumes "store_inv st" and "all_vals P st"
    and new: "\<And>v n. v = PyArg k \<or> P k v \<Longrightarrow> INT64_MIN \<le> n \<Longrightarrow> n \<le> INT64_MAX \<Longrightarrow> P k (counter_obj v n)"
  shows "all_vals P (snd (store_incr now now' k delta st))"
proof (cases "lookup_live now k st")
  case (Pair found st1)
  have inv: "store_inv (st1\<lparr>writes := n\<rparr>)" "all_vals P st1" for n
    using assms(1,2) store_inv_lookup_live [of st now k] all_vals_lookup_live [of P st now k] Pair
    by (auto simp: inv_intros)
  have e: "od_get (data st1) k = Some e" "P k (val e)" if "found = Some e" for e
    using that Pair all_vals_get [OF assms(2)] by (auto simp: lookup_live_Some)
  from inv e new Pair show ?thesis
    by (auto simp: store_incr_def Let_def counter_obj_def [symmetric] split: sum.splits option.splits
        intro!: all_vals_evict store_inv_put_plain store_inv_overwrite all_vals_put all_vals_overwrite)
qed

lemma all_vals_ops:
  assumes i: "store_inv st" and a: "all_vals P st"
  shows "all_vals P (snd (store_delete now k st))" "all_vals P (snd (store_get now k st))"
    "all_vals P (snd (store_ttl now now' k st))" "all_vals P (snd (store_expire now now' k x st))"
    "all_vals P (snd (store_persist now k st))" "all_vals P (snd (drain_evictions st))"
proof -
  note l = all_vals_lookup_live [OF a, of now k]
  show "all_vals P (snd (store_delete now k st))"
    using a by (auto simp: store_delete_def all_vals_remove split: option.splits)
  show "all_vals P (snd (store_get now k st))"
    using l by (auto simp: store_get_def all_vals_to_end split: prod.splits option.splits)
  show "all_vals P (snd (store_ttl now now' k st))"
    using l by (auto simp: store_ttl_def split: prod.splits option.splits)
  show "all_vals P (snd (store_expire now now' k x st))"
    using l a by (auto simp: store_expire_def Let_def lookup_live_Some split: prod.splits option.splits
        intro!: all_vals_set_entry intro: all_vals_get)
  show "all_vals P (snd (store_persist now k st))"
    using l a by (auto simp: store_persist_def lookup_live_Some split: prod.splits option.splits
        intro!: all_vals_set_entry intro: all_vals_get)
  show "all_vals P (snd (drain_evictions st))"
    using a by (simp add: drain_evictions_def)
qed


section \<open>What every command preserves\<close>

locale preserved =
  fixes I :: "store \<Rightarrow> bool"
    and good :: "arg \<Rightarrow> bool"
  assumes I_set: "I st \<Longrightarrow> good k \<Longrightarrow> good a \<Longrightarrow> I (store_set now now' k (PyArg a) ttl st)"
    and I_incr: "I st \<Longrightarrow> good k \<Longrightarrow> I (snd (store_incr now now' k delta st))"
    and I_delete: "I st \<Longrightarrow> I (snd (store_delete now k st))"
    and I_expire: "I st \<Longrightarrow> I (snd (store_expire now now' k x st))"
    and I_persist: "I st \<Longrightarrow> I (snd (store_persist now k st))"
    and I_flush: "I st \<Longrightarrow> I (store_flush st)"
    and I_get: "I st \<Longrightarrow> I (snd (store_get now k st))"
    and I_ttl: "I st \<Longrightarrow> I (snd (store_ttl now now' k st))"
    and I_sweep: "I st \<Longrightarrow> I (snd (sweep_expired now st))"
    and I_drain: "I st \<Longrightarrow> I (snd (drain_evictions st))"
    and I_hit: "I st \<Longrightarrow> I (st\<lparr>hits := Suc (hits st)\<rparr>)"
    and I_miss: "I st \<Longrightarrow> I (st\<lparr>misses := Suc (misses st)\<rparr>)"
begin

lemma I_exists: "I st \<Longrightarrow> I (snd (store_exists now k st))"
  by (simp add: store_exists_def I_get)

lemma I_readers: "I st \<Longrightarrow> I (snd (store_keys now st))" "I st \<Longrightarrow> I (snd (store_len now st))"
  "I st \<Longrightarrow> I (snd (expire_at_unix u now now' k x st))" "I st \<Longrightarrow> I (snd (store_snapshot now now' st))"
  by (simp_all add: store_keys_def store_len_def expire_at_unix_def store_snapshot_def Let_def I_sweep I_expire)

lemma I_lookup: "I st \<Longrightarrow> I (snd (lookup c k st))"
  using I_get [of st "mono c" k] by (auto simp: lookup_def I_hit I_miss split: prod.splits)

lemma I_guarded:
  "I st \<Longrightarrow> (\<And>x. m = Inr x \<Longrightarrow> I (snd (f x st))) \<Longrightarrow> I (snd (guarded m f st))"
  by (simp add: guarded_def split: sum.splits)

lemma I_mset_loop: "I st \<Longrightarrow> list_all good args \<Longrightarrow> I (mset_loop c args st)"
  by (induction c args st rule: mset_loop.induct) (simp_all add: I_set)

lemma I_loops:
  assumes "I st"
  shows "I (snd (map_loop (lookup c) ks st))" "I (snd (count_loop (store_delete now) ks st))"
    "I (snd (count_loop (\<lambda>k s. map_prod g id (lookup c k s)) ks st))"
  by (rule map_loop_inv count_loop_inv; simp add: assms I_lookup I_delete)+

lemma I_incr_by: "I st \<Longrightarrow> good k \<Longrightarrow> I (snd (incr_by c k n st))"
  by (simp add: incr_by_def I_incr)

text \<open>The arguments the handlers store are arguments of the command.\<close>

lemma good_hd: "list_all good args \<Longrightarrow> require args n = Inr u \<Longrightarrow> 0 < n \<Longrightarrow> good (hd args)"
  by (cases args) (auto simp: require_def split: if_splits)

lemma parse_set_options_args:
  "parse_set_options args o0 = Inr opts \<Longrightarrow> okey opts = okey o0 \<and> oval opts = oval o0"
proof (induction args o0 rule: parse_set_options.induct)
  case (2 a rest o0)
  then show ?case by (auto simp: Let_def sum_bind_eq_Inr split: if_splits list.splits)
qed simp

lemma good_set: "list_all good args \<Longrightarrow> parse_set args = Inr opts \<Longrightarrow> good (okey opts) \<and> good (oval opts)"
  by (auto simp: parse_set_def sum_bind_eq_Inr split: list.splits if_splits dest!: parse_set_options_args)

lemmas I_ops = I_set I_delete I_expire I_persist I_flush I_get I_ttl I_exists I_readers I_lookup
  I_mset_loop I_loops I_incr_by

lemma I_cmd_set:
  assumes "I st" and "list_all good args"
  shows "I (snd (cmd_set c args st))"
  unfolding cmd_set_def
  by (intro I_guarded assms(1)) (use assms good_set in \<open>auto simp: case_prod_beta I_ops\<close>)

lemma I_handlers:
  assumes "I st" and "list_all good args"
  shows "list_all (\<lambda>(n, h). I (snd (h c args st))) COMMANDS"
proof -
  note unf = cmd_ping_def cmd_echo_def cmd_get_def cmd_mset_def cmd_mget_def cmd_incr_def
    cmd_decr_def cmd_incrby_def cmd_decrby_def cmd_del_def cmd_exists_def cmd_expire_def cmd_pexpire_def
    cmd_pexpireat_def cmd_ttl_def cmd_persist_def cmd_keys_def cmd_flushdb_def cmd_dbsize_def
  show ?thesis
    unfolding COMMANDS_def list.pred_inject
    using assms
    by (simp; intro conjI; simp add: unf I_cmd_set case_prod_beta split: list.split sum.split;
        intro impI allI conjI I_guarded; simp add: I_ops good_hd split: sum.split)
qed

lemma I_dispatch:
  assumes "I st" and "list_all good command"
  shows "I (snd (dispatch c command st))"
proof -
  have "I (snd (h c args st))" if "command_handler name = Some h" and "list_all good args" for name h args
    using I_handlers [OF assms(1) that(2), of c] command_handler_in [OF that(1)] by (auto simp: list_all_iff)
  with assms show ?thesis
    by (auto simp: dispatch_def Let_def split: list.splits option.splits)
qed

end

text \<open>Reachable stores.\<close>

interpretation reach: preserved store_reachable "\<lambda>_. True"
  by unfold_locales (blast intro: reach_step store_step.intros)+


section \<open>Stored values are arguments\<close>

text \<open>The commands only ever store arguments, so \<^verbatim>\<open>None\<close> always means a missing key and a reply that
  is an \<^verbatim>\<open>Error\<close> never is a stored value.\<close>

definition is_arg :: "pyobj \<Rightarrow> bool" where
  "is_arg v = (case v of PyArg _ \<Rightarrow> True | _ \<Rightarrow> False)"

definition all_args :: "store \<Rightarrow> bool" where
  "all_args st = all_vals (\<lambda>k. is_arg) st"

lemma is_arg_PyArg [simp]: "is_arg (PyArg a)" "is_arg (counter_obj v n)"
  by (simp_all add: is_arg_def counter_obj_def)

lemma is_argE: "is_arg v \<Longrightarrow> (\<And>a. v = PyArg a \<Longrightarrow> P) \<Longrightarrow> P"
  by (cases v) (simp_all add: is_arg_def)

lemma all_args_get: "all_args st \<Longrightarrow> od_get (data st) k = Some e \<Longrightarrow> is_arg (val e)"
  unfolding all_args_def by (rule all_vals_get)

text \<open>The invariant of a store that is used through the commands.\<close>

definition cmd_inv :: "store \<Rightarrow> bool" where
  "cmd_inv st \<longleftrightarrow> store_inv st \<and> all_args st"

lemma cmd_invD: "cmd_inv st \<Longrightarrow> store_inv st" "cmd_inv st \<Longrightarrow> all_args st"
  by (simp_all add: cmd_inv_def)

lemma cmd_inv_fresh [inv_intros]: "cmd_inv (fresh_store mm pol)"
  by (simp add: cmd_inv_def all_args_def inv_intros)

interpretation cinv: preserved cmd_inv "\<lambda>_. True"
  by unfold_locales
    (simp_all add: cmd_inv_def all_args_def inv_intros all_vals_set all_vals_incr all_vals_ops all_vals_sweep)

lemmas cmd_inv_ops [inv_intros] = cinv.I_set [OF _ TrueI TrueI] cinv.I_incr [OF _ TrueI] cinv.I_delete
  cinv.I_expire cinv.I_persist cinv.I_flush cinv.I_get cinv.I_ttl cinv.I_sweep cinv.I_drain cinv.I_exists
  cinv.I_readers cinv.I_lookup

lemma cmd_inv_dispatch [inv_intros]: "cmd_inv st \<Longrightarrow> cmd_inv (snd (dispatch c command st))"
  by (rule cinv.I_dispatch) (simp_all add: list_all_iff)


section \<open>Data that came over the wire\<close>

text \<open>Keys and values are bytes of an allowed length.\<close>

definition wire_arg :: "arg \<Rightarrow> bool" where
  "wire_arg a = (case a of Bytes b \<Rightarrow> ok_bulk b | Str _ \<Rightarrow> False)"

definition wire_val :: "pyobj \<Rightarrow> bool" where
  "wire_val v = (case v of PyArg a \<Rightarrow> wire_arg a | _ \<Rightarrow> False)"

definition wire_store :: "store \<Rightarrow> bool" where
  "wire_store st = all_vals (\<lambda>k v. wire_arg k \<and> wire_val v) st"

lemma header_int64: "INT64_MIN \<le> n \<Longrightarrow> n \<le> INT64_MAX \<Longrightarrow> header_int n"
  by (auto simp: header_int_def INT64_MIN_def INT64_MAX_def)

lemma wire_counter:
  "v = PyArg k \<or> wire_val v \<Longrightarrow> wire_arg k \<Longrightarrow> INT64_MIN \<le> n \<Longrightarrow> n \<le> INT64_MAX \<Longrightarrow> wire_val (counter_obj v n)"
  using length_str_int [OF header_int64, of n]
  by (auto simp: wire_val_def wire_arg_def counter_obj_def is_bytes_def ok_bulk_def MAX_BULK_LENGTH_def
      split: pyobj.splits arg.splits)

lemma wire_incr: "store_inv st \<Longrightarrow> wire_store st \<Longrightarrow> wire_arg k \<Longrightarrow> wire_store (snd (store_incr now now' k delta st))"
  unfolding wire_store_def by (rule all_vals_incr) (auto intro: wire_counter)

lemma wire_set:
  "store_inv st \<Longrightarrow> wire_store st \<Longrightarrow> wire_arg k \<Longrightarrow> wire_arg a \<Longrightarrow> wire_store (store_set now now' k (PyArg a) ttl st)"
  unfolding wire_store_def by (rule all_vals_set) (auto simp: wire_val_def)

text \<open>Evicted keys that are not drained yet came over the wire as well.\<close>

definition wire_evicted :: "store \<Rightarrow> bool" where
  "wire_evicted st = list_all wire_arg (evicted st)"

lemma wire_evict:
  assumes "store_inv st" and "wire_store st" and "wire_evicted st"
  shows "wire_evicted (evict now st)"
proof -
  have "set (take (evict_count now st) (evict_base now st)) \<subseteq> set (data st)"
    by (auto simp: evict_base_def dest: in_set_takeD)
  with assms show ?thesis
    by (fastforce simp: wire_evicted_def evict_facts list_all_iff wire_store_def all_vals_iff)
qed

lemma evicted_put [simp]: "evicted (put k e st) = evicted st" "evicted (schedule k t st) = evicted st"
  "evicted (overwrite k e v st) = evicted st" "evicted (store_remove k b st) = evicted st"
  "evicted (store_flush st) = evicted st"
  by (simp_all add: put_def schedule_def overwrite_def store_remove_def store_flush_def Let_def split: option.split)

lemma evicted_lookup_live [simp]: "evicted (snd (lookup_live now k st)) = evicted st"
  by (auto simp: lookup_live_def split: option.splits)

lemma evicted_readers [simp]: "evicted (snd (store_delete now k st)) = evicted st"
  "evicted (snd (store_get now k st)) = evicted st" "evicted (snd (store_ttl now now' k st)) = evicted st"
  "evicted (snd (store_expire now now' k x st)) = evicted st" "evicted (snd (store_persist now k st)) = evicted st"
  using evicted_lookup_live [of now k st]
  by (auto simp: store_delete_def store_get_def store_ttl_def store_expire_def store_persist_def Let_def
      simp del: evicted_lookup_live split: prod.splits option.splits)

lemma wire_evicted_set:
  assumes "store_inv st" and "wire_store st" and "wire_evicted st" and "wire_arg k" and "wire_arg a"
  shows "wire_evicted (store_set now now' k (PyArg a) ttl st)"
  unfolding store_set_def Let_def
  using assms
  by (intro wire_evict)
    (auto intro!: inv_intros store_inv_put_plain store_inv_put_schedule all_vals_put
      simp: wire_store_def wire_evicted_def wire_val_def split: option.splits)

lemma wire_evicted_incr:
  assumes "store_inv st" and "wire_store st" and "wire_evicted st" and "wire_arg k"
  shows "wire_evicted (snd (store_incr now now' k delta st))"
proof (cases "lookup_live now k st")
  case (Pair found st1)
  have inv: "store_inv (st1\<lparr>writes := n\<rparr>)" "wire_store st1" "wire_evicted st1" for n
    using assms store_inv_lookup_live [of st now k] all_vals_lookup_live [of _ st now k] Pair
      evicted_lookup_live [of now k st]
    by (auto simp: inv_intros wire_store_def wire_evicted_def)
  have e: "od_get (data st1) k = Some e" "wire_val (val e)" if "found = Some e" for e
    using that Pair all_vals_get [OF assms(2) [unfolded wire_store_def]] by (auto simp: lookup_live_Some)
  note new = wire_counter [of "PyArg k" k] wire_counter [of "val _" k]
  from inv e new assms(4) Pair show ?thesis
    by (auto simp: store_incr_def Let_def counter_obj_def [symmetric] wire_store_def split: sum.splits option.splits
        intro!: wire_evict store_inv_put_plain store_inv_overwrite all_vals_put all_vals_overwrite)
      (auto simp: wire_evicted_def)
qed

lemma evicted_sweep: "store_inv st \<Longrightarrow> evicted (snd (sweep_expired now st)) = evicted st"
  by (simp add: sweep_expired_facts)

text \<open>The invariant of a store that is used by clients over the wire.\<close>

definition wire_inv :: "store \<Rightarrow> bool" where
  "wire_inv st \<longleftrightarrow> store_inv st \<and> wire_store st \<and> wire_evicted st"

lemma wire_invD: "wire_inv st \<Longrightarrow> store_inv st" "wire_inv st \<Longrightarrow> wire_store st" "wire_inv st \<Longrightarrow> wire_evicted st"
  by (simp_all add: wire_inv_def)

lemma wire_inv_cmd: "wire_inv st \<Longrightarrow> cmd_inv st"
  by (auto simp: wire_inv_def cmd_inv_def all_args_def wire_store_def all_vals_iff wire_val_def is_arg_def split: pyobj.splits)

lemma wire_inv_fresh: "wire_inv (fresh_store mm pol)"
  by (simp add: wire_inv_def wire_store_def wire_evicted_def store_inv_fresh) (simp add: fresh_store_def)

interpretation wire: preserved wire_inv wire_arg
proof unfold_locales
  show "wire_inv (store_set now now' k (PyArg a) ttl st)" if "wire_inv st" "wire_arg k" "wire_arg a" for st k a now now' ttl
    using that by (simp add: wire_inv_def inv_intros wire_set wire_evicted_set)
  show "wire_inv (snd (store_incr now now' k delta st))" if "wire_inv st" "wire_arg k" for st k now now' delta
    using that by (simp add: wire_inv_def inv_intros wire_incr wire_evicted_incr)
qed (simp_all add: wire_inv_def inv_intros evicted_sweep,
     simp_all add: wire_store_def wire_evicted_def all_vals_ops all_vals_sweep evicted_sweep drain_evictions_def)

lemma wire_args: "list_all ok_bulk command \<Longrightarrow> list_all wire_arg (map Bytes command)"
  by (simp add: list_all_iff wire_arg_def)

end
