(* ===== verification/Kv_Semantics.thy ===== *)
theory Kv_Semantics
  imports Kv_Preserve
begin

text \<open>
  What each command does to the map a client sees, from the refinement lemmas of the store:
  the behaviour of \<^verbatim>\<open>dispatch\<close> on every command, errors included.
\<close>

section \<open>Running a command by name\<close>

text \<open>The name \<^verbatim>\<open>dispatch\<close> looks up: any spelling that upper-cases to it.\<close>

definition named :: "arg \<Rightarrow> string \<Rightarrow> bool" where
  "named f n \<longleftrightarrow> str_upper (to_text f) = ascii_str n"

lemma ascii_str_inj: "ascii_str s = ascii_str t \<longleftrightarrow> s = t"
  by (simp add: ascii_str_def inj_eq inj_def)

lemma dispatch_named:
  assumes "named f n" and "(n, h) \<in> set COMMANDS"
  shows "dispatch c (f # args) st = map_prod (reply_or_raise (ascii_str n)) id (h c args st)"
proof -
  have "distinct (map fst (map (\<lambda>(n, h). (ascii_str n, h)) COMMANDS))"
    by (simp add: COMMANDS_def ascii_str_inj)
  moreover have "(ascii_str n, h) \<in> set (map (\<lambda>(n, h). (ascii_str n, h)) COMMANDS)"
    using assms(2) by force
  ultimately have "command_handler (ascii_str n) = Some h"
    unfolding command_handler_def by (rule map_of_is_SomeI)
  with assms(1) show ?thesis by (simp add: dispatch_def named_def)
qed

lemma reply_simps [simp]:
  "reply_or_raise n (Inr v) = Inr v" "reply_or_raise n (Inl (Raised e)) = Inl e"
  "reply_or_raise n (Inl (BadArgument m)) = Inr (Error (ascii_str (''ERR '' @ m)))"
  "fst (returning f p) = Inr (f (fst p))"
  by (simp_all add: reply_or_raise_def returning_def)

lemma guarded_simps [simp]: "guarded (Inr x) f st = f x st" "guarded (Inl e) f st = (Inl e, st)"
  by (simp_all add: guarded_def)

lemma require_simps [simp]:
  "length args = n \<Longrightarrow> require args n = Inr ()" "length args \<noteq> n \<Longrightarrow> require args n = Inl WrongArity"
  "n \<le> length args \<Longrightarrow> require_min args n = Inr ()" "length args < n \<Longrightarrow> require_min args n = Inl WrongArity"
  by (simp_all add: require_def require_min_def)

lemma live_arg: "all_args st \<Longrightarrow> live t st k = Some (v, d) \<Longrightarrow> is_arg v"
  by (auto simp: live_def dest: all_args_get split: option.splits if_splits)

lemma reply_of_None: "all_args st \<Longrightarrow> reply_of (live t st k) = PyNone \<longleftrightarrow> live t st k = None"
  by (auto simp: reply_of_def is_arg_def dest!: live_arg split: option.splits)

lemma store_get_reply: "fst (store_get now k st) = reply_of (live now st k)"
  by (simp add: store_get_refines reply_of_def)

lemma store_exists_iff: "all_args st \<Longrightarrow> fst (store_exists now k st) \<longleftrightarrow> live now st k \<noteq> None"
  by (simp add: store_exists_def store_get_reply reply_of_None)

text \<open>Reading changes neither the log of evictions nor the number of writes.\<close>

lemma read_frame [simp]:
  "writes (snd (store_get now k st)) = writes st" "evicted (snd (store_get now k st)) = evicted st"
  "writes (snd (store_exists now k st)) = writes st" "evicted (snd (store_exists now k st)) = evicted st"
  by (auto simp: store_exists_def store_get_def lookup_live_def store_remove_def split: option.splits)

lemma live_exists: "now \<le> t \<Longrightarrow> live t (snd (store_exists now k st)) = live t st"
  by (simp add: store_exists_def store_get_refines)

lemma writes_evict: "store_inv st \<Longrightarrow> writes (evict now st) = writes st"
  using evict_facts(4) by (simp add: same_config_def)

lemma writes_put [simp]: "writes (put k e st) = writes st" "writes (schedule k t st) = writes st"
  by (simp_all add: put_def schedule_def Let_def)

lemma writes_set: "store_inv st \<Longrightarrow> writes (store_set now now' k v ttl st) = Suc (writes st)"
  unfolding store_set_def Let_def
  by (subst writes_evict)
    (auto intro!: inv_intros store_inv_put_plain store_inv_put_schedule split: option.splits)


section \<open>SET\<close>

lemma parse_set_length: "parse_set args = Inr opts \<Longrightarrow> 2 \<le> length args"
  by (auto simp: parse_set_def split: list.splits)

text \<open>The condition under which SET does nothing.\<close>

definition set_blocked :: "seconds \<Rightarrow> set_options \<Rightarrow> store \<Rightarrow> bool" where
  "set_blocked now opts st \<longleftrightarrow>
     nx opts \<and> live now st (okey opts) \<noteq> None \<or> xx opts \<and> live now st (okey opts) = None"

text \<open>The store on which SET finally writes, or which it leaves behind: only reads so far.\<close>

definition set_probe :: "seconds \<Rightarrow> set_options \<Rightarrow> store \<Rightarrow> store" where
  "set_probe now opts st =
     (let st1 = snd (store_exists now (okey opts) st)
      in if oget opts then snd (store_get now (okey opts) st1) else st1)"

lemma set_probe_facts:
  "writes (set_probe now opts st) = writes st" "evicted (set_probe now opts st) = evicted st"
  "now \<le> t \<Longrightarrow> live t (set_probe now opts st) = live t st"
  "cmd_inv st \<Longrightarrow> cmd_inv (set_probe now opts st)"
  by (simp_all add: set_probe_def Let_def live_exists store_get_refines inv_intros)

lemma cmd_set_run:
  assumes "cmd_inv st" and "parse_set args = Inr opts"
  shows "cmd_set c args st =
    (let k = okey opts; old = (if oget opts then reply_of (live (mono c) st k) else PyNone);
         s = set_probe (mono c) opts st
     in if set_blocked (mono c) opts st then (Inr old, s)
        else (Inr (if oget opts then old else OK),
              store_set (mono c) (mono c) k (PyArg (oval opts)) (ottl opts) s))"
  using assms parse_set_length [OF assms(2)] store_exists_iff [OF cmd_invD(2) [OF assms(1)]]
  by (auto simp: cmd_set_def set_probe_def set_blocked_def Let_def case_prod_beta store_get_reply live_exists)

lemma dispatch_set:
  assumes "cmd_inv st" and "named f ''SET''" and "parse_set args = Inr opts"
    and "st' = snd (dispatch c (f # args) st)" and "mono c \<le> t"
    and "E = drop (length (evicted st)) (evicted st')"
    and "old = (if oget opts then reply_of (live (mono c) st (okey opts)) else PyNone)"
  shows "if set_blocked (mono c) opts st
     then fst (dispatch c (f # args) st) = Inr old \<and> live t st' = live t st \<and> writes st' = writes st
     else fst (dispatch c (f # args) st) = Inr (if oget opts then old else OK) \<and>
       writes st' = Suc (writes st) \<and> evicted st' = evicted st @ E \<and> okey opts \<notin> set E \<and>
       live t st' = ((live t st)(okey opts :=
          view_entry t (PyArg (oval opts)) (map_option (\<lambda>x. mono c + x) (ottl opts)))) |` (- set E)"
proof -
  have in_set: "(''SET'', cmd_set) \<in> set COMMANDS" by (simp add: COMMANDS_def)
  note run = dispatch_named [OF assms(2) in_set, of c args st]
    cmd_set_run [OF assms(1,3), of c, unfolded Let_def]
  let ?s = "set_probe (mono c) opts st"
  have inv: "store_inv ?s" using set_probe_facts(4) [OF assms(1)] by (simp add: cmd_inv_def)
  show ?thesis
  proof (cases "set_blocked (mono c) opts st")
    case True
    with run assms set_probe_facts(1,3) show ?thesis by simp
  next
    case False
    with run assms(4) have st': "st' = store_set (mono c) (mono c) (okey opts) (PyArg (oval opts)) (ottl opts) ?s"
      by simp
    from store_set_refines [OF inv assms(5) st'] assms(6) False run assms(7) show ?thesis
      by (simp add: set_probe_facts assms(5) st' writes_set [OF inv])
  qed
qed


section \<open>Reading and deleting keys\<close>

context kv_contract
begin

text \<open>Counting with a test on what is read counts a key as often as it is named.\<close>

lemma fetch_count:
  "ok s \<Longrightarrow> fst (count_loop (\<lambda>k s. map_prod p id (fetch k s)) ks s)
     = int (length (filter (\<lambda>k. p (render (view s k))) ks)) \<and>
   view (snd (count_loop (\<lambda>k s. map_prod p id (fetch k s)) ks s)) = view s"
  by (induction ks arbitrary: s) (simp_all add: view_fetch fetch_value ok_fetch)

end

lemma lookup_simps_cmd:
  "fst (lookup c k st) = reply_of (live (mono c) st k)"
  "mono c \<le> t \<Longrightarrow> live t (snd (lookup c k st)) = live t st"
  by (auto simp: lookup_def case_prod_beta store_get_reply store_get_refines)

interpretation kvl: kv_contract "live (mono c)" cmd_inv "lookup c" "store_delete (mono c)" reply_of for c
proof
  fix s :: store and k :: arg
  assume "cmd_inv s"
  then show "cmd_inv (snd (lookup c k s))" "cmd_inv (snd (store_delete (mono c) k s))"
    by (simp_all add: cinv.I_lookup inv_intros)
  show "live (mono c) (snd (lookup c k s)) = live (mono c) s"
    "fst (lookup c k s) = reply_of (live (mono c) s k)"
    by (simp_all add: lookup_simps_cmd)
  show "live (mono c) (snd (store_delete (mono c) k s)) = (live (mono c) s)(k := None)"
    "fst (store_delete (mono c) k s) \<longleftrightarrow> live (mono c) s k \<noteq> None"
    by (rule store_delete_refines)+
qed

text \<open>The hit and miss counters.\<close>

lemma lookup_counters:
  assumes "all_args st"
  shows "hits (snd (lookup c k st)) = hits st + (if live (mono c) st k = None then 0 else 1)"
    and "misses (snd (lookup c k st)) = misses st + (if live (mono c) st k = None then 1 else 0)"
proof -
  have "hits (snd (store_get (mono c) k st)) = hits st" "misses (snd (store_get (mono c) k st)) = misses st"
    by (auto simp: store_get_def lookup_live_def store_remove_def split: option.splits)
  then show "hits (snd (lookup c k st)) = hits st + (if live (mono c) st k = None then 0 else 1)"
    and "misses (snd (lookup c k st)) = misses st + (if live (mono c) st k = None then 1 else 0)"
    using reply_of_None [OF assms, of "mono c" k]
    by (auto simp: lookup_def case_prod_beta store_get_reply)
qed

lemma lookup_loop_counters:
  "cmd_inv st \<Longrightarrow>
   hits (snd (map_loop (lookup c) ks st)) = hits st + length (filter (\<lambda>k. live (mono c) st k \<noteq> None) ks) \<and>
   misses (snd (map_loop (lookup c) ks st)) = misses st + length (filter (\<lambda>k. live (mono c) st k = None) ks)"
  by (induction ks arbitrary: st)
    (auto simp: lookup_counters cmd_invD cinv.I_lookup lookup_simps_cmd)

lemma dispatch_mget:
  assumes "cmd_inv st" and "named f ''MGET''" and "ks \<noteq> []"
  shows "fst (dispatch c (f # ks) st) = Inr (PyList (map (\<lambda>k. reply_of (live (mono c) st k)) ks)) \<and>
     live (mono c) (snd (dispatch c (f # ks) st)) = live (mono c) st"
  using dispatch_named [OF assms(2), of cmd_mget c ks st] kvl.fetch_many [OF assms(1), of c ks] assms(3)
  by (cases ks) (simp_all add: COMMANDS_def cmd_mget_def)

lemma dispatch_get:
  assumes "cmd_inv st" and "named f ''GET''"
  shows "fst (dispatch c [f, k] st) = Inr (reply_of (live (mono c) st k)) \<and>
     live (mono c) (snd (dispatch c [f, k] st)) = live (mono c) st"
  using dispatch_named [OF assms(2), of cmd_get c "[k]" st] assms(1)
  by (simp add: COMMANDS_def cmd_get_def lookup_simps_cmd)

lemma dispatch_exists:
  assumes "cmd_inv st" and "named f ''EXISTS''" and "ks \<noteq> []"
  shows "fst (dispatch c (f # ks) st) = Inr (PyInt (int (length (filter (\<lambda>k. live (mono c) st k \<noteq> None) ks)))) \<and>
     live (mono c) (snd (dispatch c (f # ks) st)) = live (mono c) st"
  using dispatch_named [OF assms(2), of cmd_exists c ks st]
    kvl.fetch_count [OF assms(1), of "\<lambda>v. v \<noteq> PyNone" c ks] assms(3) reply_of_None [OF cmd_invD(2) [OF assms(1)]]
  by (cases ks) (simp_all add: COMMANDS_def cmd_exists_def)

lemma dispatch_del:
  assumes "cmd_inv st" and "named f ''DEL''" and "ks \<noteq> []"
  shows "fst (dispatch c (f # ks) st) = Inr (PyInt (int (card (set ks \<inter> dom (live (mono c) st))))) \<and>
     live (mono c) (snd (dispatch c (f # ks) st)) = live (mono c) st |` (- set ks)"
  using dispatch_named [OF assms(2), of cmd_del c ks st] kvl.drop_many [OF assms(1), of c ks] assms(3)
  by (cases ks) (simp_all add: COMMANDS_def cmd_del_def)


section \<open>MSET\<close>

text \<open>The pairs of an argument list.\<close>

fun arg_pairs :: "arg list \<Rightarrow> (arg \<times> arg) list" where
  "arg_pairs (k # v # rest) = (k, v) # arg_pairs rest"
| "arg_pairs _ = []"

definition assign_all :: "(arg \<times> arg) list \<Rightarrow> (arg \<rightharpoonup> pyobj \<times> seconds option) \<Rightarrow> arg \<rightharpoonup> pyobj \<times> seconds option" where
  "assign_all ps m = fold (\<lambda>(k, v) m. m(k \<mapsto> (PyArg v, None))) ps m"

lemma assign_all_Cons [simp]: "assign_all ((k, v) # ps) m = assign_all ps (m(k \<mapsto> (PyArg v, None)))"
  by (simp add: assign_all_def)

lemma assign_all_mono: "m \<subseteq>\<^sub>m m' \<Longrightarrow> assign_all ps m \<subseteq>\<^sub>m assign_all ps m'"
proof (induction ps arbitrary: m m')
  case (Cons p ps)
  then show ?case by (cases p) (auto intro!: Cons.IH simp: map_le_def)
qed (simp add: assign_all_def)

lemma store_set_evicted:
  assumes "store_inv st"
  shows "\<exists>E. evicted (store_set now now' k v ttl st) = evicted st @ E \<and> k \<notin> set E \<and>
     (now' \<le> t \<longrightarrow> live t (store_set now now' k v ttl st) =
        ((live t st)(k := view_entry t v (map_option (\<lambda>x. now + x) ttl))) |` (- set E))"
  using store_set_refines [where now = now and now' = now' and k = k and v = v and ttl = ttl, OF assms _ refl refl]
    order_refl [of now'] by blast

lemma mset_loop_view:
  "cmd_inv st \<Longrightarrow> mono c \<le> t \<Longrightarrow>
   live t (mset_loop c args st) \<subseteq>\<^sub>m assign_all (arg_pairs args) (live t st) \<and>
   (\<exists>E. evicted (mset_loop c args st) = evicted st @ E \<and>
        (E = [] \<longrightarrow> live t (mset_loop c args st) = assign_all (arg_pairs args) (live t st)))"
proof (induction c args st rule: mset_loop.induct)
  case (1 c k v rest st)
  let ?s = "store_set (mono c) (mono c) k (PyArg v) None st"
  obtain E where E: "evicted ?s = evicted st @ E"
    "live t ?s = ((live t st)(k \<mapsto> (PyArg v, None))) |` (- set E)"
    using store_set_evicted [OF cmd_invD(1) [OF 1(2)], of "mono c" "mono c" k "PyArg v" None t] 1(3) by auto
  have le: "live t ?s \<subseteq>\<^sub>m (live t st)(k \<mapsto> (PyArg v, None))"
    by (auto simp: E(2) map_le_def restrict_map_def dom_def)
  have same: "live t ?s = (live t st)(k \<mapsto> (PyArg v, None))" if "E = []"
    using E(2) that by (simp add: restrict_map_def fun_eq_iff)
  have inv: "cmd_inv ?s" using 1(2) by (simp add: inv_intros)
  from 1(1) [OF inv 1(3)] obtain E' where IH:
    "live t (mset_loop c rest ?s) \<subseteq>\<^sub>m assign_all (arg_pairs rest) (live t ?s)"
    "evicted (mset_loop c rest ?s) = evicted ?s @ E'"
    "E' = [] \<longrightarrow> live t (mset_loop c rest ?s) = assign_all (arg_pairs rest) (live t ?s)" by blast
  from IH(1) assign_all_mono [OF le, of "arg_pairs rest"]
  have "live t (mset_loop c (k # v # rest) st) \<subseteq>\<^sub>m assign_all (arg_pairs (k # v # rest)) (live t st)"
    by (auto intro: map_le_trans)
  moreover have "\<exists>E. evicted (mset_loop c (k # v # rest) st) = evicted st @ E \<and>
      (E = [] \<longrightarrow> live t (mset_loop c (k # v # rest) st) = assign_all (arg_pairs (k # v # rest)) (live t st))"
    using IH(2,3) E(1) same by (intro exI [of _ "E @ E'"]) auto
  ultimately show ?case by blast
qed (auto simp: assign_all_def)

lemma dispatch_mset:
  assumes "cmd_inv st" and "named f ''MSET''" and "mono c \<le> t"
    and "args \<noteq> []" and "even (length args)" and "st' = snd (dispatch c (f # args) st)"
  shows "fst (dispatch c (f # args) st) = Inr OK \<and>
     live t st' \<subseteq>\<^sub>m assign_all (arg_pairs args) (live t st) \<and>
     (evicted st' = evicted st \<longrightarrow> live t st' = assign_all (arg_pairs args) (live t st))"
proof -
  from assms(4,5) have "2 \<le> length args" by (cases args rule: arg_pairs.cases) auto
  with assms dispatch_named [OF assms(2), of cmd_mset c args st]
  have "fst (dispatch c (f # args) st) = Inr OK" and "st' = mset_loop c args st"
    by (simp_all add: COMMANDS_def cmd_mset_def)
  with mset_loop_view [OF assms(1,3), of args] show ?thesis by auto
qed


section \<open>Deadlines\<close>

text \<open>The time to live a command asks for, in seconds from now.\<close>

definition requested_ttl :: "clock \<Rightarrow> string \<Rightarrow> int \<Rightarrow> seconds" where
  "requested_ttl c n x =
     (if n = ''EXPIRE'' then of_int x
      else if n = ''PEXPIRE'' then of_int x / 1000
      else of_int x / 1000 - wall c)"

text \<open>The number it is given: EXPIRE and PEXPIRE take a 64-bit integer, PEXPIREAT what \<^verbatim>\<open>int()\<close> takes.\<close>

definition expire_number :: "string \<Rightarrow> arg \<Rightarrow> int option" where
  "expire_number n a =
     (if n = ''PEXPIREAT'' then
        (case py_int_str (to_text a) of Inr x \<Rightarrow> if \<bar>x\<bar> < MAX_FLOAT_MS then Some x else None | Inl _ \<Rightarrow> None)
      else (case cmd_parse_int a of Inr x \<Rightarrow> Some x | Inl _ \<Rightarrow> None))"

lemma expire_commands:
  assumes "named f n" and "n = ''EXPIRE'' \<or> n = ''PEXPIRE'' \<or> n = ''PEXPIREAT''" and "expire_number n a = Some x"
  shows "dispatch c [f, k, a] st =
    map_prod (\<lambda>b. Inr (PyBool b)) id (store_expire (mono c) (mono c) k (requested_ttl c n x) st)"
  using assms(2)
proof (elim disjE)
  assume n: "n = ''EXPIRE''"
  with assms dispatch_named [OF assms(1), of cmd_expire c "[k, a]" st] show ?thesis
    by (auto simp: COMMANDS_def cmd_expire_def expire_number_def requested_ttl_def returning_def
        map_prod_def case_prod_beta split: sum.splits)
next
  assume n: "n = ''PEXPIRE''"
  with assms dispatch_named [OF assms(1), of cmd_pexpire c "[k, a]" st] show ?thesis
    by (auto simp: COMMANDS_def cmd_pexpire_def expire_number_def requested_ttl_def returning_def
        map_prod_def case_prod_beta split: sum.splits)
next
  assume n: "n = ''PEXPIREAT''"
  with assms dispatch_named [OF assms(1), of cmd_pexpireat c "[k, a]" st] show ?thesis
    by (auto simp: COMMANDS_def cmd_pexpireat_def expire_number_def requested_ttl_def returning_def
        expire_at_unix_def map_prod_def case_prod_beta split: sum.splits if_splits)
qed

lemma dispatch_expire:
  assumes "named f n" and "n = ''EXPIRE'' \<or> n = ''PEXPIRE'' \<or> n = ''PEXPIREAT''" and "expire_number n a = Some x"
    and "mono c \<le> t"
  shows "fst (dispatch c [f, k, a] st) = Inr (PyBool (live (mono c) st k \<noteq> None)) \<and>
     live t (snd (dispatch c [f, k, a] st)) =
       (case live (mono c) st k of
          None \<Rightarrow> live t st
        | Some (v, _) \<Rightarrow> (live t st)(k := view_entry t v (Some (mono c + requested_ttl c n x))))"
  using store_expire_refines [OF assms(4)] by (simp add: expire_commands [OF assms(1-3)])

lemma dispatch_ttl:
  assumes "named f ''TTL''"
  shows "fst (dispatch c [f, k] st) = Inr (PyInt
     (case live (mono c) st k of None \<Rightarrow> -2 | Some (_, None) \<Rightarrow> -1 | Some (_, Some d) \<Rightarrow> \<lceil>d - mono c\<rceil>)) \<and>
     (\<forall>v d. live (mono c) st k = Some (v, Some d) \<longrightarrow> 1 \<le> \<lceil>d - mono c\<rceil>) \<and>
     live (mono c) (snd (dispatch c [f, k] st)) = live (mono c) st"
proof -
  have pos: "mono c < d" if "live (mono c) st k = Some (v, Some d)" for v d
    using that by (auto simp: live_def is_expired_def split: option.splits if_splits)
  moreover have "ttl_reply (fst (store_ttl (mono c) (mono c) k st)) = PyInt
     (case live (mono c) st k of None \<Rightarrow> -2 | Some (_, None) \<Rightarrow> -1 | Some (_, Some d) \<Rightarrow> \<lceil>d - mono c\<rceil>)"
    using pos by (auto simp: store_ttl_refines ttl_reply_def math_ceil_def max_def split: option.splits)
  ultimately show ?thesis
    using dispatch_named [OF assms, of cmd_ttl c "[k]" st]
    by (auto simp: COMMANDS_def cmd_ttl_def store_ttl_refines)
qed

lemma dispatch_persist:
  assumes "named f ''PERSIST''" and "mono c \<le> t"
  shows "fst (dispatch c [f, k] st) = Inr (PyBool (\<exists>v d. live (mono c) st k = Some (v, Some d))) \<and>
     live t (snd (dispatch c [f, k] st)) =
       (case live (mono c) st k of Some (v, Some _) \<Rightarrow> (live t st)(k \<mapsto> (v, None)) | _ \<Rightarrow> live t st)"
  using dispatch_named [OF assms(1), of cmd_persist c "[k]" st] store_persist_refines [OF assms(2)]
  by (simp add: COMMANDS_def cmd_persist_def)


section \<open>The key space\<close>

lemma match_keys_Inr:
  "match_keys pat keys = Inr ks \<Longrightarrow>
   ks = filter (\<lambda>k. fnmatchcase (glob_chars k) (glob_chars (projr (like k pat)))) keys"
  by (induction keys arbitrary: ks) (auto simp: sum_bind_eq_Inr map_sum_eq_Inr)

lemma match_keys_bytes: "\<exists>ks. match_keys (Bytes b) keys = Inr ks"
  by (induction keys) (auto simp: like_def sum_bind_eq_Inr split: arg.splits)

lemma like_bytes: "like (Bytes x) (Bytes b) = Inr (Bytes b)"
  by (simp add: like_def)

lemma dispatch_keys:
  assumes "cmd_inv st" and "named f ''KEYS''" and "list_all (\<lambda>k. \<exists>b. k = Bytes b) (od_keys (data st))"
  shows "\<exists>ks. fst (dispatch c [f, Bytes pat] st) = Inr (PyList (map PyArg ks)) \<and> distinct ks \<and>
     set ks = {k \<in> dom (live (mono c) st). fnmatchcase (glob_chars k) (map of_char pat)} \<and>
     live (mono c) (snd (dispatch c [f, Bytes pat] st)) = live (mono c) st"
proof -
  note keys = store_keys_refines [OF cmd_invD(1) [OF assms(1)]]
  obtain ks where ks: "match_keys (Bytes pat) (fst (store_keys (mono c) st)) = Inr ks"
    using match_keys_bytes by blast
  have b: "\<exists>b. k = Bytes b" if "k \<in> dom (live (mono c) st)" for k
    using that assms(3) od.lookup_keys [of "data st" k]
    by (fastforce simp: live_def list_all_iff split: option.splits)
  have "fst (dispatch c [f, Bytes pat] st) = Inr (PyList (map PyArg ks))"
    and "snd (dispatch c [f, Bytes pat] st) = snd (store_keys (mono c) st)"
    using dispatch_named [OF assms(2), of cmd_keys c "[Bytes pat]" st] ks
    by (simp_all add: COMMANDS_def cmd_keys_def case_prod_beta)
  moreover have "distinct ks" using match_keys_Inr [OF ks] keys(2) [of "mono c"] by simp
  moreover have "set ks = {k \<in> dom (live (mono c) st). fnmatchcase (glob_chars k) (map of_char pat)}"
    using match_keys_Inr [OF ks] keys(2) [of "mono c"] b by (fastforce simp: like_bytes glob_chars_def)
  ultimately show ?thesis using keys(1) [of "mono c" "mono c"] by auto
qed

lemma dispatch_dbsize:
  assumes "cmd_inv st" and "named f ''DBSIZE''"
  shows "fst (dispatch c [f] st) = Inr (PyInt (int (card (dom (live (mono c) st)))))"
  using dispatch_named [OF assms(2), of cmd_dbsize c "[]" st]
    store_keys_refines(3) [OF cmd_invD(1) [OF assms(1)], of "mono c"]
  by (simp add: COMMANDS_def cmd_dbsize_def)


section \<open>Counters\<close>

lemma cmd_parse_int_Inr: "cmd_parse_int a = Inr n \<Longrightarrow> INT64_MIN \<le> n \<and> n \<le> INT64_MAX"
  by (auto simp: cmd_parse_int_def Let_def split: if_splits sum.splits)

lemma cmd_parse_int_str_int:
  assumes "INT64_MIN \<le> n" and "n \<le> INT64_MAX" and "to_text a = ascii_str (str_int n)"
  shows "cmd_parse_int a = Inr n"
  using assms INT_RE_str_int [of n] py_int_str_str_int [OF int64_digits, of n]
  by (simp add: cmd_parse_int_def INT64_MIN_def INT64_MAX_def)

text \<open>The argument of a counter command, if any, and the number it adds.\<close>

definition counter_delta :: "string \<Rightarrow> arg list \<Rightarrow> int option" where
  "counter_delta n extra =
     (if n = ''INCR'' \<and> extra = [] then Some 1
      else if n = ''DECR'' \<and> extra = [] then Some (-1)
      else (case extra of
              [a] \<Rightarrow> (case cmd_parse_int a of
                        Inr x \<Rightarrow> if n = ''INCRBY'' then Some x else if n = ''DECRBY'' then Some (- x) else None
                      | Inl _ \<Rightarrow> None)
            | _ \<Rightarrow> None))"

lemma counter_commands:
  assumes "named f n" and "counter_delta n extra = Some delta"
  shows "dispatch c (f # k # extra) st = map_prod (reply_or_raise (ascii_str n)) id (incr_by c k delta st)"
proof -
  consider "n = ''INCR''" "extra = []" "delta = 1" | "n = ''DECR''" "extra = []" "delta = -1"
    | a x where "n = ''INCRBY''" "extra = [a]" "cmd_parse_int a = Inr x" "delta = x"
    | a x where "n = ''DECRBY''" "extra = [a]" "cmd_parse_int a = Inr x" "delta = - x"
    using assms(2) by (auto simp: counter_delta_def split: if_splits list.splits sum.splits)
  then show ?thesis
    by cases (use assms(1) dispatch_named [of f n _ c "k # extra" st] in
      \<open>auto simp: COMMANDS_def cmd_incr_def cmd_decr_def cmd_incrby_def cmd_decrby_def\<close>)
qed

text \<open>A counter command adds its argument to a number that is stored or taken to be 0, keeps the
  deadline, and stores a text of the kind it found; the result always fits into 64 bits.\<close>

lemma dispatch_counter:
  assumes "cmd_inv st" and "named f n" and "counter_delta n extra = Some delta"
    and "counter_base (mono c) k st = Inr b" and "INT64_MIN \<le> b + delta" "b + delta \<le> INT64_MAX"
    and "st' = snd (dispatch c (f # k # extra) st)" and "mono c \<le> t"
    and "E = drop (length (evicted st)) (evicted st')"
  shows "fst (dispatch c (f # k # extra) st) = Inr (PyInt (b + delta)) \<and>
     evicted st' = evicted st @ E \<and> k \<notin> set E \<and>
     live t st' = ((live t st)(k := (case live (mono c) st k of
          None \<Rightarrow> Some (counter_obj (PyArg k) (b + delta), None)
        | Some (v, d) \<Rightarrow> view_entry t (counter_obj v (b + delta)) d))) |` (- set E) \<and>
     counter_base (mono c) k st' = Inr (b + delta)"
proof -
  note run = counter_commands [OF assms(2,3), of c k st, unfolded incr_by_def]
  have st': "st' = snd (store_incr (mono c) (mono c) k delta st)"
    using run assms(7) by simp
  note ref = store_incr_refines [OF cmd_invD(1) [OF assms(1)] _ _ assms(4-6) st', OF _ _ assms(9)]
  have "live (mono c) st' k = (case live (mono c) st k of
          None \<Rightarrow> Some (counter_obj (PyArg k) (b + delta), None)
        | Some (v, d) \<Rightarrow> view_entry (mono c) (counter_obj v (b + delta)) d)"
    using ref [of "mono c"] by (simp add: restrict_map_def)
  moreover have "view_entry (mono c) w d = Some (w, d)" if "live (mono c) st k = Some (v, d)" for v d w
    using that by (auto simp: live_def view_entry_def is_expired_def split: option.splits if_splits)
  ultimately have "counter_base (mono c) k st' = Inr (b + delta)"
    using stored_int_counter_obj [OF assms(5,6)]
    by (auto simp: counter_base_def split: option.splits)
  with ref [OF assms(8,8)] run show ?thesis by simp
qed

text \<open>A value that is no 64-bit integer, or a result outside that range, is refused.\<close>

lemma dispatch_counter_refused:
  assumes "named f n" and "counter_delta n extra = Some delta" and "mono c \<le> t"
    and "counter_base (mono c) k st = Inl msg \<or>
         (\<exists>b. counter_base (mono c) k st = Inr b \<and> \<not> (INT64_MIN \<le> b + delta \<and> b + delta \<le> INT64_MAX))"
  shows "(\<exists>m. fst (dispatch c (f # k # extra) st) = Inr (Error m)) \<and>
     live t (snd (dispatch c (f # k # extra) st)) = live t st"
proof -
  note run = counter_commands [OF assms(1,2), of c k st, unfolded incr_by_def]
  from store_incr_error [OF assms(3,4), of "mono c"] run show ?thesis
    by (cases "fst (store_incr (mono c) (mono c) k delta st)") auto
qed


section \<open>Errors\<close>

text \<open>The answers that report a failure: an error reply, or an exception that leaves \<^verbatim>\<open>dispatch\<close>.\<close>

definition failed :: "'e + pyobj \<Rightarrow> bool" where
  "failed r = (case r of Inl _ \<Rightarrow> True | Inr (Error _) \<Rightarrow> True | Inr _ \<Rightarrow> False)"

lemma failed_simps [simp]:
  "failed (Inl e)" "failed (Inr (Error m))" "\<not> failed (Inr (PyInt n))" "\<not> failed (Inr (PyBool b))"
  "\<not> failed (Inr OK)" "\<not> failed (Inr (PyList xs))" "\<not> failed (Inr PyNone)" "\<not> failed (Inr (PyArg a))"
  "\<not> failed (Inr (SimpleString s))"
  by (simp_all add: failed_def OK_def)

lemma failed_reply: "failed (reply_or_raise n r) \<Longrightarrow> failed r"
  by (cases r) (auto simp: failed_def)

lemma not_failed_reply_of: "all_args st \<Longrightarrow> \<not> failed (Inr (reply_of (live t st k)))"
  by (auto simp: reply_of_def dest!: live_arg elim: is_argE split: option.splits)

lemma failed_guarded:
  "(\<And>x. m = Inr x \<Longrightarrow> failed (fst (f x st)) \<Longrightarrow> live t (snd (f x st)) = live t st) \<Longrightarrow>
   failed (fst (guarded m f st)) \<Longrightarrow> live t (snd (guarded m f st)) = live t st"
  by (simp add: guarded_def split: sum.splits)

lemma failed_incr:
  "now \<le> t \<Longrightarrow> fst (store_incr now now' k delta st) = Inl msg \<Longrightarrow>
   live t (snd (store_incr now now' k delta st)) = live t st"
  using live_lookup_live [of now t k st]
  by (auto simp: store_incr_def Let_def split: prod.splits option.splits sum.splits if_splits)

lemma failed_incr_by:
  "mono c \<le> t \<Longrightarrow> failed (fst (incr_by c k n st)) \<Longrightarrow> live t (snd (incr_by c k n st)) = live t st"
  by (cases "fst (store_incr (mono c) (mono c) k n st)") (auto simp: incr_by_def failed_incr)

lemma failed_set:
  assumes "cmd_inv st" and "mono c \<le> t" and "failed (fst (cmd_set c args st))"
  shows "live t (snd (cmd_set c args st)) = live t st"
proof (cases "parse_set args")
  case (Inl e)
  then show ?thesis by (simp add: cmd_set_def guarded_def split: sum.splits)
next
  case (Inr opts)
  have "\<not> failed (Inr (if oget opts then reply_of (live (mono c) st (okey opts)) else PyNone) :: exc + pyobj)"
    "\<not> failed (Inr (if oget opts then reply_of (live (mono c) st (okey opts)) else OK) :: exc + pyobj)"
    using not_failed_reply_of [OF cmd_invD(2) [OF assms(1)]] by auto
  with assms(3) cmd_set_run [OF assms(1) Inr, of c] show ?thesis
    by (auto simp: Let_def split: if_splits)
qed

lemma live_lookup_loop: "mono c \<le> t \<Longrightarrow> live t (snd (map_loop (lookup c) ks st)) = live t st"
  by (induction ks arbitrary: st) (simp_all add: lookup_simps_cmd)

lemma failed_keys:
  "cmd_inv st \<Longrightarrow> mono c \<le> t \<Longrightarrow> live t (snd (cmd_keys c args st)) = live t st"
  using store_keys_refines(1) [OF cmd_invD(1), of st "mono c" t]
  by (auto simp: cmd_keys_def case_prod_beta split: list.splits)

lemma failed_handlers:
  assumes "cmd_inv st" and "mono c \<le> t"
  shows "list_all (\<lambda>(n, h). failed (fst (h c args st)) \<longrightarrow> live t (snd (h c args st)) = live t st) COMMANDS"
proof -
  note unf = cmd_ping_def cmd_echo_def cmd_get_def cmd_mset_def cmd_mget_def cmd_incr_def
    cmd_decr_def cmd_incrby_def cmd_decrby_def cmd_del_def cmd_exists_def cmd_expire_def cmd_pexpire_def
    cmd_pexpireat_def cmd_ttl_def cmd_persist_def cmd_flushdb_def cmd_dbsize_def
  have ttl: "\<not> failed (Inr (ttl_reply x) :: exc + pyobj)" for x
    by (auto simp: ttl_reply_def split: option.splits)
  show ?thesis
    unfolding COMMANDS_def list.pred_inject
    using assms
    by (simp; intro conjI impI;
        auto simp: unf failed_incr_by lookup_simps_cmd live_lookup_loop ttl failed_keys failed_set
          split: list.splits sum.splits if_splits elim!: failed_guarded [rotated])
qed

text \<open>A command that fails changes nothing a client can see.\<close>

lemma dispatch_failed:
  assumes "cmd_inv st" and "mono c \<le> t" and "failed (fst (dispatch c command st))"
  shows "live t (snd (dispatch c command st)) = live t st"
proof -
  have "live t (snd (h c args st)) = live t st"
    if "command_handler name = Some h" and "failed (reply_or_raise name (fst (h c args st)))" for name h args
    using failed_handlers [OF assms(1,2), of args] command_handler_in [OF that(1)] failed_reply [OF that(2)]
    by (auto simp: list_all_iff)
  with assms(3) show ?thesis
    by (auto simp: dispatch_def Let_def split: list.splits option.splits)
qed

text \<open>A number of more than 4300 digits is refused by \<^verbatim>\<open>int()\<close> with a ValueError that
  \<^verbatim>\<open>dispatch\<close> does not turn into a reply.\<close>

lemma py_int_bytes_long:
  assumes "list_all is_digit s" and "int_max_str_digits < length s"
  shows "py_int_bytes s = Inl (Too_many_digits (length s))"
proof -
  from assms(2) have "s \<noteq> []" by auto
  with assms(1) have "is_digit (hd s)" "is_digit (last s)" by (auto simp: list_all_iff)
  with \<open>s \<noteq> []\<close> have "py_strip s = s" by (intro py_strip_id) (auto dest: digit_not_special)
  with \<open>s \<noteq> []\<close> \<open>is_digit (hd s)\<close> assms show ?thesis
    by (cases s) (auto simp: py_int_bytes_def unsigned_int_def int_digits_all dest: digit_not_special)
qed

lemma digits_text:
  assumes "list_all is_digit s" and "s \<noteq> []"
  shows "to_text (Bytes s) = ascii_str s" "py_int_str (ascii_str s) = py_int_bytes s"
    "INT_RE_fullmatch (ascii_str s)"
proof -
  from assms(1) have "is_ascii s" by (auto simp: list_all_iff digit_ascii)
  then show "to_text (Bytes s) = ascii_str s" "py_int_str (ascii_str s) = py_int_bytes s"
    by (simp_all add: to_text_def utf8_decode_ascii py_int_str_ascii)
  from assms show "INT_RE_fullmatch (ascii_str s)"
    by (cases s) (auto simp: ascii_str_def list_all_iff is_digit_cp_of_char is_digit_def Let_def)
qed

lemma dispatch_long_int:
  assumes "named f n" and "n = ''INCRBY'' \<or> n = ''DECRBY'' \<or> n = ''EXPIRE'' \<or> n = ''PEXPIRE''"
    and "list_all is_digit ds" and "int_max_str_digits < length ds"
  shows "dispatch c [f, k, Bytes ds] st = (Inl (ValueErr (Too_many_digits (length ds))), st)"
proof -
  from assms(4) have "ds \<noteq> []" by auto
  from digits_text [OF assms(3) this] py_int_bytes_long [OF assms(3,4)]
  have "cmd_parse_int (Bytes ds) = Inl (Raised (ValueErr (Too_many_digits (length ds))))"
    by (simp add: cmd_parse_int_def)
  note this [simp] and run = dispatch_named [OF assms(1), of _ c "[k, Bytes ds]" st]
  show ?thesis
    using assms(2)
  proof (elim disjE)
    assume "n = ''INCRBY''"
    with run [of cmd_incrby] show ?thesis by (simp add: COMMANDS_def cmd_incrby_def)
  next
    assume "n = ''DECRBY''"
    with run [of cmd_decrby] show ?thesis by (simp add: COMMANDS_def cmd_decrby_def)
  next
    assume "n = ''EXPIRE''"
    with run [of cmd_expire] show ?thesis by (simp add: COMMANDS_def cmd_expire_def)
  next
    assume "n = ''PEXPIRE''"
    with run [of cmd_pexpire] show ?thesis by (simp add: COMMANDS_def cmd_pexpire_def)
  qed
qed

end
