(* ===== verification/Aof_Log.thy ===== *)
theory Aof_Log
  imports Kv_Semantics "HOL-Library.Sublist"
begin

text \<open>
  The append-only file (\<^verbatim>\<open>aof.py\<close>): which commands are logged and in which form, the log object, the
  rewrite, and the replay at start-up.

  The log is the bytes the operating system has for the path (\<open>contents\<close>) and, as a ghost of the
  model, the bytes the last completed fsync covered (\<open>on_disk\<close>). An operation that suspends is split at
  its suspension points into steps; \<open>aof_step\<close> interleaves them under the commit lock.
\<close>

section \<open>Commands as they are logged\<close>

definition WRITE_COMMANDS :: "string list" where
  "WRITE_COMMANDS = [''SET'', ''MSET'', ''DEL'', ''INCR'', ''DECR'', ''INCRBY'', ''DECRBY'', ''EXPIRE'',
     ''PEXPIRE'', ''PEXPIREAT'', ''PERSIST'', ''FLUSHDB'']"

definition FSYNC_POLICIES :: "string list" where
  "FSYNC_POLICIES = [''always'', ''everysec'', ''no'']"

definition is_write_command :: "pystr \<Rightarrow> bool" where
  "is_write_command name = List.member (map ascii_str WRITE_COMMANDS) (str_upper name)"

definition deadline_ms :: "seconds \<Rightarrow> seconds \<Rightarrow> int" where
  "deadline_ms now s = py_round ((now + s) * 1000)"

text \<open>\<^verbatim>\<open>float(text)\<close>: sign, decimal digits with an optional point and exponent, or one of the words for
  infinity and not-a-number. A number is kept exactly; one that rounds beyond the largest float is
  infinite.\<close>

datatype pyfloat = Finite rat | Infinite | NaN

definition float_of_rat :: "rat \<Rightarrow> pyfloat" where
  "float_of_rat x = (if of_int (2 ^ 1024 - 2 ^ 970) \<le> \<bar>x\<bar> then Infinite else Finite x)"

definition digits_or_none :: "bytes \<Rightarrow> nat list option" where
  "digits_or_none s = (if s = [] then Some [] else int_digits s)"

definition float_exponent :: "bytes \<Rightarrow> int option" where
  "float_exponent s =
     (case s of
        [] \<Rightarrow> None
      | c # cs \<Rightarrow>
          if c = CHR ''-'' then map_option (\<lambda>ds. - int (nat_of_digits ds)) (int_digits cs)
          else if c = CHR ''+'' then map_option (\<lambda>ds. int (nat_of_digits ds)) (int_digits cs)
          else map_option (\<lambda>ds. int (nat_of_digits ds)) (int_digits s))"

definition scale10 :: "nat \<Rightarrow> int \<Rightarrow> rat" where
  "scale10 m e = (if 0 \<le> e then of_nat m * 10 ^ nat e else of_nat m / 10 ^ nat (- e))"

definition unsigned_float :: "bytes \<Rightarrow> pyfloat option" where
  "unsigned_float s =
     (let low = map (\<lambda>c. let n = of_char c :: nat in if 65 \<le> n \<and> n \<le> 90 then char_of (n + 32) else c) s
      in if low = ''inf'' \<or> low = ''infinity'' then Some Infinite
         else if low = ''nan'' then Some NaN
         else
           let mant = takeWhile (\<lambda>c. c \<noteq> CHR ''e'') low;
               ex = drop (length mant) low;
               whole = takeWhile (\<lambda>c. c \<noteq> CHR ''.'') mant;
               frac = drop (Suc (length whole)) mant
           in if whole = [] \<and> frac = [] then None
              else case digits_or_none whole of
                None \<Rightarrow> None
              | Some ws \<Rightarrow>
                  (case digits_or_none frac of
                     None \<Rightarrow> None
                   | Some fs \<Rightarrow>
                       (case (if ex = [] then Some 0 else float_exponent (tl ex)) of
                          None \<Rightarrow> None
                        | Some e \<Rightarrow>
                            Some (float_of_rat (scale10 (nat_of_digits (ws @ fs)) (e - int (length fs)))))))"

definition py_float_str :: "pystr \<Rightarrow> pyfloat option" where
  "py_float_str text =
     (case py_strip (map ascii_of_cp text) of
        [] \<Rightarrow> None
      | c # cs \<Rightarrow>
          if c = CHR ''-'' then
            map_option (\<lambda>x. case x of Finite r \<Rightarrow> Finite (- r) | y \<Rightarrow> y) (unsigned_float cs)
          else if c = CHR ''+'' then unsigned_float cs
          else unsigned_float (c # cs))"

text \<open>\<^verbatim>\<open>int(round((now + x) * 1000))\<close>: an infinity raises OverflowError, not-a-number ValueError.\<close>

definition float_deadline :: "seconds \<Rightarrow> pyfloat \<Rightarrow> py_exc + int" where
  "float_deadline now x =
     (case x of
        Finite r \<Rightarrow> Inr (deadline_ms now r)
      | Infinite \<Rightarrow> Inl OverflowErr
      | NaN \<Rightarrow> Inl (ValueErr Invalid_literal))"

abbreviation word_arg :: "string \<Rightarrow> arg" where "word_arg s \<equiv> Str (ascii_str s)"

definition pexpireat_command :: "arg \<Rightarrow> int \<Rightarrow> arg list" where
  "pexpireat_command k ms = [word_arg ''PEXPIREAT'', k, word_arg (str_int ms)]"

definition to_aof_commands :: "seconds \<Rightarrow> arg list \<Rightarrow> py_exc + arg list list" where
  "to_aof_commands now command =
     (let name = str_upper (to_text (hd command))
      in if name = ascii_str ''SET'' then
           (case parse_set (tl command) of
              Inl _ \<Rightarrow> Inr [command]
            | Inr opts \<Rightarrow>
                let set_command = [word_arg ''SET'', okey opts, oval opts]
                in case ottl opts of
                     None \<Rightarrow> Inr [set_command]
                   | Some ttl \<Rightarrow> Inr [set_command, pexpireat_command (okey opts) (deadline_ms now ttl)])
         else if name = ascii_str ''EXPIRE'' \<and> length command = 3 then
           (case py_float_str (to_text (command ! 2)) of
              None \<Rightarrow> Inl (ValueErr Invalid_literal)
            | Some x \<Rightarrow> map_sum id (\<lambda>ms. [pexpireat_command (command ! 1) ms]) (float_deadline now x))
         else if name = ascii_str ''PEXPIRE'' \<and> length command = 3 then
           (case py_int_str (to_text (command ! 2)) of
              Inl e \<Rightarrow> Inl (ValueErr e)
            | Inr n \<Rightarrow> Inr [pexpireat_command (command ! 1) (py_trunc (now * 1000) + n)])
         else Inr [command])"

text \<open>The commands of a rewrite: one SET for each live key, and its deadline as an absolute time.\<close>

definition rewrite_entry :: "seconds \<Rightarrow> arg \<times> pyobj \<times> seconds option \<Rightarrow> pyobj list list" where
  "rewrite_entry now = (\<lambda>(k, v, ttl).
     [PyArg (word_arg ''SET''), PyArg k, v] #
     (case ttl of None \<Rightarrow> [] | Some s \<Rightarrow> [map PyArg (pexpireat_command k (deadline_ms now s))]))"

definition build_rewrite_commands :: "clock \<Rightarrow> store \<Rightarrow> pyobj list list \<times> store" where
  "build_rewrite_commands c st =
     (case store_snapshot (mono c) (mono c) st of (entries, st1) \<Rightarrow>
        (concat (map (rewrite_entry (wall c)) entries), st1))"


section \<open>The log\<close>

record aof_log =
  contents :: bytes
  on_disk :: bytes
  fsync :: string
  rewrites_done :: nat
  dirty :: bool
  seq :: nat
  durable_seq :: nat
  rewrite_buffer :: "bytes list option"
  closed :: bool

text \<open>Opening appends to what the file already holds.\<close>

definition aof_open :: "bytes \<Rightarrow> string \<Rightarrow> string + aof_log" where
  "aof_open existing pol =
     (if \<not> List.member FSYNC_POLICIES pol then Inl pol
      else Inr \<lparr>contents = existing, on_disk = existing, fsync = pol, rewrites_done = 0, dirty = False, seq = 0,
                durable_seq = 0, rewrite_buffer = None, closed = False\<rparr>)"

definition aof_size :: "aof_log \<Rightarrow> nat" where
  "aof_size l = length (contents l)"

definition rewriting :: "aof_log \<Rightarrow> bool" where
  "rewriting l \<longleftrightarrow> rewrite_buffer l \<noteq> None"

definition append_bytes :: "bytes \<Rightarrow> aof_log \<Rightarrow> aof_log" where
  "append_bytes raw l =
     l\<lparr>contents := contents l @ raw,
       rewrite_buffer := map_option (\<lambda>b. b @ [raw]) (rewrite_buffer l),
       seq := Suc (seq l), dirty := True\<rparr>"

definition aof_append :: "arg list \<Rightarrow> aof_log \<Rightarrow> encode_error + aof_log" where
  "aof_append command l = map_sum id (\<lambda>raw. append_bytes raw l) (encode (command_obj command))"

text \<open>\<^verbatim>\<open>commit\<close> has nothing to wait for when the policy is not \<^verbatim>\<open>always\<close> or the records are durable.\<close>

definition commit_needed :: "nat \<Rightarrow> aof_log \<Rightarrow> bool" where
  "commit_needed s l \<longleftrightarrow> fsync l = ''always'' \<and> durable_seq l < s"

text \<open>The part of \<^verbatim>\<open>commit\<close> under the lock, in two steps around the fsync in a thread: the first
  returns the sequence number and the bytes that the fsync will cover.\<close>

definition commit_begin :: "nat \<Rightarrow> aof_log \<Rightarrow> (nat \<times> bytes) option" where
  "commit_begin s l = (if durable_seq l \<ge> s then None else Some (seq l, contents l))"

definition fsync_done :: "bytes \<Rightarrow> aof_log \<Rightarrow> aof_log" where
  "fsync_done covered l = (if length (on_disk l) < length covered then l\<lparr>on_disk := covered\<rparr> else l)"

definition commit_end :: "nat \<Rightarrow> bytes \<Rightarrow> aof_log \<Rightarrow> aof_log" where
  "commit_end upto_seq covered l = (fsync_done covered l)\<lparr>durable_seq := upto_seq\<rparr>"

text \<open>\<^verbatim>\<open>commit\<close> when nothing else runs during its fsync.\<close>

definition aof_commit :: "aof_log \<Rightarrow> aof_log" where
  "aof_commit l =
     (if \<not> commit_needed (seq l) l then l
      else case commit_begin (seq l) l of None \<Rightarrow> l | Some (upto_seq, covered) \<Rightarrow> commit_end upto_seq covered l)"

text \<open>\<^verbatim>\<open>sync\<close> clears the flag first and then calls fsync; \<^verbatim>\<open>sync_async\<close> runs it in a thread.\<close>

definition sync_begin :: "aof_log \<Rightarrow> (bytes \<times> aof_log) option" where
  "sync_begin l = (if dirty l \<and> \<not> closed l then Some (contents l, l\<lparr>dirty := False\<rparr>) else None)"

definition aof_sync :: "aof_log \<Rightarrow> aof_log" where
  "aof_sync l = (case sync_begin l of None \<Rightarrow> l | Some (covered, l1) \<Rightarrow> fsync_done covered l1)"

definition aof_close :: "aof_log \<Rightarrow> aof_log" where
  "aof_close l = (if closed l then l else (aof_sync l)\<lparr>closed := True\<rparr>)"

text \<open>
  \<^verbatim>\<open>rewrite\<close>: the first step builds the payload and starts buffering, the last one, under the lock,
  appends the buffered tail to the new file, makes it durable and puts it in the place of the old one.
\<close>

datatype rewrite_error = Rewrite_in_progress | Rewrite_encode encode_error

definition rewrite_begin :: "clock \<Rightarrow> store \<Rightarrow> aof_log \<Rightarrow> (rewrite_error + bytes \<times> nat \<times> aof_log) \<times> store" where
  "rewrite_begin c st l =
     (if rewriting l then (Inl Rewrite_in_progress, st)
      else case build_rewrite_commands c st of (commands, st1) \<Rightarrow>
        (case encode_all (map PyList commands) of
           Inl e \<Rightarrow> (Inl (Rewrite_encode e), st1)
         | Inr payload \<Rightarrow> (Inr (payload, length commands, l\<lparr>rewrite_buffer := Some []\<rparr>), st1)))"

definition rewrite_end :: "bytes \<Rightarrow> aof_log \<Rightarrow> aof_log" where
  "rewrite_end payload l =
     (let new_file = payload @ concat (case rewrite_buffer l of None \<Rightarrow> [] | Some b \<Rightarrow> b)
      in l\<lparr>contents := new_file, on_disk := new_file, durable_seq := seq l, dirty := False,
           rewrite_buffer := None, rewrites_done := Suc (rewrites_done l)\<rparr>)"

text \<open>A rewrite that fails drops the temporary file and the buffer; the log is as it was.\<close>

definition rewrite_abort :: "aof_log \<Rightarrow> aof_log" where
  "rewrite_abort l = l\<lparr>rewrite_buffer := None\<rparr>"


section \<open>Replay\<close>

text \<open>The loop of \<^verbatim>\<open>replay\<close>. \<open>clk i\<close> is the clock when the i-th command runs; \<open>good\<close> counts the bytes of the
  commands read so far. The result is the number of commands, the offset at which a bad tail is cut
  off, if there is one, and the store.\<close>

function replay_loop ::
  "(nat \<Rightarrow> clock) \<Rightarrow> bytes \<Rightarrow> nat \<Rightarrow> nat \<Rightarrow> store \<Rightarrow> py_exc + nat \<times> nat option \<times> store" where
  "replay_loop clk r cnt good st =
     (case read_command r of
        Inl _ \<Rightarrow> Inr (cnt, Some good, st)
      | Inr (None, _) \<Rightarrow> Inr (cnt, None, st)
      | Inr (Some command, r1) \<Rightarrow>
          let good1 = good + length (encode_command command)
          in if command = [] then replay_loop clk r1 cnt good1 st
             else (case dispatch (clk cnt) (map Bytes command) st of
                     (Inl e, _) \<Rightarrow> Inl e
                   | (Inr _, st1) \<Rightarrow> replay_loop clk r1 (Suc cnt) good1 st1))"
  by pat_completeness auto
termination replay_loop
  by (relation "measure (\<lambda>(clk, r, cnt, good, st). length r)") (auto dest: read_command_shorter)

declare replay_loop.simps [simp del]

text \<open>\<^verbatim>\<open>_discard_tail\<close>: the tail goes to a side file, the log is truncated; truncating to more than the
  size of a file fills it up with zeros.\<close>

definition truncate :: "nat \<Rightarrow> bytes \<Rightarrow> bytes" where
  "truncate n b = take n b @ replicate (n - length b) (CHR 0x00)"

definition discard_tail :: "nat \<Rightarrow> aof_log \<Rightarrow> bytes \<times> aof_log" where
  "discard_tail good l =
     (drop good (contents l), l\<lparr>contents := truncate good (contents l), on_disk := take good (on_disk l)\<rparr>)"

definition replay ::
  "(nat \<Rightarrow> clock) \<Rightarrow> aof_log \<Rightarrow> store \<Rightarrow> py_exc + nat \<times> bytes option \<times> aof_log \<times> store" where
  "replay clk l st =
     (if contents l = [] then Inr (0, None, l, st)
      else case replay_loop clk (contents l) 0 0 st of
        Inl e \<Rightarrow> Inl e
      | Inr (cnt, tail_at, st1) \<Rightarrow>
          let st2 = snd (drain_evictions st1)
          in (case tail_at of
                None \<Rightarrow> Inr (cnt, None, l, st2)
              | Some good \<Rightarrow>
                  (case discard_tail good l of (corrupt, l1) \<Rightarrow> Inr (cnt, Some corrupt, l1, st2))))"


section \<open>Replay of a well-formed file\<close>

text \<open>What replaying a list of commands does: all are dispatched in turn; an exception ends it.\<close>

fun run_commands :: "(nat \<Rightarrow> clock) \<Rightarrow> nat \<Rightarrow> bytes list list \<Rightarrow> store \<Rightarrow> py_exc + nat \<times> store" where
  "run_commands clk n [] st = Inr (n, st)"
| "run_commands clk n (cmd # cmds) st =
     (if cmd = [] then run_commands clk n cmds st
      else (case dispatch (clk n) (map Bytes cmd) st of
              (Inl e, _) \<Rightarrow> Inl e
            | (Inr _, st1) \<Rightarrow> run_commands clk (Suc n) cmds st1))"

definition log_bytes :: "bytes list list \<Rightarrow> bytes" where
  "log_bytes cmds = concat (map encode_command cmds)"

lemma log_bytes_simps [simp]:
  "log_bytes [] = []" "log_bytes (c # cs) = encode_command c @ log_bytes cs"
  "log_bytes (cs @ ds) = log_bytes cs @ log_bytes ds"
  by (simp_all add: log_bytes_def)

lemma encode_command_nonempty [simp]: "encode_command c \<noteq> []" "[] \<noteq> encode_command c"
  by (simp_all add: encode_command_def)

text \<open>The loop on the encoding of commands followed by anything: the commands run, and the loop goes on
  with the rest at the offset where it starts.\<close>

lemma replay_loop_commands:
  assumes "list_all ok_command cmds"
  shows "replay_loop clk (log_bytes cmds @ rest) n good st =
    (case run_commands clk n cmds st of
       Inl e \<Rightarrow> Inl e
     | Inr (n', st') \<Rightarrow> replay_loop clk rest n' (good + length (log_bytes cmds)) st')"
  using assms
proof (induction cmds arbitrary: n good st)
  case (Cons cmd cmds)
  have "replay_loop clk (encode_command cmd @ log_bytes cmds @ rest) n good st =
     (if cmd = [] then replay_loop clk (log_bytes cmds @ rest) n (good + length (encode_command cmd)) st
      else (case dispatch (clk n) (map Bytes cmd) st of
              (Inl e, _) \<Rightarrow> Inl e
            | (Inr _, st1) \<Rightarrow>
                replay_loop clk (log_bytes cmds @ rest) (Suc n) (good + length (encode_command cmd)) st1))"
    using Cons.prems by (simp add: replay_loop.simps [of clk "encode_command cmd @ _"] cmd.dec_enc)
  with Cons show ?case by (auto simp: add.assoc split: prod.splits sum.splits)
qed simp

lemma replay_loop_end: "replay_loop clk [] n good st = Inr (n, None, st)"
  by (simp add: replay_loop.simps cmd.dec_end)

lemma replay_loop_cut:
  assumes "ok_command c" and "encode_command c = p @ s" and "p \<noteq> []" and "s \<noteq> []"
  shows "replay_loop clk p n good st = Inr (n, Some good, st)"
  using cmd.dec_cut [OF assms] by (auto simp: replay_loop.simps)

lemma drain_snd [simp]: "snd (drain_evictions st) = st\<lparr>evicted := []\<rparr>"
  by (simp add: drain_evictions_def)

lemma replay_intact:
  assumes "list_all ok_command cmds" and "contents l = log_bytes cmds"
    and "run_commands clk 0 cmds st = Inr (n, st')" and "cmds \<noteq> []"
  shows "replay clk l st = Inr (n, None, l, st'\<lparr>evicted := []\<rparr>)"
  using replay_loop_commands [OF assms(1), of clk "[]" 0 0 st] assms(2-4)
  by (cases cmds) (simp_all add: replay_def replay_loop_end)

text \<open>A crash in the middle of an append: the complete records are replayed, the torn one is moved
  away, and the log is exactly the complete records.\<close>

lemma replay_torn:
  assumes "list_all ok_command cmds" and "ok_command c" and "encode_command c = p @ s" and "p \<noteq> []" and "s \<noteq> []"
    and "contents l = log_bytes cmds @ p" and "run_commands clk 0 cmds st = Inr (n, st')"
  shows "replay clk l st = Inr (n, Some p,
     l\<lparr>contents := log_bytes cmds, on_disk := take (length (log_bytes cmds)) (on_disk l)\<rparr>, st'\<lparr>evicted := []\<rparr>)"
  using replay_loop_commands [OF assms(1), of clk p 0 0 st] replay_loop_cut [OF assms(2-5)] assms(4,6,7)
  by (simp add: replay_def discard_tail_def truncate_def)


section \<open>Interleaving\<close>

text \<open>
  The coroutines and threads that share a log: appends by the client handlers, commits and syncs that
  wait for an fsync while they hold the commit lock, and a rewrite that waits for the new file to be
  written. \<open>lock\<close> is what the holder of the lock waits for, \<open>job\<close> the payload of a running rewrite.
  The ghosts \<open>base\<close> and \<open>since\<close> are what the current file started with, the payload of a rewrite from the second
  file on, and the records appended after that was taken; \<open>mark\<close> is their number when the running rewrite began.
\<close>

datatype holder = Committing nat bytes | Syncing bytes

record aof_sys =
  log :: aof_log
  lock :: "holder option"
  job :: "bytes option"
  base :: bytes
  since :: "bytes list"
  mark :: nat

definition base_seq :: "aof_sys \<Rightarrow> nat" where
  "base_seq s = seq (log s) - length (since s)"

text \<open>The bytes of the file up to the record with number \<open>n\<close>.\<close>

definition upto_record :: "nat \<Rightarrow> aof_sys \<Rightarrow> bytes" where
  "upto_record n s = base s @ concat (take (n - base_seq s) (since s))"

inductive aof_step :: "aof_sys \<Rightarrow> aof_sys \<Rightarrow> bool" where
  do_append: "aof_step s (s\<lparr>log := append_bytes raw (log s), since := since s @ [raw]\<rparr>)"
| do_commit_begin: "lock s = None \<Longrightarrow> n \<le> seq (log s) \<Longrightarrow> commit_begin n (log s) = Some (u, covered) \<Longrightarrow>
    aof_step s (s\<lparr>lock := Some (Committing u covered)\<rparr>)"
| do_commit_end: "lock s = Some (Committing u covered) \<Longrightarrow>
    aof_step s (s\<lparr>log := commit_end u covered (log s), lock := None\<rparr>)"
| do_sync_begin: "lock s = None \<Longrightarrow> sync_begin (log s) = Some (covered, l) \<Longrightarrow>
    aof_step s (s\<lparr>log := l, lock := Some (Syncing covered)\<rparr>)"
| do_sync_end: "lock s = Some (Syncing covered) \<Longrightarrow>
    aof_step s (s\<lparr>log := fsync_done covered (log s), lock := None\<rparr>)"
| do_rewrite_begin: "fst (rewrite_begin c st (log s)) = Inr (payload, n, l) \<Longrightarrow>
    aof_step s (s\<lparr>log := l, job := Some payload, mark := length (since s)\<rparr>)"
| do_rewrite_end: "lock s = None \<Longrightarrow> job s = Some payload \<Longrightarrow>
    aof_step s (s\<lparr>log := rewrite_end payload (log s), job := None,
      base := payload, since := drop (mark s) (since s)\<rparr>)"
| do_rewrite_abort: "job s = Some payload \<Longrightarrow> aof_step s (s\<lparr>log := rewrite_abort (log s), job := None\<rparr>)"

inductive_cases aof_stepE: "aof_step s s'"

definition aof_start :: "aof_log \<Rightarrow> aof_sys" where
  "aof_start l = \<lparr>log = l, lock = None, job = None, base = contents l, since = [], mark = 0\<rparr>"

inductive aof_reachable :: "aof_sys \<Rightarrow> bool" where
  aof_init: "aof_open existing pol = Inr l \<Longrightarrow> aof_reachable (aof_start l)"
| aof_next: "aof_reachable s \<Longrightarrow> aof_step s s' \<Longrightarrow> aof_reachable s'"

text \<open>The invariant, in its four parts.\<close>

definition file_inv :: "aof_sys \<Rightarrow> bool" where
  "file_inv s \<longleftrightarrow> contents (log s) = base s @ concat (since s) \<and> length (since s) \<le> seq (log s) \<and>
     base_seq s \<le> durable_seq (log s) \<and> durable_seq (log s) \<le> seq (log s)"

definition disk_inv :: "aof_sys \<Rightarrow> bool" where
  "disk_inv s \<longleftrightarrow> prefix (on_disk (log s)) (contents (log s)) \<and>
     prefix (upto_record (durable_seq (log s)) s) (on_disk (log s))"

definition lock_inv :: "aof_sys \<Rightarrow> bool" where
  "lock_inv s \<longleftrightarrow>
     (case lock s of
        None \<Rightarrow> \<not> dirty (log s) \<longrightarrow> on_disk (log s) = contents (log s)
      | Some (Committing u covered) \<Rightarrow>
          durable_seq (log s) \<le> u \<and> u \<le> seq (log s) \<and> covered = upto_record u s \<and>
          (\<not> dirty (log s) \<longrightarrow> on_disk (log s) = contents (log s))
      | Some (Syncing covered) \<Rightarrow>
          prefix covered (contents (log s)) \<and> (\<not> dirty (log s) \<longrightarrow> covered = contents (log s)))"

definition job_inv :: "aof_sys \<Rightarrow> bool" where
  "job_inv s \<longleftrightarrow>
     (if job s = None then rewrite_buffer (log s) = None
      else rewrite_buffer (log s) = Some (drop (mark s) (since s)) \<and> mark s \<le> length (since s))"

definition aof_inv :: "aof_sys \<Rightarrow> bool" where
  "aof_inv s \<longleftrightarrow> file_inv s \<and> disk_inv s \<and> lock_inv s \<and> job_inv s"

lemma upto_append:
  "n \<le> seq (log s) \<Longrightarrow> length (since s) \<le> seq (log s) \<Longrightarrow>
   upto_record n (s\<lparr>log := append_bytes raw (log s), since := since s @ [raw]\<rparr>) = upto_record n s"
  by (simp add: upto_record_def base_seq_def append_bytes_def)

lemma upto_prefix: "m \<le> n \<Longrightarrow> prefix (upto_record m s) (upto_record n s)"
proof -
  assume "m \<le> n"
  then obtain j where "take (n - base_seq s) (since s) = take (m - base_seq s) (since s) @ j"
    by (metis diff_le_mono le_add_diff_inverse take_add)
  then show ?thesis by (simp add: upto_record_def)
qed

lemma upto_all: "file_inv s \<Longrightarrow> upto_record (seq (log s)) s = contents (log s)"
  by (simp add: file_inv_def upto_record_def base_seq_def)

lemma fsync_done_simps [simp]:
  "contents (fsync_done cv l) = contents l" "seq (fsync_done cv l) = seq l"
  "durable_seq (fsync_done cv l) = durable_seq l" "dirty (fsync_done cv l) = dirty l"
  "rewrite_buffer (fsync_done cv l) = rewrite_buffer l"
  by (simp_all add: fsync_done_def)

lemma on_disk_fsync_done:
  "prefix (on_disk l) c \<Longrightarrow> prefix cv c \<Longrightarrow>
   prefix (on_disk (fsync_done cv l)) c \<and> prefix cv (on_disk (fsync_done cv l)) \<and>
   prefix (on_disk l) (on_disk (fsync_done cv l))"
  using prefix_same_cases [of "on_disk l" c cv]
  by (auto simp: fsync_done_def dest: prefix_length_le) (metis linorder_not_less prefix_length_prefix order_refl)+

lemma aof_inv_append:
  "aof_inv s \<Longrightarrow> aof_inv (s\<lparr>log := append_bytes raw (log s), since := since s @ [raw]\<rparr>)"
proof -
  assume inv: "aof_inv s"
  let ?s = "s\<lparr>log := append_bytes raw (log s), since := since s @ [raw]\<rparr>"
  from inv have len: "length (since s) \<le> seq (log s)" and dur: "durable_seq (log s) \<le> seq (log s)"
    by (simp_all add: aof_inv_def file_inv_def)
  have bs: "base_seq ?s = base_seq s"
    using len by (simp add: base_seq_def append_bytes_def)
  have "file_inv ?s"
    using inv bs by (simp add: aof_inv_def file_inv_def) (simp add: append_bytes_def)
  moreover have "disk_inv ?s"
    using inv upto_append [OF dur len, of raw] by (simp add: aof_inv_def disk_inv_def append_bytes_def)
  moreover have "lock_inv ?s"
    using inv upto_append [OF _ len, of _ raw]
    by (auto simp: aof_inv_def lock_inv_def append_bytes_def split: option.splits holder.splits)
  moreover have "job_inv ?s"
    using inv by (auto simp: aof_inv_def job_inv_def append_bytes_def split: if_splits)
  ultimately show ?thesis by (simp add: aof_inv_def)
qed

lemma ghost_simps [simp]:
  "upto_record n (s\<lparr>lock := h\<rparr>) = upto_record n s" "base_seq (s\<lparr>lock := h\<rparr>) = base_seq s"
  "upto_record n (s\<lparr>job := j\<rparr>) = upto_record n s" "base_seq (s\<lparr>job := j\<rparr>) = base_seq s"
  "upto_record n (s\<lparr>mark := m\<rparr>) = upto_record n s" "base_seq (s\<lparr>mark := m\<rparr>) = base_seq s"
  by (simp_all add: upto_record_def base_seq_def)

text \<open>A step that leaves the sequence number alone leaves the meaning of record numbers alone.\<close>

lemma base_seq_log: "seq l = seq (log s) \<Longrightarrow> base_seq (s\<lparr>log := l\<rparr>) = base_seq s"
  by (simp add: base_seq_def)

lemma upto_log: "seq l = seq (log s) \<Longrightarrow> upto_record n (s\<lparr>log := l\<rparr>) = upto_record n s"
  by (simp add: upto_record_def base_seq_log)

lemma aof_inv_commit_begin:
  assumes "aof_inv s" and "lock s = None" and "n \<le> seq (log s)" and "commit_begin n (log s) = Some (u, cv)"
  shows "aof_inv (s\<lparr>lock := Some (Committing u cv)\<rparr>)"
  using assms upto_all [of s]
  by (auto simp: aof_inv_def file_inv_def disk_inv_def lock_inv_def job_inv_def commit_begin_def split: if_splits option.splits)

lemma aof_inv_commit_end:
  assumes "aof_inv s" and "lock s = Some (Committing u cv)"
  shows "aof_inv (s\<lparr>log := commit_end u cv (log s), lock := None\<rparr>)"
proof -
  have u: "durable_seq (log s) \<le> u" "u \<le> seq (log s)" "cv = upto_record u s"
    and dirty: "\<not> dirty (log s) \<longrightarrow> on_disk (log s) = contents (log s)"
    and fl: "file_inv s" and disk: "prefix (on_disk (log s)) (contents (log s))" and job: "job_inv s"
    using assms by (auto simp: aof_inv_def lock_inv_def disk_inv_def)
  have "prefix cv (contents (log s))"
    using upto_prefix [OF u(2), of s] upto_all [OF fl] u(3) by simp
  note f = on_disk_fsync_done [OF disk this]
  moreover have "\<not> dirty (log s) \<longrightarrow> on_disk (fsync_done cv (log s)) = contents (log s)"
    using f dirty by (metis prefix_order.antisym)
  ultimately show ?thesis
    using u fl job
    by (simp add: aof_inv_def file_inv_def disk_inv_def lock_inv_def job_inv_def commit_end_def base_seq_log
        upto_log rewriting_def)
qed

lemma aof_inv_sync_begin:
  assumes "aof_inv s" and "lock s = None" and "sync_begin (log s) = Some (cv, l)"
  shows "aof_inv (s\<lparr>log := l, lock := Some (Syncing cv)\<rparr>)"
  using assms
  by (auto simp: aof_inv_def file_inv_def disk_inv_def lock_inv_def job_inv_def sync_begin_def base_seq_log upto_log
      rewriting_def split: if_splits option.splits)

lemma aof_inv_sync_end:
  assumes "aof_inv s" and "lock s = Some (Syncing cv)"
  shows "aof_inv (s\<lparr>log := fsync_done cv (log s), lock := None\<rparr>)"
proof -
  have disk: "prefix (on_disk (log s)) (contents (log s))" "prefix cv (contents (log s))"
    and rec: "prefix (upto_record (durable_seq (log s)) s) (on_disk (log s))"
    and dirty: "\<not> dirty (log s) \<longrightarrow> cv = contents (log s)"
    using assms by (auto simp: aof_inv_def lock_inv_def disk_inv_def)
  note f = on_disk_fsync_done [OF disk]
  have "\<not> dirty (log s) \<longrightarrow> on_disk (fsync_done cv (log s)) = contents (log s)"
    using f dirty by (metis prefix_order.antisym)
  moreover have "prefix (upto_record (durable_seq (log s)) s) (on_disk (fsync_done cv (log s)))"
    using f rec by (meson prefix_order.trans)
  ultimately show ?thesis
    using assms f
    by (simp add: aof_inv_def file_inv_def disk_inv_def lock_inv_def job_inv_def base_seq_log upto_log
        rewriting_def)
qed

lemma aof_inv_rewrite_begin:
  assumes "aof_inv s"
  shows "aof_inv (s\<lparr>log := (log s)\<lparr>rewrite_buffer := Some []\<rparr>, job := Some payload, mark := length (since s)\<rparr>)"
  using assms
  by (auto simp: aof_inv_def file_inv_def disk_inv_def lock_inv_def job_inv_def base_seq_log upto_log
      split: option.splits holder.splits)

lemma aof_inv_rewrite_abort:
  assumes "aof_inv s"
  shows "aof_inv (s\<lparr>log := rewrite_abort (log s), job := None\<rparr>)"
  using assms
  by (auto simp: aof_inv_def file_inv_def disk_inv_def lock_inv_def job_inv_def base_seq_log upto_log rewrite_abort_def
      split: option.splits holder.splits)

lemma aof_inv_rewrite_end:
  assumes "aof_inv s" and "lock s = None" and "job s = Some payload"
  shows "aof_inv (s\<lparr>log := rewrite_end payload (log s), job := None,
      base := payload, since := drop (mark s) (since s)\<rparr>)"
  using assms
  by (simp add: aof_inv_def file_inv_def disk_inv_def lock_inv_def job_inv_def rewrite_end_def Let_def
      upto_record_def base_seq_def) linarith

lemma aof_step_inv: "aof_step s s' \<Longrightarrow> aof_inv s \<Longrightarrow> aof_inv s'"
proof (induction rule: aof_step.induct)
  case (do_rewrite_begin c st s payload n l)
  then have "l = (log s)\<lparr>rewrite_buffer := Some []\<rparr>"
    by (auto simp: rewrite_begin_def case_prod_beta split: if_splits sum.splits)
  with do_rewrite_begin show ?case by (simp add: aof_inv_rewrite_begin)
qed (simp_all add: aof_inv_append aof_inv_commit_begin aof_inv_commit_end aof_inv_sync_begin aof_inv_sync_end
      aof_inv_rewrite_end aof_inv_rewrite_abort)

lemma aof_reachable_inv: "aof_reachable s \<Longrightarrow> aof_inv s"
proof (induction rule: aof_reachable.induct)
  case (aof_init existing pol l)
  then show ?case
    by (auto simp: aof_open_def aof_start_def aof_inv_def file_inv_def disk_inv_def lock_inv_def job_inv_def
        upto_record_def base_seq_def rewriting_def split: if_splits)
qed (blast intro: aof_step_inv)

text \<open>Sequence numbers of durable records never go back.\<close>

lemma durable_mono: "aof_step s s' \<Longrightarrow> aof_inv s \<Longrightarrow> durable_seq (log s) \<le> durable_seq (log s')"
proof (induction rule: aof_step.induct)
  case (do_commit_end s u covered)
  then show ?case by (simp add: aof_inv_def lock_inv_def commit_end_def)
next
  case (do_rewrite_begin c st s payload n l)
  then show ?case
    by (auto simp: rewrite_begin_def case_prod_beta split: if_splits sum.splits)
qed (auto simp: append_bytes_def sync_begin_def rewrite_end_def rewrite_abort_def aof_inv_def file_inv_def Let_def
      split: if_splits)

end
