(* ===== verification/Snapshot_Replay.thy ===== *)
theory Snapshot_Replay
  imports Aof_Log
begin

text \<open>
  Both the rewrite of the log and the first part of a replication stream send a store as commands: a
  SET for each live key, followed by a command that sets its deadline. This theory replays such a list
  into an empty store. The locale \<open>snapshot_format\<close> abstracts from the command used for deadlines.
\<close>

section \<open>Stores that do not evict\<close>

definition no_evict :: "store \<Rightarrow> bool" where
  "no_evict st \<longleftrightarrow> maxmemory st = 0 \<or> policy st = ''noeviction''"

text \<open>The limit and the policy never change.\<close>

definition configured :: "int \<Rightarrow> string \<Rightarrow> store \<Rightarrow> bool" where
  "configured m p st \<longleftrightarrow> store_inv st \<and> maxmemory st = m \<and> policy st = p"

lemma config_put [simp]:
  "maxmemory (put k e st) = maxmemory st" "policy (put k e st) = policy st"
  "maxmemory (schedule k t st) = maxmemory st" "policy (schedule k t st) = policy st"
  "maxmemory (overwrite k e v st) = maxmemory st" "policy (overwrite k e v st) = policy st"
  by (simp_all add: put_def schedule_def overwrite_def Let_def)

lemma config_evict:
  "store_inv st \<Longrightarrow> maxmemory (evict now st) = maxmemory st \<and> policy (evict now st) = policy st"
  using evict_facts(4) by (auto simp: same_config_def)

lemma config_set:
  assumes "store_inv st"
  shows "maxmemory (store_set now now' k v ttl st) = maxmemory st \<and> policy (store_set now now' k v ttl st) = policy st"
  unfolding store_set_def Let_def
  using assms
  by (auto simp: config_evict inv_intros store_inv_put_plain store_inv_put_schedule split: option.splits)

lemma config_incr:
  assumes "store_inv st"
  shows "maxmemory (snd (store_incr now now' k d st)) = maxmemory st \<and> policy (snd (store_incr now now' k d st)) = policy st"
proof (cases "lookup_live now k st")
  case (Pair found st1)
  have st1: "store_inv (st1\<lparr>writes := n\<rparr>)" "maxmemory st1 = maxmemory st" "policy st1 = policy st" for n
    using store_inv_lookup_live [OF assms, of now k] shrinks_lookup_live [OF assms Pair] Pair
    by (auto simp: inv_intros shrinks_def)
  have e: "od_get (data st1) k = Some e" if "found = Some e" for e
    using that Pair by (auto simp: lookup_live_Some)
  from st1 e Pair show ?thesis
    by (auto simp: store_incr_def Let_def config_evict store_inv_put_plain store_inv_overwrite
        split: sum.splits option.splits)
qed

interpretation conf: preserved "configured m p" "\<lambda>_. True" for m p
  using config_set config_incr shrinks_ops shrinks_readers shrinks_sweep
  by unfold_locales (auto simp: configured_def shrinks_def inv_intros)

lemma no_evict_dispatch: "store_inv st \<Longrightarrow> no_evict st \<Longrightarrow> no_evict (snd (dispatch c command st))"
  using conf.I_dispatch [of "maxmemory st" "policy st" st command c] by (simp add: configured_def no_evict_def list_all_iff)

lemma evict_no_evict: "no_evict st \<Longrightarrow> evict now st = st"
  by (auto simp: no_evict_def evict_def over_limit_def)

lemma live_set_no_evict:
  assumes "no_evict st"
  shows "live t (store_set now now' k v ttl st) =
    (live t st)(k := view_entry t v (map_option (\<lambda>x. now + x) ttl))"
  unfolding store_set_def Let_def
  by (subst evict_no_evict) (use assms in \<open>auto simp: no_evict_def live_put split: option.splits\<close>)


section \<open>Entries as bytes\<close>

definition wire_entry :: "arg \<times> entry \<Rightarrow> bool" where
  "wire_entry = (\<lambda>(k, e). wire_arg k \<and> wire_val (val e))"

lemma wire_store_entries: "wire_store st = list_all wire_entry (data st)"
  by (simp add: wire_store_def all_vals_def wire_entry_def)

definition bytes_of :: "arg \<Rightarrow> bytes" where
  "bytes_of a = (case a of Bytes b \<Rightarrow> b | Str _ \<Rightarrow> [])"

definition val_bytes :: "entry \<Rightarrow> bytes" where
  "val_bytes e = (case val e of PyArg a \<Rightarrow> bytes_of a | _ \<Rightarrow> [])"

lemma bytes_of_Bytes [simp]: "bytes_of (Bytes b) = b"
  by (simp add: bytes_of_def)

lemma wire_entryD:
  "wire_entry (k, e) \<Longrightarrow> k = Bytes (bytes_of k) \<and> val e = PyArg (Bytes (val_bytes e)) \<and> ok_bulk (bytes_of k) \<and>
     ok_bulk (val_bytes e)"
  by (auto simp: wire_entry_def wire_val_def wire_arg_def bytes_of_def val_bytes_def split: arg.splits pyobj.splits)

lemma snapshot_entries:
  assumes "store_inv st"
  shows "fst (store_snapshot now now st) =
    map (\<lambda>(k, e). (k, val e, map_option (\<lambda>t. t - now) (expire_at e))) (live_entries now (data st))"
proof -
  have "List.map_filter (\<lambda>(k, e). if is_expired now e then None
          else Some (k, val e, map_option (\<lambda>t. t - now) (expire_at e))) (live_entries now d)
      = map (\<lambda>(k, e). (k, val e, map_option (\<lambda>t. t - now) (expire_at e))) (live_entries now d)" for d
    by (induction d) (auto simp: map_filter_def)
  then show ?thesis
    by (simp add: store_snapshot_def Let_def sweep_expired_facts [OF assms])
qed


section \<open>Items\<close>

text \<open>A key, its value and the number its deadline is sent as.\<close>

type_synonym item = "bytes \<times> bytes \<times> int option"

definition item_commands :: "string \<Rightarrow> item \<Rightarrow> bytes list list" where
  "item_commands word = (\<lambda>(k, v, x).
     [''SET'', k, v] # (case x of None \<Rightarrow> [] | Some n \<Rightarrow> [[word, k, str_int n]]))"

definition entry_item :: "(entry \<Rightarrow> int option) \<Rightarrow> arg \<times> entry \<Rightarrow> item" where
  "entry_item num = (\<lambda>(k, e). (bytes_of k, val_bytes e, num e))"

definition store_items :: "(entry \<Rightarrow> int option) \<Rightarrow> seconds \<Rightarrow> store \<Rightarrow> item list" where
  "store_items num now st = map (entry_item num) (live_entries now (data st))"

lemma item_of_store:
  assumes "store_inv st" and "wire_store st"
  shows "distinct (map fst (store_items num now st))"
    and "map_of (store_items num now st) k =
      (case od_get (data st) (Bytes k) of
         None \<Rightarrow> None
       | Some e \<Rightarrow> if is_expired now e then None else Some (val_bytes e, num e))"
    and "list_all (\<lambda>(k, v, x). ok_bulk k \<and> ok_bulk v) (store_items num now st)"
proof -
  let ?d = "live_entries now (data st)"
  have wire: "list_all wire_entry ?d" using assms(2) by (auto simp: wire_store_entries list_all_iff)
  have dist: "distinct (map fst ?d)"
    using store_inv_wf [OF assms(1)] by (simp add: od_wf_def filter_distinct_keys)
  have keys: "map fst (store_items num now st) = map bytes_of (map fst ?d)"
    by (auto simp: store_items_def entry_item_def)
  have "k' = Bytes (bytes_of k')" if "k' \<in> set (map fst ?d)" for k'
    using that wire by (auto simp: list_all_iff) (metis wire_entryD)
  then have "inj_on bytes_of (set (map fst ?d))" by (intro inj_onI) metis
  with dist show "distinct (map fst (store_items num now st))"
    unfolding keys by (simp only: distinct_map [of bytes_of] simp_thms)
  show "list_all (\<lambda>(k, v, x). ok_bulk k \<and> ok_bulk v) (store_items num now st)"
    using wire by (auto simp: store_items_def entry_item_def list_all_iff dest!: wire_entryD)
  have "list_all wire_entry d \<Longrightarrow> map_of (map (entry_item num) d) k =
      (case map_of d (Bytes k) of None \<Rightarrow> None | Some e \<Rightarrow> Some (val_bytes e, num e))" for d
    by (induction d) (auto simp: entry_item_def dest!: wire_entryD)
  from this [OF wire] od_get_live_entries [OF store_inv_wf [OF assms(1)], of now "Bytes k"]
  show "map_of (store_items num now st) k =
      (case od_get (data st) (Bytes k) of
         None \<Rightarrow> None
       | Some e \<Rightarrow> if is_expired now e then None else Some (val_bytes e, num e))"
    by (auto simp: store_items_def od_get_def split: option.splits)
qed


section \<open>Items on the wire\<close>

text \<open>The commands for an item as the code builds them, before they are encoded.\<close>

definition obj_commands :: "string \<Rightarrow> arg \<times> pyobj \<times> int option \<Rightarrow> pyobj list list" where
  "obj_commands word = (\<lambda>(k, v, x).
     [PyArg (word_arg ''SET''), PyArg k, v] #
     (case x of None \<Rightarrow> [] | Some n \<Rightarrow> [[PyArg (word_arg word), PyArg k, PyArg (word_arg (str_int n))]]))"

definition entry_obj :: "(entry \<Rightarrow> int option) \<Rightarrow> arg \<times> entry \<Rightarrow> arg \<times> pyobj \<times> int option" where
  "entry_obj num = (\<lambda>(k, e). (k, val e, num e))"

lemma arg_bytes_Bytes [simp]: "arg_bytes (Bytes b) = Some b"
  by (simp add: arg_bytes_def)

lemma arg_bytes_word [simp]: "is_ascii w \<Longrightarrow> arg_bytes (word_arg w) = Some w"
  by (simp add: arg_bytes_def utf8_encode_ascii)

lemma encode_item:
  assumes "wire_entry (k, e)" and "is_ascii word"
  shows "encode_all (map PyList (obj_commands word (entry_obj num (k, e))) @ xs) =
    map_sum id (\<lambda>r. log_bytes (item_commands word (entry_item num (k, e))) @ r) (encode_all xs)"
proof -
  obtain kb vb where kb: "k = Bytes kb" "val e = PyArg (Bytes vb)" "bytes_of k = kb" "val_bytes e = vb"
    using wire_entryD [OF assms(1)] by blast
  have "encode (PyList [PyArg (word_arg ''SET''), PyArg k, val e]) = Inr (encode_command [''SET'', kb, vb])"
    using encode_command_obj [of "[word_arg ''SET'', Bytes kb, Bytes vb]"] kb
    by (simp add: command_obj_def del: encode.simps encode_all.simps)
  moreover have "encode (PyList [PyArg (word_arg word), PyArg k, PyArg (word_arg (str_int n))])
      = Inr (encode_command [word, kb, str_int n])" for n
    using encode_command_obj [of "[word_arg word, Bytes kb, word_arg (str_int n)]"] kb assms(2) is_ascii_str_int [of n]
    by (simp add: command_obj_def del: encode.simps encode_all.simps)
  ultimately show ?thesis
    using kb
    by (cases "num e"; cases "encode_all xs")
      (simp_all add: obj_commands_def entry_obj_def item_commands_def entry_item_def del: encode.simps)
qed

lemma encode_items:
  assumes "is_ascii word" and "list_all wire_entry d"
  shows "encode_all (map PyList (concat (map (obj_commands word) (map (entry_obj num) d)))) =
      Inr (log_bytes (concat (map (item_commands word) (map (entry_item num) d))))"
    and "length (concat (map (obj_commands word) (map (entry_obj num) d))) =
      length (concat (map (item_commands word) (map (entry_item num) d)))"
proof -
  show "encode_all (map PyList (concat (map (obj_commands word) (map (entry_obj num) d)))) =
      Inr (log_bytes (concat (map (item_commands word) (map (entry_item num) d))))"
    using assms(2)
  proof (induction d)
    case (Cons p d)
    then show ?case using encode_item [of "fst p" "snd p" word num] assms(1) by (cases p) simp
  qed simp
  show "length (concat (map (obj_commands word) (map (entry_obj num) d))) =
      length (concat (map (item_commands word) (map (entry_item num) d)))"
    by (induction d) (auto simp: obj_commands_def entry_obj_def item_commands_def entry_item_def split: option.splits)
qed

text \<open>The entries of a snapshot, with the number \<open>f\<close> makes of a remaining time.\<close>

lemma snapshot_objects:
  assumes "store_inv st"
  shows "map (\<lambda>(k, v, ttl). (k, v, map_option f ttl)) (fst (store_snapshot now now st)) =
    map (entry_obj (\<lambda>e. map_option (\<lambda>t. f (t - now)) (expire_at e))) (live_entries now (data st))"
  by (simp add: snapshot_entries [OF assms] entry_obj_def case_prod_beta option.map_comp comp_def)

lemma live_entries_wire: "wire_store st \<Longrightarrow> list_all wire_entry (live_entries now (data st))"
  by (auto simp: wire_store_entries list_all_iff)


section \<open>Replaying items\<close>

lemma named_words [simp]: "named (Bytes ''SET'') ''SET''" "named (Bytes ''PEXPIREAT'') ''PEXPIREAT''"
  "named (Bytes ''EXPIRE'') ''EXPIRE''" "named (Bytes ''FLUSHDB'') ''FLUSHDB''"
  by (simp_all add: named_def to_text_def utf8_decode_ascii str_upper_def upper_cp_def ascii_str_def)

lemma max_float_digits: "\<bar>n\<bar> < MAX_FLOAT_MS \<Longrightarrow> nat \<bar>n\<bar> < 10 ^ 320"
proof -
  have "MAX_FLOAT_MS \<le> 10 ^ 320" by (simp add: MAX_FLOAT_MS_def)
  then show "\<bar>n\<bar> < MAX_FLOAT_MS \<Longrightarrow> nat \<bar>n\<bar> < 10 ^ 320" by (simp add: nat_less_iff)
qed

lemma to_text_str_int [simp]: "to_text (Bytes (str_int n)) = ascii_str (str_int n)"
  by (simp add: to_text_def utf8_decode_ascii is_ascii_str_int)

lemma run_commands_append:
  "run_commands clk n (xs @ ys) st = sum_bind (run_commands clk n xs st) (\<lambda>(n', st'). run_commands clk n' ys st')"
  by (induction xs arbitrary: n st) (auto split: prod.splits sum.splits)

lemma dispatch_set_plain:
  assumes "cmd_inv st" and "no_evict st"
  shows "fst (dispatch c [Bytes ''SET'', k, v] st) = Inr OK"
    and "mono c \<le> t \<Longrightarrow> live t (snd (dispatch c [Bytes ''SET'', k, v] st)) = (live t st)(k \<mapsto> (PyArg v, None))"
proof -
  let ?o = "\<lparr>okey = k, oval = v, nx = False, xx = False, oget = False, ottl = None\<rparr>"
  have ok: "parse_set [k, v] = Inr ?o" by (simp add: parse_set_def)
  have "configured (maxmemory st) (policy st) st"
    using cmd_invD(1) [OF assms(1)] by (simp add: configured_def)
  from conf.I_exists [OF this] assms(2) have "no_evict (set_probe (mono c) ?o st)"
    by (simp add: configured_def no_evict_def set_probe_def)
  then show "fst (dispatch c [Bytes ''SET'', k, v] st) = Inr OK"
    and "mono c \<le> t \<Longrightarrow> live t (snd (dispatch c [Bytes ''SET'', k, v] st)) = (live t st)(k \<mapsto> (PyArg v, None))"
    using dispatch_named [OF named_words(1), of cmd_set c "[k, v]" st] cmd_set_run [OF assms(1) ok, of c]
    by (simp_all add: COMMANDS_def set_blocked_def live_set_no_evict set_probe_facts)
qed


text \<open>The clocks of a replay that ends by time \<open>t\<close>: time does not run backwards.\<close>

definition ticking :: "(nat \<Rightarrow> clock) \<Rightarrow> seconds \<Rightarrow> bool" where
  "ticking clk t \<longleftrightarrow> (\<forall>i. mono (clk i) \<le> t \<and> mono (clk i) \<le> mono (clk (Suc i)))"

lemma tickingD: "ticking clk t \<Longrightarrow> mono (clk i) \<le> t" "ticking clk t \<Longrightarrow> mono (clk i) \<le> mono (clk (Suc i))"
  by (simp_all add: ticking_def)

text \<open>The word that sets a deadline, the numbers it accepts and the deadline a number stands for at the
  clock at which the command runs.\<close>

locale snapshot_format =
  fixes word :: string
    and accepts :: "int \<Rightarrow> bool"
    and due :: "clock \<Rightarrow> int \<Rightarrow> seconds"
  assumes sets: "accepts x \<Longrightarrow> live (mono c) st k = Some (v, d) \<Longrightarrow>
      fst (dispatch c [Bytes word, k, Bytes (str_int x)] st) = Inr (PyBool True)"
    and sets_view: "accepts x \<Longrightarrow> live (mono c) st k = Some (v, d) \<Longrightarrow> mono c \<le> t \<Longrightarrow>
      live t (snd (dispatch c [Bytes word, k, Bytes (str_int x)] st)) = (live t st)(k := view_entry t v (Some (due c x)))"
    and fits: "ok_bulk word" "accepts x \<Longrightarrow> ok_bulk (str_int x)"
begin

definition item_ok :: "item \<Rightarrow> bool" where
  "item_ok = (\<lambda>(k, v, x). ok_bulk k \<and> ok_bulk v \<and> (case x of None \<Rightarrow> True | Some n \<Rightarrow> accepts n))"

lemma ok_item_commands: "item_ok it \<Longrightarrow> list_all ok_command (item_commands word it)"
  using fits
  by (auto simp: item_ok_def item_commands_def ok_command_def MAX_ARRAY_LENGTH_def ok_bulk_def [of "''SET''"]
      MAX_BULK_LENGTH_def split: option.splits)

lemma run_item:
  assumes "cmd_inv st" and "no_evict st" and "item_ok (k, v, x)"
    and tick: "ticking clk t"
  shows "\<exists>st' i. run_commands clk n (item_commands word (k, v, x)) st
       = Inr (n + length (item_commands word (k, v, x)), st') \<and>
     cmd_inv st' \<and> no_evict st' \<and>
     live t st' = (live t st)(Bytes k := view_entry t (PyArg (Bytes v)) (map_option (due (clk i)) x))"
proof -
  note clk = tickingD [OF tick]
  let ?r1 = "dispatch (clk n) [Bytes ''SET'', Bytes k, Bytes v] st"
  obtain s1 where s1: "?r1 = (Inr OK, s1)"
    using dispatch_set_plain(1) [OF assms(1,2)] by (metis prod.collapse)
  have live1: "mono (clk n) \<le> u \<Longrightarrow> live u s1 = (live u st)(Bytes k \<mapsto> (PyArg (Bytes v), None))" for u
    using dispatch_set_plain(2) [OF assms(1,2), of "clk n" u "Bytes k" "Bytes v"] s1 by simp
  have inv1: "cmd_inv s1" "no_evict s1"
    using cmd_inv_dispatch [OF assms(1)] no_evict_dispatch [OF cmd_invD(1) [OF assms(1)] assms(2)] s1
    by (metis snd_conv)+
  show ?thesis
  proof (cases x)
    case None
    with s1 inv1 live1 [OF clk(1)] show ?thesis by (simp add: item_commands_def)
  next
    case (Some m)
    let ?c = "clk (Suc n)"
    let ?r2 = "dispatch ?c [Bytes word, Bytes k, Bytes (str_int m)] s1"
    have m: "accepts m" using assms(3) Some by (simp add: item_ok_def)
    have l: "live (mono ?c) s1 (Bytes k) = Some (PyArg (Bytes v), None)"
      using live1 [OF clk(2)] by simp
    have "cmd_inv (snd ?r2)" "no_evict (snd ?r2)"
      using cmd_inv_dispatch [OF inv1(1)] no_evict_dispatch [OF cmd_invD(1) [OF inv1(1)] inv1(2)] by simp_all
    moreover have "live t (snd ?r2) = (live t st)(Bytes k := view_entry t (PyArg (Bytes v)) (Some (due ?c m)))"
      using sets_view [OF m l clk(1)] live1 [OF clk(1)] by simp
    moreover have "run_commands clk n (item_commands word (k, v, x)) st
        = Inr (n + length (item_commands word (k, v, x)), snd ?r2)"
      using s1 sets [OF m l] Some by (cases ?r2) (simp add: item_commands_def)
    ultimately show ?thesis using Some by auto
  qed
qed

lemma run_items:
  assumes "distinct (map fst items)" and "list_all item_ok items" and "cmd_inv st" and "no_evict st"
    and tick: "ticking clk t"
  shows "\<exists>st'. run_commands clk n (concat (map (item_commands word) items)) st
       = Inr (n + length (concat (map (item_commands word) items)), st') \<and> cmd_inv st' \<and> no_evict st' \<and>
     (\<forall>k. case map_of items k of
            None \<Rightarrow> live t st' (Bytes k) = live t st (Bytes k)
          | Some (v, x) \<Rightarrow> \<exists>i. live t st' (Bytes k) = view_entry t (PyArg (Bytes v)) (map_option (due (clk i)) x)) \<and>
     (\<forall>s. live t st' (Str s) = live t st (Str s))"
  using assms(1-4)
proof (induction items arbitrary: n st)
  case (Cons it items)
  obtain k v x where it: "it = (k, v, x)" by (cases it)
  let ?n = "n + length (item_commands word it)"
  obtain s1 i where s1: "run_commands clk n (item_commands word it) st = Inr (?n, s1)" "cmd_inv s1" "no_evict s1"
    "live t s1 = (live t st)(Bytes k := view_entry t (PyArg (Bytes v)) (map_option (due (clk i)) x))"
    using run_item [OF Cons.prems(3,4) _ tick, of k v x n] Cons.prems(2) it by auto
  from Cons.IH [OF _ _ s1(2,3), of ?n] Cons.prems obtain s2 where s2:
    "run_commands clk ?n (concat (map (item_commands word) items)) s1
      = Inr (?n + length (concat (map (item_commands word) items)), s2)" "cmd_inv s2" "no_evict s2"
    "\<And>k. case map_of items k of
            None \<Rightarrow> live t s2 (Bytes k) = live t s1 (Bytes k)
          | Some (v, x) \<Rightarrow> \<exists>i. live t s2 (Bytes k) = view_entry t (PyArg (Bytes v)) (map_option (due (clk i)) x)"
    "\<And>s. live t s2 (Str s) = live t s1 (Str s)"
    by auto
  have "map_of items k = None" using Cons.prems(1) it by (simp add: map_of_eq_None_iff)
  with s2(4) [of k] s1(4) have own: "live t s2 (Bytes k) = view_entry t (PyArg (Bytes v)) (map_option (due (clk i)) x)"
    by simp
  have "case map_of (it # items) k' of
            None \<Rightarrow> live t s2 (Bytes k') = live t st (Bytes k')
          | Some (v, x) \<Rightarrow> \<exists>i. live t s2 (Bytes k') = view_entry t (PyArg (Bytes v)) (map_option (due (clk i)) x)" for k'
    using s2(4) [of k'] own s1(4) it by (cases "k' = k") (auto split: option.splits)
  moreover have "live t s2 (Str s) = live t st (Str s)" for s using s2(5) [of s] s1(4) by simp
  ultimately show ?case using s1(1) s2(1-3) by (auto simp: run_commands_append add.assoc)
qed simp

end


section \<open>The two formats\<close>

lemma expire_number_ms: "\<bar>ms\<bar> < MAX_FLOAT_MS \<Longrightarrow> expire_number ''PEXPIREAT'' (Bytes (str_int ms)) = Some ms"
  using py_int_str_str_int [OF below_max_digits [OF _ max_float_digits], of ms] by (simp add: expire_number_def)

lemma ok_bulk_str_int: "\<bar>ms\<bar> < MAX_FLOAT_MS \<Longrightarrow> ok_bulk (str_int ms)"
  using length_dec_nat [OF _ max_float_digits, of ms]
  by (auto simp: ok_bulk_def str_int_def MAX_BULK_LENGTH_def)

text \<open>The log uses absolute milliseconds, the replication stream relative seconds.\<close>

lemma at_unix_ms:
  assumes "\<bar>ms\<bar> < MAX_FLOAT_MS" and "live (mono c) st k = Some (v, d)"
  shows "fst (dispatch c [Bytes ''PEXPIREAT'', k, Bytes (str_int ms)] st) = Inr (PyBool True)"
    and "mono c \<le> t \<Longrightarrow> live t (snd (dispatch c [Bytes ''PEXPIREAT'', k, Bytes (str_int ms)] st)) =
      (live t st)(k := view_entry t v (Some (of_int ms / 1000 - (wall c - mono c))))"
  using dispatch_expire [OF named_words(2) _ expire_number_ms [OF assms(1)], of c _ k st] assms(2) order_refl [of "mono c"]
  by (auto simp: requested_ttl_def algebra_simps)

definition is_int64 :: "int \<Rightarrow> bool" where
  "is_int64 n \<longleftrightarrow> INT64_MIN \<le> n \<and> n \<le> INT64_MAX"

lemma in_seconds:
  assumes "is_int64 n" and "live (mono c) st k = Some (v, d)"
  shows "fst (dispatch c [Bytes ''EXPIRE'', k, Bytes (str_int n)] st) = Inr (PyBool True)"
    and "mono c \<le> t \<Longrightarrow> live t (snd (dispatch c [Bytes ''EXPIRE'', k, Bytes (str_int n)] st)) =
      (live t st)(k := view_entry t v (Some (mono c + of_int n)))"
proof -
  have "expire_number ''EXPIRE'' (Bytes (str_int n)) = Some n"
    using cmd_parse_int_str_int [of n "Bytes (str_int n)"] assms(1) by (simp add: expire_number_def is_int64_def)
  from dispatch_expire [OF named_words(3) _ this, of c _ k st] assms(2) order_refl [of "mono c"]
  show "fst (dispatch c [Bytes ''EXPIRE'', k, Bytes (str_int n)] st) = Inr (PyBool True)"
    and "mono c \<le> t \<Longrightarrow> live t (snd (dispatch c [Bytes ''EXPIRE'', k, Bytes (str_int n)] st)) =
      (live t st)(k := view_entry t v (Some (mono c + of_int n)))"
    by (auto simp: requested_ttl_def)
qed

interpretation unix_ms: snapshot_format "''PEXPIREAT''" "\<lambda>ms. \<bar>ms\<bar> < MAX_FLOAT_MS"
  "\<lambda>c ms. of_int ms / 1000 - (wall c - mono c)"
  by unfold_locales (simp_all add: at_unix_ms ok_bulk_str_int, simp add: ok_bulk_def MAX_BULK_LENGTH_def)

interpretation rel_sec: snapshot_format "''EXPIRE''" is_int64 "\<lambda>c n. mono c + of_int n"
proof unfold_locales
  show "is_int64 x \<Longrightarrow> ok_bulk (str_int x)" for x
    using length_str_int [OF header_int64, of x] by (simp add: is_int64_def ok_bulk_def MAX_BULK_LENGTH_def)
qed (simp_all add: in_seconds, simp add: ok_bulk_def MAX_BULK_LENGTH_def)

end
