(* ===== verification/Aof_Rewrite.thy ===== *)
theory Aof_Rewrite
  imports Snapshot_Replay
begin

text \<open>
  The round trip of a rewrite: the commands \<^verbatim>\<open>rewrite\<close> writes for a store, replayed into an empty
  store, give back what a client sees, with every deadline rounded to a millisecond of wall-clock time.
\<close>

section \<open>The payload\<close>

text \<open>The deadline of an entry in milliseconds, as a rewrite at clock \<open>c\<close> records it.\<close>

definition entry_ms :: "clock \<Rightarrow> entry \<Rightarrow> int option" where
  "entry_ms c e = map_option (\<lambda>t. deadline_ms (wall c) (t - mono c)) (expire_at e)"

definition deadlines_ok :: "clock \<Rightarrow> store \<Rightarrow> bool" where
  "deadlines_ok c st =
     list_all (\<lambda>(k, e). case entry_ms c e of None \<Rightarrow> True | Some ms \<Rightarrow> \<bar>ms\<bar> < MAX_FLOAT_MS) (data st)"

definition rewrite_log :: "clock \<Rightarrow> store \<Rightarrow> bytes list list" where
  "rewrite_log c st = concat (map (item_commands ''PEXPIREAT'') (store_items (entry_ms c) (mono c) st))"

lemma rewrite_entry_obj: "rewrite_entry now (k, v, ttl) = obj_commands ''PEXPIREAT'' (k, v, map_option (deadline_ms now) ttl)"
  by (simp add: rewrite_entry_def obj_commands_def pexpireat_command_def split: option.splits)

lemma rewrite_commands:
  assumes "store_inv st"
  shows "fst (build_rewrite_commands c st) =
    concat (map (obj_commands ''PEXPIREAT'') (map (entry_obj (entry_ms c)) (live_entries (mono c) (data st))))"
proof -
  have "map (rewrite_entry (wall c)) xs =
      map (obj_commands ''PEXPIREAT'') (map (\<lambda>(k, v, ttl). (k, v, map_option (deadline_ms (wall c)) ttl)) xs)" for xs
    by (auto simp: rewrite_entry_obj)
  then show ?thesis
    by (simp only: build_rewrite_commands_def case_prod_beta fst_conv snapshot_objects [OF assms] entry_ms_def [abs_def])
qed

text \<open>The payload of a rewrite, and the number of commands it reports.\<close>

lemma rewrite_begin_run:
  assumes "store_inv st" and "wire_store st" and "\<not> rewriting l"
  shows "fst (rewrite_begin c st l) =
    Inr (log_bytes (rewrite_log c st), length (rewrite_log c st), l\<lparr>rewrite_buffer := Some []\<rparr>)"
  using assms(3) encode_items [OF _ live_entries_wire [OF assms(2)], of "''PEXPIREAT''" "entry_ms c" "mono c"]
  by (simp add: rewrite_begin_def case_prod_beta rewrite_commands [OF assms(1)] rewrite_log_def store_items_def
      split: sum.splits)

lemma items_ok:
  assumes "store_inv st" and "wire_store st" and "deadlines_ok c st"
  shows "list_all unix_ms.item_ok (store_items (entry_ms c) (mono c) st)"
  using item_of_store(3) [OF assms(1,2), of "entry_ms c" "mono c"] assms(3)
  by (auto simp: list_all_iff unix_ms.item_ok_def deadlines_ok_def store_items_def entry_item_def)


section \<open>The round trip\<close>

text \<open>What a client sees at time \<open>t\<close> of an entry once it has been written by a rewrite at clock \<open>c\<close> and
  replayed where the wall clock is ahead of the monotonic clock by \<open>skew\<close>.\<close>

definition restored ::
  "clock \<Rightarrow> seconds \<Rightarrow> seconds \<Rightarrow> pyobj \<times> seconds option \<Rightarrow> (pyobj \<times> seconds option) option" where
  "restored c skew t = (\<lambda>(v, d).
     view_entry t v (map_option (\<lambda>x. of_int (deadline_ms (wall c) (x - mono c)) / 1000 - skew) d))"

text \<open>With the same skew the deadline moves by at most half a millisecond.\<close>

lemma restored_close:
  "\<bar>(of_int (deadline_ms (wall c) (x - mono c)) / 1000 - (wall c - mono c)) - x\<bar> \<le> 1 / 2000"
proof -
  have "of_int m \<le> y + 1 / 2 \<and> y - 1 / 2 \<le> of_int m \<Longrightarrow> y = (w + (x - n)) * 1000 \<Longrightarrow>
    \<bar>(of_int m / 1000 - (w - n)) - x\<bar> \<le> 1 / 2000" for m :: int and y w n :: rat
    unfolding abs_le_iff by (elim conjE, intro conjI) (simp_all add: field_simps)
  from this [OF py_round_bounds refl] show ?thesis by (simp only: deadline_ms_def)
qed

lemma rewrite_roundtrip:
  assumes inv: "cmd_inv st" and wire: "wire_store st" and dl: "deadlines_ok c st"
    and rw: "fst (rewrite_begin c st l) = Inr (payload, n, l')" and l2: "contents l2 = payload"
    and st0: "cmd_inv st0" "no_evict st0" "data st0 = []"
    and tick: "ticking clk t" and skew: "\<And>i. wall (clk i) - mono (clk i) = skew"
  shows "\<exists>st'. replay clk l2 st0 = Inr (n, None, l2, st') \<and>
     (\<forall>k. live t st' k = Option.bind (live (mono c) st k) (restored c skew t))"
proof -
  note sinv = cmd_invD(1) [OF inv]
  let ?items = "store_items (entry_ms c) (mono c) st"
  have "\<not> rewriting l" using rw by (auto simp: rewrite_begin_def)
  with rewrite_begin_run [OF sinv wire, of l c] rw l2
  have pay: "contents l2 = log_bytes (rewrite_log c st)" and n: "n = length (rewrite_log c st)" by simp_all
  note ok = items_ok [OF sinv wire dl] and it = item_of_store [OF sinv wire, of "entry_ms c" "mono c"]
  obtain st' where run: "run_commands clk 0 (rewrite_log c st) st0 = Inr (n, st')"
    and at_bytes: "\<And>k. case map_of ?items k of
            None \<Rightarrow> live t st' (Bytes k) = live t st0 (Bytes k)
          | Some (v, x) \<Rightarrow> \<exists>i. live t st' (Bytes k) =
              view_entry t (PyArg (Bytes v)) (map_option (\<lambda>ms. of_int ms / 1000 - (wall (clk i) - mono (clk i))) x)"
    and at_str: "\<And>s. live t st' (Str s) = live t st0 (Str s)"
    using unix_ms.run_items [OF it(1) ok st0(1,2) tick, of 0] n unfolding rewrite_log_def by auto
  have empty: "live t st0 k = None" for k using st0(3) by (simp add: live_def od_get_def)
  have we: "od_get (data st) k = Some e \<Longrightarrow> wire_entry (k, e)" for k e
    using wire by (auto simp: wire_store_entries list_all_iff od_get_def dest!: map_of_SomeD)
  have view: "live t st' k = Option.bind (live (mono c) st k) (restored c skew t)" for k
  proof (cases k)
    case (Str s)
    then have "od_get (data st) k = None"
      using we [of k] by (cases "od_get (data st) k") (auto simp: wire_entry_def wire_arg_def)
    with Str at_str empty show ?thesis by (simp add: live_def [of "mono c"])
  next
    case (Bytes b)
    show ?thesis
      using at_bytes [of b] it(2) [of b] empty Bytes wire_entryD [OF we [of k]] skew
      by (auto simp: live_def [of "mono c"] restored_def entry_ms_def option.map_comp comp_def split: option.splits if_splits)
  qed
  have okc: "list_all ok_command (rewrite_log c st)"
    using ok unix_ms.ok_item_commands by (force simp: rewrite_log_def list_all_iff)
  show ?thesis
  proof (cases "rewrite_log c st = []")
    case True
    have "contents l2 = []" "st' = st0" "n = 0"
      using pay run n unfolding True by simp_all
    then show ?thesis using view by (auto simp: replay_def)
  next
    case False
    from replay_intact [OF okc pay run False] view show ?thesis by auto
  qed
qed

end
