(* ===== verification/Repl_Stream.thy ===== *)
theory Repl_Stream
  imports Snapshot_Replay
begin

text \<open>
  Replication (\<^verbatim>\<open>replication.py\<close>): the commands that send a store to a new replica, the form in which a
  write is propagated, and the replica's side of the link.

  The bytes a connection delivers before it ends are one list; a link that times out is one that ends.
\<close>

section \<open>The primary's commands\<close>

definition snapshot_entry :: "arg \<times> pyobj \<times> seconds option \<Rightarrow> pyobj list list" where
  "snapshot_entry = (\<lambda>(k, v, ttl).
     [PyArg (word_arg ''SET''), PyArg k, v] #
     (case ttl of
        None \<Rightarrow> []
      | Some s \<Rightarrow> [[PyArg (word_arg ''EXPIRE''), PyArg k, PyArg (word_arg (str_int (py_trunc s + 1)))]]))"

definition build_snapshot_commands :: "clock \<Rightarrow> store \<Rightarrow> pyobj list list \<times> store" where
  "build_snapshot_commands c st =
     (case store_snapshot (mono c) (mono c) st of (entries, st1) \<Rightarrow> (concat (map snapshot_entry entries), st1))"

definition is_set_word :: "arg \<Rightarrow> bool" where
  "is_set_word a = (case a of Str s \<Rightarrow> str_upper s = ascii_str ''SET'' | Bytes b \<Rightarrow> bytes_upper b = ''SET'')"

definition to_replication_command :: "arg list \<Rightarrow> arg list" where
  "to_replication_command command =
     (if is_set_word (hd command) then
        (case parse_set (tl command) of
           Inl _ \<Rightarrow> command
         | Inr opts \<Rightarrow>
             [word_arg ''SET'', okey opts, oval opts] @
             (case ottl opts of
                None \<Rightarrow> []
              | Some ttl \<Rightarrow> [word_arg ''PX'', word_arg (str_int (max 1 (py_round (ttl * 1000))))]))
      else command)"


section \<open>The replica\<close>

text \<open>Why a session with the primary ends.\<close>

datatype link_end =
    Primary_closed
  | Read_failed read_error
  | Refused pystr
  | Auth_rejected pystr
  | Handler_raised py_exc
  | Send_failed encode_error

definition join_words :: "bytes list \<Rightarrow> bytes" where
  "join_words ws = (case ws of [] \<Rightarrow> [] | w # r \<Rightarrow> w @ concat (map (\<lambda>x. CHR '' '' # x) r))"

function stream_loop :: "(nat \<Rightarrow> clock) \<Rightarrow> bytes \<Rightarrow> nat \<Rightarrow> store \<Rightarrow> link_end \<times> store" where
  "stream_loop clk r n st =
     (case read_command r of
        Inl e \<Rightarrow> (Read_failed e, st)
      | Inr (None, _) \<Rightarrow> (Primary_closed, st)
      | Inr (Some command, r1) \<Rightarrow>
          if command = [] then stream_loop clk r1 n st
          else if starts_with (hd command) CHR ''-'' then
            (Refused (drop 1 (utf8_decode (join_words command))), st)
          else if bytes_upper (hd command) = ''PING'' then stream_loop clk r1 n st
          else (case dispatch (clk n) (map Bytes command) st of
                  (Inl e, st1) \<Rightarrow> (Handler_raised e, st1)
                | (Inr _, st1) \<Rightarrow> stream_loop clk r1 (Suc n) st1))"
  by pat_completeness auto
termination stream_loop
  by (relation "measure (\<lambda>(clk, r, n, st). length r)") (auto dest: read_command_shorter)

declare stream_loop.simps [simp del]

record session =
  sent :: bytes
  connected :: bool
  ended :: link_end

definition SYNC_bytes :: bytes where "SYNC_bytes = encode_command [''SYNC'']"

definition after_auth ::
  "bytes \<Rightarrow> (nat \<Rightarrow> clock) \<Rightarrow> bytes \<Rightarrow> store \<Rightarrow> session \<times> store" where
  "after_auth written clk incoming st =
     (case stream_loop clk incoming 0 st of (why, st1) \<Rightarrow>
        (\<lparr>sent = written @ SYNC_bytes, connected = True, ended = why\<rparr>, st1))"

text \<open>One session: the password if there is one, SYNC, then the stream. The first argument is the
  recursion limit of \<^verbatim>\<open>read_reply\<close>.\<close>

definition connect_and_stream ::
  "nat \<Rightarrow> pystr option \<Rightarrow> (nat \<Rightarrow> clock) \<Rightarrow> bytes \<Rightarrow> store \<Rightarrow> session \<times> store" where
  "connect_and_stream depth password clk incoming st =
     (case password of
        None \<Rightarrow> after_auth [] clk incoming st
      | Some pw \<Rightarrow>
          (case encode (command_obj [word_arg ''AUTH'', Str pw]) of
             Inl e \<Rightarrow> (\<lparr>sent = [], connected = False, ended = Send_failed e\<rparr>, st)
           | Inr auth \<Rightarrow>
               (case read_reply depth incoming of
                  Inl e \<Rightarrow> (\<lparr>sent = auth, connected = False, ended = Read_failed e\<rparr>, st)
                | Inr (Error m, _) \<Rightarrow> (\<lparr>sent = auth, connected = False, ended = Auth_rejected m\<rparr>, st)
                | Inr (_, rest) \<Rightarrow> after_auth auth clk rest st)))"

text \<open>\<^verbatim>\<open>run\<close>: one session after the other on the same store.\<close>

definition replica_run ::
  "nat \<Rightarrow> pystr option \<Rightarrow> ((nat \<Rightarrow> clock) \<times> bytes) list \<Rightarrow> store \<Rightarrow> store" where
  "replica_run depth password sessions st =
     fold (\<lambda>(clk, incoming) s. snd (connect_and_stream depth password clk incoming s)) sessions st"


section \<open>The stream as a list of commands\<close>

text \<open>A command the replica executes.\<close>

definition plain_command :: "bytes list \<Rightarrow> bool" where
  "plain_command cmd \<longleftrightarrow>
     cmd \<noteq> [] \<and> \<not> starts_with (hd cmd) CHR ''-'' \<and> bytes_upper (hd cmd) \<noteq> ''PING'' \<and> ok_command cmd"

lemma stream_loop_commands:
  assumes "list_all plain_command cmds" and "run_commands clk n cmds st = Inr (n', st')"
  shows "stream_loop clk (log_bytes cmds @ rest) n st = stream_loop clk rest n' st'"
  using assms
proof (induction cmds arbitrary: n st)
  case (Cons cmd cmds)
  have "stream_loop clk (encode_command cmd @ log_bytes cmds @ rest) n st =
     (case dispatch (clk n) (map Bytes cmd) st of
              (Inl e, st1) \<Rightarrow> (Handler_raised e, st1)
            | (Inr _, st1) \<Rightarrow> stream_loop clk (log_bytes cmds @ rest) (Suc n) st1)"
    using Cons.prems(1)
    by (simp add: stream_loop.simps [of clk "encode_command cmd @ _"] cmd.dec_enc plain_command_def)
  with Cons show ?case
    by (auto simp: plain_command_def [of cmd] split: prod.splits sum.splits)
qed simp

lemma stream_loop_end: "stream_loop clk [] n st = (Primary_closed, st)"
  by (simp add: stream_loop.simps cmd.dec_end)

text \<open>The replica preserves whatever commands preserve, when what arrives over the wire are arguments they
  may have.\<close>

locale preserved_wire = preserved +
  assumes good_wire: "ok_bulk b \<Longrightarrow> good (Bytes b)"
begin

lemma good_read: "read_command r = Inr (Some command, r1) \<Longrightarrow> list_all good (map Bytes command)"
  using read_command_ok [of r command r1] by (auto simp: ok_command_def list_all_iff good_wire)

lemma I_stream: "I st \<Longrightarrow> I (snd (stream_loop clk r n st))"
proof (induction clk r n st rule: stream_loop.induct)
  case (1 clk r n st)
  then show ?case
    using I_dispatch [of st _ "clk n", OF _ good_read]
    by (subst stream_loop.simps) (auto split: sum.splits option.splits prod.splits; metis snd_conv)
qed

lemma I_session: "I st \<Longrightarrow> I (snd (connect_and_stream depth password clk incoming st))"
  by (simp add: connect_and_stream_def after_auth_def case_prod_beta I_stream split: option.splits sum.splits pyobj.splits)

lemma I_replica: "I st \<Longrightarrow> I (replica_run depth password sessions st)"
  unfolding replica_run_def by (induction sessions arbitrary: st) (auto simp: I_session)

end

interpretation reach_wire: preserved_wire store_reachable "\<lambda>_. True"
  by unfold_locales simp

interpretation cinv_wire: preserved_wire cmd_inv "\<lambda>_. True"
  by unfold_locales simp

interpretation wire_wire: preserved_wire wire_inv wire_arg
  by unfold_locales (simp add: wire_arg_def)


section \<open>Propagated writes\<close>

text \<open>A time to live that \<^verbatim>\<open>parse_set\<close> accepts is a positive whole number of milliseconds.\<close>

definition whole_ms :: "seconds \<Rightarrow> bool" where
  "whole_ms t \<longleftrightarrow> (\<exists>n. 0 < n \<and> n \<le> INT64_MAX * 1000 \<and> t = of_int n / 1000)"

lemma parse_ttl_ms: "parse_ttl u a = Inr t \<Longrightarrow> whole_ms t"
proof -
  assume "parse_ttl u a = Inr t"
  then obtain m where m: "cmd_parse_int a = Inr m" "0 < m" and t: "t = of_int m \<or> t = of_int m / 1000"
    unfolding parse_ttl_def sum_bind_eq_Inr by (auto simp del: divide_eq_eq_numeral1 split: if_splits)
  from cmd_parse_int_Inr [OF m(1)] have "m \<le> INT64_MAX" by simp
  with m(2) t show ?thesis
    unfolding whole_ms_def
    by (intro exI [of _ "if t = of_int m then m * 1000 else m"]) (auto simp: INT64_MAX_def)
qed

lemma parse_set_options_ms:
  "parse_set_options args o0 = Inr opts \<Longrightarrow> (\<And>t. ottl o0 = Some t \<Longrightarrow> whole_ms t) \<Longrightarrow>
   ottl opts = Some t \<Longrightarrow> whole_ms t"
proof (induction args o0 rule: parse_set_options.induct)
  case (2 a rest o0)
  then show ?case
    by (auto simp: Let_def sum_bind_eq_Inr split: if_splits list.splits dest: parse_ttl_ms)
qed simp

lemma parse_set_ms: "parse_set args = Inr opts \<Longrightarrow> ottl opts = Some t \<Longrightarrow> whole_ms t"
  by (auto simp: parse_set_def sum_bind_eq_Inr split: list.splits if_splits elim!: parse_set_options_ms)

lemma option_words [simp]:
  "str_upper (ascii_str ''PX'') = ascii_str ''PX''" "str_upper (ascii_str ''SET'') = ascii_str ''SET''"
  by (simp_all add: str_upper_def upper_cp_def ascii_str_def)

lemma to_text_Str [simp]: "to_text (Str s) = s"
  by (simp add: to_text_def)

lemma ascii_str_neq:
  "ascii_str ''PX'' \<noteq> ascii_str ''NX''" "ascii_str ''PX'' \<noteq> ascii_str ''XX''" "ascii_str ''PX'' \<noteq> ascii_str ''GET''"
  "ascii_str ''PX'' \<noteq> ascii_str ''EX''"
  by (simp_all add: ascii_str_inj)

definition px_options :: "arg \<Rightarrow> arg \<Rightarrow> seconds option \<Rightarrow> set_options" where
  "px_options k v ttl = \<lparr>okey = k, oval = v, nx = False, xx = False, oget = False, ottl = ttl\<rparr>"

lemma cmd_parse_int_big:
  assumes "INT64_MAX < n" and "n \<le> INT64_MAX * 1000"
  shows "cmd_parse_int (word_arg (str_int n)) = Inl (BadArgument not_integer_msg)"
proof -
  have "nat \<bar>n\<bar> < 10 ^ 30" using assms by (simp add: INT64_MAX_def)
  then have "py_int_str (ascii_str (str_int n)) = Inr n"
    by (intro py_int_str_str_int below_max_digits [of 30]) simp_all
  with assms INT_RE_str_int [of n] show ?thesis by (simp add: cmd_parse_int_def)
qed

lemma parse_px:
  "0 < n \<Longrightarrow> n \<le> INT64_MAX \<Longrightarrow>
   parse_set [k, v, word_arg ''PX'', word_arg (str_int n)] = Inr (px_options k v (Some (of_int n / 1000)))"
  "INT64_MAX < n \<Longrightarrow> n \<le> INT64_MAX * 1000 \<Longrightarrow>
   parse_set [k, v, word_arg ''PX'', word_arg (str_int n)] = Inl (BadArgument not_integer_msg)"
  using cmd_parse_int_str_int [of n "word_arg (str_int n)"]
  by (simp_all add: parse_set_def Let_def ascii_str_neq parse_ttl_def px_options_def cmd_parse_int_big INT64_MIN_def)

text \<open>The propagated form of a SET that wrote: the same key, value and time to live, without conditions,
  as long as the time to live in milliseconds is a 64-bit integer.\<close>

lemma replicated_set:
  assumes "is_set_word f" and "parse_set args = Inr opts"
    and "case ottl opts of None \<Rightarrow> True | Some t \<Rightarrow> t * 1000 \<le> of_int INT64_MAX"
  shows "hd (to_replication_command (f # args)) = word_arg ''SET'' \<and>
     parse_set (tl (to_replication_command (f # args))) = Inr (px_options (okey opts) (oval opts) (ottl opts))"
proof (cases "ottl opts")
  case None
  then show ?thesis using assms(1,2) by (simp add: to_replication_command_def px_options_def parse_set_def)
next
  case (Some t)
  then obtain n where n: "0 < n" "t = of_int n / 1000" "n \<le> INT64_MAX * 1000"
    using parse_set_ms [OF assms(2)] by (auto simp: whole_ms_def)
  then have ms: "t * 1000 = of_int n" by simp
  then have "n \<le> INT64_MAX" using assms(3) Some by simp
  with parse_px(1) [OF n(1) this, folded n(2)] n(1) ms show ?thesis using assms(1,2) Some
    by (simp add: to_replication_command_def)
qed

text \<open>Beyond that the replica refuses what the primary accepted.\<close>

lemma replicated_set_refused:
  assumes "is_set_word f" and "parse_set args = Inr opts" and "ottl opts = Some t" and "of_int INT64_MAX < t * 1000"
  shows "dispatch c (to_replication_command (f # args)) st =
    (Inr (Error (ascii_str (''ERR '' @ not_integer_msg))), st)"
proof -
  obtain n where n: "0 < n" "t = of_int n / 1000" "n \<le> INT64_MAX * 1000"
    using parse_set_ms [OF assms(2,3)] by (auto simp: whole_ms_def)
  then have ms: "t * 1000 = of_int n" by simp
  then have "INT64_MAX < n" using assms(4) by simp
  from parse_px(2) [OF this n(3)]
  have "parse_set [okey opts, oval opts, word_arg ''PX'', word_arg (str_int n)] = Inl (BadArgument not_integer_msg)" .
  moreover have "to_replication_command (f # args) = word_arg ''SET'' # [okey opts, oval opts, word_arg ''PX'', word_arg (str_int n)]"
    using assms n(1) ms by (simp add: to_replication_command_def)
  ultimately show ?thesis
    using dispatch_named [of "word_arg ''SET''" "''SET''" cmd_set c "[okey opts, oval opts, word_arg ''PX'', word_arg (str_int n)]" st]
    by (simp add: named_def COMMANDS_def cmd_set_def)
qed


section \<open>Full synchronisation\<close>

text \<open>The seconds an entry is given on the replica.\<close>

definition entry_sec :: "clock \<Rightarrow> entry \<Rightarrow> int option" where
  "entry_sec c e = map_option (\<lambda>t. py_trunc (t - mono c) + 1) (expire_at e)"

definition seconds_ok :: "clock \<Rightarrow> store \<Rightarrow> bool" where
  "seconds_ok c st =
     list_all (\<lambda>(k, e). case entry_sec c e of None \<Rightarrow> True | Some n \<Rightarrow> is_int64 n) (data st)"

definition snapshot_log :: "clock \<Rightarrow> store \<Rightarrow> bytes list list" where
  "snapshot_log c st = concat (map (item_commands ''EXPIRE'') (store_items (entry_sec c) (mono c) st))"

lemma snapshot_entry_obj:
  "snapshot_entry (k, v, ttl) = obj_commands ''EXPIRE'' (k, v, map_option (\<lambda>s. py_trunc s + 1) ttl)"
  by (simp add: snapshot_entry_def obj_commands_def split: option.splits)

lemma snapshot_commands:
  assumes "store_inv st"
  shows "fst (build_snapshot_commands c st) =
    concat (map (obj_commands ''EXPIRE'') (map (entry_obj (entry_sec c)) (live_entries (mono c) (data st))))"
proof -
  have "map snapshot_entry xs =
      map (obj_commands ''EXPIRE'') (map (\<lambda>(k, v, ttl). (k, v, map_option (\<lambda>s. py_trunc s + 1) ttl)) xs)" for xs
    by (auto simp: snapshot_entry_obj)
  then show ?thesis
    by (simp only: build_snapshot_commands_def case_prod_beta fst_conv snapshot_objects [OF assms] entry_sec_def [abs_def])
qed

lemma encode_snapshot:
  assumes "store_inv st" and "wire_store st"
  shows "encode_all (map PyList (fst (build_snapshot_commands c st))) = Inr (log_bytes (snapshot_log c st))"
  using encode_items(1) [OF _ live_entries_wire [OF assms(2)], of "''EXPIRE''" "entry_sec c" "mono c"]
  by (simp add: snapshot_commands [OF assms(1)] snapshot_log_def store_items_def)

lemma item_commands_plain:
  assumes "rel_sec.item_ok it"
  shows "list_all plain_command (item_commands ''EXPIRE'' it)"
  using rel_sec.ok_item_commands [OF assms]
  by (auto simp: item_commands_def plain_command_def starts_with_def bytes_upper_def split: prod.splits option.splits)

lemma dispatch_flushdb:
  assumes "named f ''FLUSHDB''"
  shows "dispatch c [f] st = (Inr OK, store_flush st)"
  using dispatch_named [OF assms, of cmd_flushdb c "[]" st] by (simp add: COMMANDS_def cmd_flushdb_def)

lemma no_evict_flush: "no_evict st \<Longrightarrow> no_evict (store_flush st)"
  by (simp add: no_evict_def store_flush_def)

text \<open>Whatever the replica held before: after FLUSHDB and the snapshot it has exactly the live keys of the
  primary, with their values; a deadline is the time of its command plus the remaining time rounded up
  to the next full second.\<close>

lemma sync_view:
  assumes inv: "cmd_inv st" and wire: "wire_store st" and sec: "seconds_ok c st"
    and st0: "cmd_inv st0" "no_evict st0" and tick: "ticking clk t"
    and payload: "encode_all (map PyList (fst (build_snapshot_commands c st))) = Inr payload"
    and run: "stream_loop clk (encode_command [''FLUSHDB''] @ payload) 0 st0 = (why, st')"
  shows "why = Primary_closed \<and> cmd_inv st' \<and>
    (\<forall>k. case live (mono c) st k of
            None \<Rightarrow> live t st' k = None
          | Some (v, d) \<Rightarrow> \<exists>i. live t st' k =
              view_entry t v (map_option (\<lambda>x. mono (clk i) + of_int (py_trunc (x - mono c) + 1)) d))"
proof -
  note sinv = cmd_invD(1) [OF inv]
  let ?items = "store_items (entry_sec c) (mono c) st"
  let ?cmds = "[''FLUSHDB''] # snapshot_log c st"
  note it = item_of_store [OF sinv wire, of "entry_sec c" "mono c"]
  have ok: "list_all rel_sec.item_ok ?items"
    using it(3) sec by (auto simp: list_all_iff rel_sec.item_ok_def seconds_ok_def store_items_def entry_item_def)
  have flush: "cmd_inv (store_flush st0)" "no_evict (store_flush st0)" "live t (store_flush st0) k = None" for k
    using st0 by (simp_all add: inv_intros no_evict_flush store_flush_refines)
  obtain s' n where items: "run_commands clk 1 (snapshot_log c st) (store_flush st0) = Inr (n, s')" "cmd_inv s'"
    and at_bytes: "\<And>k. case map_of ?items k of
            None \<Rightarrow> live t s' (Bytes k) = live t (store_flush st0) (Bytes k)
          | Some (v, x) \<Rightarrow> \<exists>i. live t s' (Bytes k) =
              view_entry t (PyArg (Bytes v)) (map_option (\<lambda>m. mono (clk i) + of_int m) x)"
    and at_str: "\<And>s. live t s' (Str s) = live t (store_flush st0) (Str s)"
    using rel_sec.run_items [OF it(1) ok flush(1,2) tick, of 1] unfolding snapshot_log_def by auto
  have plain: "list_all plain_command ?cmds"
    using ok item_commands_plain
    by (force simp: snapshot_log_def list_all_iff plain_command_def [of "[''FLUSHDB'']"] starts_with_def bytes_upper_def
        ok_command_def MAX_ARRAY_LENGTH_def ok_bulk_def MAX_BULK_LENGTH_def)
  have runs: "run_commands clk 0 ?cmds st0 = Inr (n, s')"
    using items(1) dispatch_flushdb [OF named_words(4), of "clk 0" st0] by simp
  have "encode_command [''FLUSHDB''] @ payload = log_bytes ?cmds @ []"
    using payload encode_snapshot [OF sinv wire, of c] by simp
  with run stream_loop_commands [OF plain runs, of "[]"] have res: "why = Primary_closed" "st' = s'"
    by (simp_all add: stream_loop_end del: append_Nil2 log_bytes_simps)
  have we: "od_get (data st) k = Some e \<Longrightarrow> wire_entry (k, e)" for k e
    using wire by (auto simp: wire_store_entries list_all_iff od_get_def dest!: map_of_SomeD)
  have "case live (mono c) st k of
            None \<Rightarrow> live t st' k = None
          | Some (v, d) \<Rightarrow> \<exists>i. live t st' k =
              view_entry t v (map_option (\<lambda>x. mono (clk i) + of_int (py_trunc (x - mono c) + 1)) d)" for k
  proof (cases k)
    case (Str s)
    then have "od_get (data st) k = None"
      using we [of k] by (cases "od_get (data st) k") (auto simp: wire_entry_def wire_arg_def)
    with Str at_str flush(3) res show ?thesis by (simp add: live_def [of "mono c"])
  next
    case (Bytes b)
    show ?thesis
      using at_bytes [of b] it(2) [of b] flush(3) Bytes wire_entryD [OF we [of k]] res
      by (auto simp: live_def [of "mono c"] entry_sec_def option.map_comp comp_def split: option.splits if_splits)
  qed
  with res items(2) show ?thesis by simp
qed

text \<open>When the primary's and the replica's monotonic clocks agree and the command runs no earlier than the
  snapshot was taken, the replica never drops a key before the primary does, and at most a second and
  the delay later.\<close>

lemma sync_deadline:
  assumes "m \<le> x" and "m \<le> m'"
  shows "x < m' + of_int (py_trunc (x - m) + 1) \<and> m' + of_int (py_trunc (x - m) + 1) \<le> x + 1 + (m' - m)"
  using assms floor_correct [of "x - m"] by (simp add: py_trunc_def)

end
