(* ===== verification/Replica_Link.thy ===== *)
theory Replica_Link
  imports Mini_Prelude "HOL-Library.Sublist"
begin

text \<open>
  The link from a primary to one of its replicas (\<^verbatim>\<open>_ReplicaLink\<close> of \<^verbatim>\<open>server.py\<close>): an unbounded queue in
  front of a writer, a task that pumps it, and a limit on the bytes that are not drained. The calls of
  the server and the turns of the pump interleave in any order.
\<close>

section \<open>The link\<close>

text \<open>The queue, the bytes not yet drained, and what the pump has written; \<open>in_flight\<close> is the payload whose
  drain the pump waits for.\<close>

record replica_link =
  lclosed :: bool
  limit :: int
  queue :: "bytes list"
  pending :: int
  in_flight :: "bytes option"
  written :: bytes

definition link_open :: "int \<Rightarrow> replica_link" where
  "link_open n = \<lparr>lclosed = False, limit = n, queue = [], pending = 0, in_flight = None, written = []\<rparr>"

definition link_close :: "replica_link \<Rightarrow> replica_link" where
  "link_close l = (if lclosed l then l else l\<lparr>lclosed := True\<rparr>)"

definition link_send :: "bool \<Rightarrow> bytes \<Rightarrow> replica_link \<Rightarrow> replica_link" where
  "link_send force payload l =
     (if lclosed l then l
      else
        let l1 = l\<lparr>pending := pending l + int (length payload)\<rparr>
        in if limit l1 < pending l1 \<and> \<not> force then link_close l1
           else l1\<lparr>queue := queue l1 @ [payload]\<rparr>)"

text \<open>One turn of \<^verbatim>\<open>_pump\<close>, before and after it waits for the drain. Closing the link cancels the task.\<close>

definition pump_write :: "replica_link \<Rightarrow> replica_link" where
  "pump_write l =
     (case (in_flight l, queue l) of
        (None, payload # rest) \<Rightarrow>
          if lclosed l then l
          else l\<lparr>queue := rest, in_flight := Some payload, written := written l @ payload\<rparr>
      | _ \<Rightarrow> l)"

definition pump_drained :: "replica_link \<Rightarrow> replica_link" where
  "pump_drained l =
     (case in_flight l of
        None \<Rightarrow> l
      | Some payload \<Rightarrow>
          if lclosed l then l else l\<lparr>pending := pending l - int (length payload), in_flight := None\<rparr>)"


section \<open>Runs\<close>

datatype link_event = Hand bool bytes | Pump | Drained | Close

fun link_apply :: "link_event \<Rightarrow> replica_link \<Rightarrow> replica_link" where
  "link_apply (Hand force payload) l = link_send force payload l"
| "link_apply Pump l = pump_write l"
| "link_apply Drained l = pump_drained l"
| "link_apply Close l = link_close l"

fun payload_of :: "link_event \<Rightarrow> bytes" where
  "payload_of (Hand _ payload) = payload"
| "payload_of _ = []"

text \<open>What has been handed to an open link, and the bytes the link counts.\<close>

definition handed :: "replica_link \<Rightarrow> bytes" where
  "handed l = written l @ concat (queue l)"

definition outstanding :: "replica_link \<Rightarrow> int" where
  "outstanding l = int (length (concat (queue l))) + (case in_flight l of None \<Rightarrow> 0 | Some p \<Rightarrow> int (length p))"

definition link_inv :: "bytes \<Rightarrow> replica_link \<Rightarrow> bool" where
  "link_inv sent l \<longleftrightarrow>
     prefix (written l) sent \<and> (\<not> lclosed l \<longrightarrow> handed l = sent \<and> pending l = outstanding l)"

lemma link_inv_step: "link_inv sent l \<Longrightarrow> link_inv (sent @ payload_of e) (link_apply e l)"
proof (cases e)
  case (Hand force payload)
  assume "link_inv sent l"
  then show ?thesis
    by (auto simp: Hand link_inv_def link_send_def link_close_def handed_def outstanding_def Let_def)
qed (auto simp: link_inv_def pump_write_def pump_drained_def link_close_def handed_def outstanding_def
      split: option.splits list.splits)

lemma link_run_inv:
  "link_inv sent l \<Longrightarrow> link_inv (sent @ concat (map payload_of evs)) (fold link_apply evs l)"
proof (induction evs arbitrary: sent l)
  case (Cons e evs)
  from Cons.IH [OF link_inv_step [OF Cons.prems, of e]] show ?case by simp
qed simp

lemma link_open_inv: "link_inv [] (link_open n)"
  by (simp add: link_inv_def link_open_def handed_def outstanding_def)

lemma link_apply_limit [simp]: "limit (link_apply e l) = limit l"
  by (cases e) (auto simp: link_send_def link_close_def pump_write_def pump_drained_def Let_def split: option.splits list.splits)

lemma link_stays_closed [simp]: "lclosed l \<Longrightarrow> lclosed (link_apply e l)"
  by (cases e) (auto simp: link_send_def link_close_def pump_write_def pump_drained_def split: option.splits list.splits)

text \<open>A send that is not forced is accepted exactly when the replica is not too far behind.\<close>

lemma link_send_open:
  assumes "link_inv sent l" and "\<not> lclosed l"
  shows "lclosed (link_send force payload l) \<longleftrightarrow> \<not> force \<and> limit l < outstanding l + int (length payload)"
  using assms by (auto simp: link_inv_def link_send_def link_close_def Let_def)

text \<open>While every send fits, nothing closes the link but a call of \<open>close\<close>; without forced sends what
  is outstanding never exceeds the limit.\<close>

definition forced :: "link_event \<Rightarrow> bool" where
  "forced e = (case e of Hand force _ \<Rightarrow> force | _ \<Rightarrow> False)"

lemma outstanding_step:
  assumes "link_inv sent l" and "\<not> forced e" and "\<not> lclosed (link_apply e l)" and "outstanding l \<le> limit l"
  shows "outstanding (link_apply e l) \<le> limit l"
proof (cases e)
  case (Hand force payload)
  with assms show ?thesis
    by (auto simp: forced_def link_inv_def link_send_def link_close_def outstanding_def Let_def split: if_splits)
qed (use assms in \<open>auto simp: pump_write_def pump_drained_def link_close_def outstanding_def split: option.splits list.splits if_splits\<close>)

lemma outstanding_run:
  assumes "link_inv sent l" and "list_all (\<lambda>e. \<not> forced e) evs" and "\<not> lclosed (fold link_apply evs l)"
    and "outstanding l \<le> limit l"
  shows "outstanding (fold link_apply evs l) \<le> limit l"
  using assms
proof (induction evs arbitrary: sent l)
  case (Cons e evs)
  have closed: "lclosed x \<Longrightarrow> lclosed (fold link_apply ys x)" for x ys by (induction ys arbitrary: x) simp_all
  with Cons.prems(3) have "\<not> lclosed (link_apply e l)" by auto
  with Cons.prems outstanding_step [of sent l e] Cons.IH [OF link_inv_step [OF Cons.prems(1), of e]]
  show ?case by simp
qed simp

text \<open>The queue drains: once the pump has taken its turns, everything handed over is written.\<close>

lemma pump_turn:
  assumes "link_inv sent l" and "\<not> lclosed l" and "in_flight l = None" and "queue l = p # ps"
  shows "pump_drained (pump_write l) = l\<lparr>queue := ps, written := written l @ p, pending := pending l - int (length p)\<rparr>"
  using assms by (simp add: pump_write_def pump_drained_def)

lemma pump_all:
  assumes "link_inv sent l" and "\<not> lclosed l" and "in_flight l = None"
  shows "\<exists>l'. fold link_apply (concat (replicate (length (queue l)) [Pump, Drained])) l = l' \<and>
     written l' = sent \<and> queue l' = [] \<and> pending l' = 0 \<and> \<not> lclosed l'"
  using assms
proof (induction "queue l" arbitrary: l)
  case Nil
  then show ?case by (auto simp: link_inv_def handed_def outstanding_def)
next
  case (Cons p ps)
  let ?l = "pump_drained (pump_write l)"
  have l': "?l = l\<lparr>queue := ps, written := written l @ p, pending := pending l - int (length p)\<rparr>"
    using pump_turn [OF Cons.prems(1-3)] Cons.hyps(2) by simp
  have inv: "link_inv sent ?l"
    using link_inv_step [OF link_inv_step [OF Cons.prems(1), of Pump], of Drained] by simp
  have q: "length (queue l) = Suc (length ps)" using Cons.hyps(2) [symmetric] by simp
  from Cons.hyps(1) [of ?l] inv Cons.prems l' q show ?case by simp
qed

end
