(* ===== verification/Cache_Server.thy ===== *)
theory Cache_Server
  imports Aof_Rewrite Repl_Stream Replica_Link
begin

text \<open>
  The server (\<^verbatim>\<open>server.py\<close>): start-up, the handling of one client command from the name checks to the
  log and the replicas, the client loop, the full synchronisation of a replica, INFO, the background
  tasks and shutdown.

  A coroutine runs without interruption between two suspension points, so one command is one atomic
  step of the server up to its commit; the client loop runs the commands of one connection, and
  \<open>server_step\<close> interleaves the commands of all connections with the background tasks.
\<close>

section \<open>State\<close>

definition REPLICA_BACKLOG_LIMIT :: int where "REPLICA_BACKLOG_LIMIT = 64 * 1024 * 1024"

definition DENYOOM :: "string list" where
  "DENYOOM = [''SET'', ''MSET'', ''INCR'', ''DECR'', ''INCRBY'', ''DECRBY'']"

text \<open>\<open>rewrite_running\<close> says that the rewrite task is not done; \<open>rewrite_payload\<close> is what the suspended task
  has written to the temporary file.\<close>

record server =
  sstore :: store
  aof :: "aof_log option"
  requirepass :: "pystr option"
  masterauth :: "pystr option"
  replica_of :: "(pystr \<times> int) option"
  link_up :: bool
  replicas :: "replica_link list"
  maxclients :: int
  client_output_limit :: int
  aof_rewrite_min_size :: int
  aof_rewrite_percentage :: int
  aof_base_size :: nat
  rewrite_running :: bool
  rewrite_payload :: "bytes option"
  client_count :: nat
  connections_received :: nat
  rejected_connections :: nat
  commands_processed :: nat
  start_time :: "seconds option"
  bound_port :: int

text \<open>\<^verbatim>\<open>x or None\<close> for a text.\<close>

definition or_none :: "pystr option \<Rightarrow> pystr option" where
  "or_none p = (case p of Some [] \<Rightarrow> None | _ \<Rightarrow> p)"

datatype server_init_error = Bad_fsync string | Store_refused init_error

definition server_init ::
  "(pystr \<times> int) option \<Rightarrow> string \<Rightarrow> pystr option \<Rightarrow> pystr option \<Rightarrow> int \<Rightarrow> string \<Rightarrow> int \<Rightarrow> int \<Rightarrow> int \<Rightarrow> int \<Rightarrow>
   server_init_error + server" where
  "server_init rep fsync_policy pass mauth maxmem pol maxcl outlim min_size percent =
     (if \<not> List.member FSYNC_POLICIES fsync_policy then Inl (Bad_fsync fsync_policy)
      else case store_init (if rep \<noteq> None then 0 else maxmem) pol of
        Inl e \<Rightarrow> Inl (Store_refused e)
      | Inr st \<Rightarrow>
          Inr \<lparr>sstore = st, aof = None, requirepass = or_none pass, masterauth = or_none mauth,
               replica_of = rep, link_up = False, replicas = [], maxclients = maxcl,
               client_output_limit = outlim, aof_rewrite_min_size = min_size,
               aof_rewrite_percentage = percent, aof_base_size = 0, rewrite_running = False, rewrite_payload = None,
               client_count = 0, connections_received = 0, rejected_connections = 0,
               commands_processed = 0, start_time = None, bound_port = 0\<rparr>)"

text \<open>The part of \<^verbatim>\<open>start\<close> that loads the log: a replica ignores it.\<close>

datatype start_error = Start_fsync string | Start_raised py_exc

definition load_aof ::
  "(nat \<Rightarrow> clock) \<Rightarrow> bytes option \<Rightarrow> string \<Rightarrow> server \<Rightarrow> start_error + server" where
  "load_aof clk existing fsync_policy s =
     (case existing of
        None \<Rightarrow> Inr s
      | Some raw \<Rightarrow>
          if replica_of s \<noteq> None then Inr s
          else (case aof_open raw fsync_policy of
                  Inl p \<Rightarrow> Inl (Start_fsync p)
                | Inr l \<Rightarrow>
                    (case replay clk l (sstore s) of
                       Inl e \<Rightarrow> Inl (Start_raised e)
                     | Inr (n, corrupt, l1, st1) \<Rightarrow>
                         Inr (s\<lparr>sstore := st1, aof := Some l1, aof_base_size := aof_size l1\<rparr>))))"


section \<open>Steps of a command\<close>

datatype server_exc = Handler_exc py_exc | Encoding_exc encode_error

text \<open>Sequencing of steps that may raise; the state is kept.\<close>

definition seq_step ::
  "(server \<Rightarrow> server_exc option \<times> server) \<Rightarrow> (server \<Rightarrow> server_exc option \<times> server) \<Rightarrow>
   server \<Rightarrow> server_exc option \<times> server" where
  "seq_step f g s = (case f s of (Some e, s1) \<Rightarrow> (Some e, s1) | (None, s1) \<Rightarrow> g s1)"

definition drop_closed :: "replica_link list \<Rightarrow> replica_link list" where
  "drop_closed ls = filter (\<lambda>l. \<not> lclosed l) ls"

definition propagate :: "arg list \<Rightarrow> server \<Rightarrow> server_exc option \<times> server" where
  "propagate command s =
     (if replicas s = [] then (None, s)
      else case encode (command_obj command) of
        Inl e \<Rightarrow> (Some (Encoding_exc e), s)
      | Inr payload \<Rightarrow> (None, s\<lparr>replicas := drop_closed (map (link_send False payload) (replicas s))\<rparr>))"

definition aof_write :: "arg list \<Rightarrow> server \<Rightarrow> server_exc option \<times> server" where
  "aof_write command s =
     (case aof s of
        None \<Rightarrow> (None, s)
      | Some l \<Rightarrow>
          (case aof_append command l of
             Inl e \<Rightarrow> (Some (Encoding_exc e), s)
           | Inr l1 \<Rightarrow> (None, s\<lparr>aof := Some l1\<rparr>)))"

fun each_command ::
  "(arg list \<Rightarrow> server \<Rightarrow> server_exc option \<times> server) \<Rightarrow> arg list list \<Rightarrow> server \<Rightarrow> server_exc option \<times> server" where
  "each_command f [] s = (None, s)"
| "each_command f (c # cs) s = seq_step (f c) (each_command f cs) s"

definition log_command :: "seconds \<Rightarrow> arg list \<Rightarrow> server \<Rightarrow> server_exc option \<times> server" where
  "log_command now command s =
     (if aof s = None then (None, s)
      else case to_aof_commands now command of
        Inl e \<Rightarrow> (Some (Handler_exc e), s)
      | Inr cs \<Rightarrow> each_command aof_write cs s)"

definition record_eviction :: "arg \<Rightarrow> server \<Rightarrow> server_exc option \<times> server" where
  "record_eviction k = seq_step (aof_write [word_arg ''DEL'', k]) (propagate [word_arg ''DEL'', k])"

fun record_evictions :: "arg list \<Rightarrow> server \<Rightarrow> server_exc option \<times> server" where
  "record_evictions [] s = (None, s)"
| "record_evictions (k # ks) s = seq_step (record_eviction k) (record_evictions ks) s"

text \<open>What follows a write that was answered without an error: the log and the replicas get it, unless
  it is a SET that did nothing, and then the keys it evicted.\<close>

definition record_write :: "clock \<Rightarrow> pystr \<Rightarrow> nat \<Rightarrow> arg list \<Rightarrow> server \<Rightarrow> server_exc option \<times> server" where
  "record_write c name before command =
     seq_step
       (\<lambda>s. if name \<noteq> ascii_str ''SET'' \<or> writes (sstore s) \<noteq> before
            then seq_step (log_command (wall c) command) (propagate (to_replication_command command)) s
            else (None, s))
       (\<lambda>s. case drain_evictions (sstore s) of (ks, st1) \<Rightarrow> record_evictions ks (s\<lparr>sstore := st1\<rparr>))"

definition err :: "string \<Rightarrow> pyobj" where "err m = Error (ascii_str m)"

definition quote :: string where "quote = [CHR 0x27]"

definition is_error :: "pyobj \<Rightarrow> bool" where
  "is_error v = (case v of Error _ \<Rightarrow> True | _ \<Rightarrow> False)"

definition check_auth :: "bytes list \<Rightarrow> server \<Rightarrow> encode_error + pyobj" where
  "check_auth args s =
     (case requirepass s of
        None \<Rightarrow> Inr (err ''ERR AUTH called without any password configured'')
      | Some pw \<Rightarrow>
          if length args \<noteq> 1 \<and> length args \<noteq> 2 then
            Inr (err (''ERR wrong number of arguments for '' @ quote @ ''AUTH'' @ quote @ '' command''))
          else if length args = 2 \<and> hd args \<noteq> ''default'' then
            Inr (err ''WRONGPASS invalid username-password pair'')
          else (case utf8_encode pw of
                  None \<Rightarrow> Inl UnicodeEncodeError
                | Some raw \<Rightarrow>
                    if last args = raw then Inr OK else Inr (err ''WRONGPASS invalid username-password pair'')))"

definition start_rewrite :: "server \<Rightarrow> pyobj \<times> server" where
  "start_rewrite s =
     (if aof s = None then (err ''ERR AOF is not enabled'', s)
      else if rewrite_running s then (err ''ERR Background append only file rewriting already in progress'', s)
      else (SimpleString (ascii_str ''Background append only file rewriting started''),
            s\<lparr>rewrite_running := True\<rparr>))"

definition should_auto_rewrite :: "server \<Rightarrow> bool" where
  "should_auto_rewrite s =
     (case aof s of
        None \<Rightarrow> False
      | Some l \<Rightarrow>
          if aof_rewrite_min_size s \<le> 0 \<or> rewrite_running s then False
          else
            let size = int (aof_size l)
            in if size < aof_rewrite_min_size s then False
               else
                 let base = max (int (aof_base_size s)) 1
                 in size * 100 \<ge> base * (100 + aof_rewrite_percentage s))"


section \<open>INFO\<close>

definition field :: "string \<Rightarrow> pystr \<Rightarrow> pystr" where
  "field n v = ascii_str (n @ '':'') @ v"

definition int_field :: "string \<Rightarrow> int \<Rightarrow> pystr" where
  "int_field n v = field n (ascii_str (str_int v))"

definition info_lines :: "clock \<Rightarrow> server \<Rightarrow> pystr list \<times> server" where
  "info_lines c s =
     (let st = sstore s;
          uptime = (case start_time s of None \<Rightarrow> 0 | Some t \<Rightarrow> if t = 0 then 0 else py_trunc (mono c - t));
          head =
            [ascii_str ''# Server'', int_field ''tcp_port'' (bound_port s), int_field ''uptime_in_seconds'' uptime,
             ascii_str ''# Clients'', int_field ''connected_clients'' (int (client_count s)),
             int_field ''maxclients'' (maxclients s),
             ascii_str ''# Memory'', int_field ''used_memory'' (used_memory st), int_field ''maxmemory'' (maxmemory st),
             field ''maxmemory_policy'' (ascii_str (policy st)),
             ascii_str ''# Stats'', int_field ''total_connections_received'' (int (connections_received s)),
             int_field ''rejected_connections'' (int (rejected_connections s)),
             int_field ''total_commands_processed'' (int (commands_processed s)),
             int_field ''keyspace_hits'' (int (hits st)), int_field ''keyspace_misses'' (int (misses st)),
             int_field ''expired_keys'' (int (expired_keys st)), int_field ''evicted_keys'' (int (evicted_keys st)),
             ascii_str ''# Replication'',
             field ''role'' (ascii_str (if replica_of s = None then ''master'' else ''replica'')),
             int_field ''connected_replicas'' (int (length (replicas s)))];
          upstream = (case replica_of s of
              None \<Rightarrow> []
            | Some (host, port) \<Rightarrow>
                [field ''master_host'' host, int_field ''master_port'' port,
                 field ''master_link_status'' (ascii_str (if link_up s then ''up'' else ''down''))]);
          persistence =
            [ascii_str ''# Persistence'', int_field ''aof_enabled'' (if aof s = None then 0 else 1)] @
            (case aof s of
               None \<Rightarrow> []
             | Some l \<Rightarrow>
                 [int_field ''aof_current_size'' (int (aof_size l)),
                  int_field ''aof_rewrite_in_progress'' (if rewrite_running s then 1 else 0),
                  int_field ''aof_rewrites_completed'' (int (rewrites_done l))])
      in case store_len (mono c) st of (n, st1) \<Rightarrow>
           (head @ upstream @ persistence @ [ascii_str ''# Keyspace'', ascii_str (''db0:keys='' @ str_int (int n))],
            s\<lparr>sstore := st1\<rparr>))"

definition build_info :: "clock \<Rightarrow> server \<Rightarrow> pystr \<times> server" where
  "build_info c s = (case info_lines c s of (ls, s1) \<Rightarrow> (concat (map (\<lambda>l. l @ [10]) ls), s1))"


section \<open>One command\<close>

datatype action =
    Send pyobj
  | Send_and_close pyobj
  | Serve_replica
  | Crash server_exc

text \<open>The name the server checks: decoded as ASCII.\<close>

definition server_name :: "bytes list \<Rightarrow> pystr" where
  "server_name command = str_upper (ascii_decode (hd command))"

definition denied_oom :: "pystr \<Rightarrow> server \<Rightarrow> bool" where
  "denied_oom name s \<longleftrightarrow>
     List.member (map ascii_str DENYOOM) name \<and> policy (sstore s) = ''noeviction'' \<and> over_limit (sstore s)"

text \<open>The last part of the loop body: dispatch, then the records of a write. The log is committed
  before the reply is sent.\<close>

definition commit_log :: "server \<Rightarrow> server" where
  "commit_log s = s\<lparr>aof := map_option aof_commit (aof s)\<rparr>"

definition execute :: "clock \<Rightarrow> bytes list \<Rightarrow> server \<Rightarrow> action \<times> server" where
  "execute c command s =
     (let name = server_name command;
          args = map Bytes command;
          before = writes (sstore s)
      in case dispatch c args (sstore s) of
           (Inl e, st1) \<Rightarrow> (Crash (Handler_exc e), s\<lparr>sstore := st1\<rparr>)
         | (Inr reply, st1) \<Rightarrow>
             let s1 = s\<lparr>sstore := st1\<rparr>
             in if \<not> is_error reply \<and> is_write_command name then
                  (case record_write c name before args s1 of
                     (Some e, s2) \<Rightarrow> (Crash e, s2)
                   | (None, s2) \<Rightarrow> (Send reply, commit_log s2))
                else (Send reply, s1))"

text \<open>The loop body for a command that is not empty: the checks in the order of the code.\<close>

definition handle_command :: "clock \<Rightarrow> bool \<Rightarrow> bytes list \<Rightarrow> server \<Rightarrow> action \<times> bool \<times> server" where
  "handle_command c authed command s0 =
     (let s = s0\<lparr>commands_processed := Suc (commands_processed s0)\<rparr>;
          name = server_name command
      in if name = ascii_str ''QUIT'' then (Send_and_close OK, authed, s)
         else if name = ascii_str ''AUTH'' then
           (case check_auth (tl command) s of
              Inl e \<Rightarrow> (Crash (Encoding_exc e), authed, s)
            | Inr reply \<Rightarrow> (Send reply, if requirepass s = None then authed else \<not> is_error reply, s))
         else if \<not> authed then (Send (err ''NOAUTH Authentication required.''), authed, s)
         else if name = ascii_str ''SYNC'' then
           (if replica_of s \<noteq> None then (Send (err ''ERR chained replication is not supported''), authed, s)
            else (Serve_replica, authed, s))
         else if name = ascii_str ''INFO'' then
           (case build_info c s of (text, s1) \<Rightarrow> (Send (PyArg (Str text)), authed, s1))
         else if name = ascii_str ''BGREWRITEAOF'' then
           (case start_rewrite s of (reply, s1) \<Rightarrow> (Send reply, authed, s1))
         else if replica_of s \<noteq> None \<and> is_write_command name then
           (Send (err (''READONLY You can'' @ quote @ ''t write against a replica.'')), authed, s)
         else if denied_oom name s then
           (Send (err (''OOM command not allowed when used memory > '' @ quote @ ''maxmemory'' @ quote @ ''.'')), authed, s)
         else (case execute c command s of (a, s1) \<Rightarrow> (a, authed, s1)))"


section \<open>Protocol errors\<close>

text \<open>\<^verbatim>\<open>repr\<close> of bytes.\<close>

definition hex_digit :: "nat \<Rightarrow> char" where
  "hex_digit n = (if n < 10 then char_of (48 + n) else char_of (87 + n))"

definition repr_byte :: "char \<Rightarrow> char \<Rightarrow> string" where
  "repr_byte q c =
     (let n = of_char c :: nat
      in if c = q \<or> n = 92 then [CHR 0x5C, c]
         else if n = 9 then [CHR 0x5C, CHR ''t'']
         else if n = 10 then [CHR 0x5C, CHR ''n'']
         else if n = 13 then [CHR 0x5C, CHR ''r'']
         else if n < 32 \<or> 127 \<le> n then [CHR 0x5C, CHR ''x'', hex_digit (n div 16), hex_digit (n mod 16)]
         else [c])"

definition repr_bytes :: "bytes \<Rightarrow> string" where
  "repr_bytes b =
     (let q = (if CHR 0x27 \<in> set b \<and> CHR 0x22 \<notin> set b then CHR 0x22 else CHR 0x27)
      in [CHR ''b'', q] @ concat (map (repr_byte q) b) @ [q])"

definition protocol_error_text :: "protocol_error \<Rightarrow> string" where
  "protocol_error_text e =
     (case e of
        Invalid_int what b \<Rightarrow> ''invalid '' @ what @ '': '' @ repr_bytes b
      | Array_too_large n \<Rightarrow> ''array length too large: '' @ str_int n
      | Line_too_long \<Rightarrow> ''line too long''
      | Not_CRLF_terminated raw \<Rightarrow> ''line not CRLF-terminated: '' @ repr_bytes raw
      | Invalid_bulk_length n \<Rightarrow> ''invalid bulk string length: '' @ str_int n
      | Eof_in_bulk_header \<Rightarrow> ''unexpected EOF reading bulk string header''
      | Expected_bulk h \<Rightarrow> ''expected bulk string, got: '' @ repr_bytes h
      | Missing_trailing_CRLF \<Rightarrow> ''bulk string missing trailing CRLF''
      | Eof_in_reply \<Rightarrow> ''unexpected EOF reading reply''
      | Empty_reply_line \<Rightarrow> ''empty reply line''
      | Invalid_array_length n \<Rightarrow> ''invalid array length: '' @ str_int n
      | Unknown_reply l \<Rightarrow> ''unknown reply type: '' @ repr_bytes l)"

definition protocol_error_reply :: "protocol_error \<Rightarrow> pyobj" where
  "protocol_error_reply e = err (''ERR Protocol error: '' @ protocol_error_text e)"


section \<open>Connections\<close>

text \<open>\<^verbatim>\<open>_send\<close> gives up on a client that does not read its replies; \<open>buffered\<close> is what the transport holds
  after the write.\<close>

definition output_overflow :: "int \<Rightarrow> server \<Rightarrow> bool" where
  "output_overflow buffered s \<longleftrightarrow>
     buffered \<noteq> 0 \<and> client_output_limit s \<noteq> 0 \<and> client_output_limit s < buffered"

text \<open>Why a connection ends. An idle client that is timed out looks like one that has closed.\<close>

datatype client_end =
    Peer_closed
  | Torn_input
  | Bad_protocol protocol_error
  | Quit
  | Rejected
  | Output_overflow
  | Became_replica
  | Crashed server_exc

definition send_last ::
  "client_end \<Rightarrow> int \<Rightarrow> bool \<Rightarrow> bytes \<Rightarrow> pyobj \<Rightarrow> server \<Rightarrow> client_end \<times> bytes \<times> bool \<times> server" where
  "send_last why buffered authed out v s =
     (case encode v of
        Inl x \<Rightarrow> (Crashed (Encoding_exc x), out, authed, s)
      | Inr b \<Rightarrow> (if output_overflow buffered s then Output_overflow else why, out @ b, authed, s))"

text \<open>The loop of \<^verbatim>\<open>_handle_client\<close> on the bytes a client sends. The n-th reply is computed at \<open>clk n\<close> and leaves
  \<open>buf n\<close> bytes in the transport; \<open>out\<close> is what has been written. The result has the state of the
  authentication at the end.\<close>

function client_loop ::
  "(nat \<Rightarrow> clock) \<Rightarrow> (nat \<Rightarrow> int) \<Rightarrow> nat \<Rightarrow> bool \<Rightarrow> bytes \<Rightarrow> bytes \<Rightarrow> server \<Rightarrow>
   client_end \<times> bytes \<times> bool \<times> server" where
  "client_loop clk buf n authed out r s =
     (case read_command r of
        Inl (ProtocolError e) \<Rightarrow> send_last (Bad_protocol e) (buf n) authed out (protocol_error_reply e) s
      | Inl _ \<Rightarrow> (Torn_input, out, authed, s)
      | Inr (None, _) \<Rightarrow> (Peer_closed, out, authed, s)
      | Inr (Some command, r1) \<Rightarrow>
          if command = [] then client_loop clk buf n authed out r1 s
          else (case handle_command (clk n) authed command s of
                  (Crash e, authed1, s1) \<Rightarrow> (Crashed e, out, authed1, s1)
                | (Serve_replica, authed1, s1) \<Rightarrow> (Became_replica, out, authed1, s1)
                | (Send_and_close v, authed1, s1) \<Rightarrow> send_last Quit (buf n) authed1 out v s1
                | (Send v, authed1, s1) \<Rightarrow>
                    (case encode v of
                       Inl x \<Rightarrow> (Crashed (Encoding_exc x), out, authed1, s1)
                     | Inr b \<Rightarrow>
                         if output_overflow (buf n) s1 then (Output_overflow, out @ b, authed1, s1)
                         else client_loop clk buf (Suc n) authed1 (out @ b) r1 s1)))"
  by pat_completeness auto
termination client_loop
  by (relation "measure (\<lambda>(clk, buf, n, authed, out, r, s). length r)") (auto dest: read_command_shorter)

declare client_loop.simps [simp del]

text \<open>Accepting a connection, and the \<^verbatim>\<open>finally\<close> part when it ends.\<close>

definition accept_client :: "server \<Rightarrow> bool \<times> server" where
  "accept_client s =
     (let s1 = s\<lparr>connections_received := Suc (connections_received s)\<rparr>
      in if maxclients s1 \<noteq> 0 \<and> maxclients s1 \<le> int (client_count s1)
         then (False, s1\<lparr>rejected_connections := Suc (rejected_connections s1)\<rparr>)
         else (True, s1\<lparr>client_count := Suc (client_count s1)\<rparr>))"

definition leave_client :: "server \<Rightarrow> server" where
  "leave_client s = s\<lparr>client_count := client_count s - 1\<rparr>"

text \<open>A whole connection when nothing else runs.\<close>

definition handle_client ::
  "(nat \<Rightarrow> clock) \<Rightarrow> (nat \<Rightarrow> int) \<Rightarrow> bytes \<Rightarrow> server \<Rightarrow> client_end \<times> bytes \<times> server" where
  "handle_client clk buf r s =
     (case accept_client s of
        (False, s1) \<Rightarrow>
          (case send_last Rejected 0 False [] (err ''ERR max number of clients reached'') s1 of
             (why, out, _, s2) \<Rightarrow> (why, out, s2))
      | (True, s1) \<Rightarrow>
          (case client_loop clk buf 0 (requirepass s1 = None) [] r s1 of
             (why, out, _, s2) \<Rightarrow> (why, out, leave_client s2)))"


section \<open>Replicas and background tasks\<close>

text \<open>\<^verbatim>\<open>_serve_replica\<close>: the snapshot is queued whatever its size, then the link joins the others.\<close>

definition link_send_all :: "bytes list \<Rightarrow> replica_link \<Rightarrow> replica_link" where
  "link_send_all payloads l = fold (link_send True) payloads l"

fun encode_each :: "pyobj list \<Rightarrow> encode_error + bytes list" where
  "encode_each [] = Inr []"
| "encode_each (v # vs) = sum_bind (encode v) (\<lambda>b. map_sum id (\<lambda>bs. b # bs) (encode_each vs))"

definition serve_replica :: "clock \<Rightarrow> server \<Rightarrow> server_exc option \<times> server" where
  "serve_replica c s =
     (case build_snapshot_commands c (sstore s) of (commands, st1) \<Rightarrow>
        (case encode_each (command_obj [word_arg ''FLUSHDB''] # map PyList commands) of
           Inl e \<Rightarrow> (Some (Encoding_exc e), s\<lparr>sstore := st1\<rparr>)
         | Inr payloads \<Rightarrow>
             (None, s\<lparr>sstore := st1,
                      replicas := replicas s @ [link_send_all payloads (link_open REPLICA_BACKLOG_LIMIT)]\<rparr>)))"

definition sweep_once :: "clock \<Rightarrow> server \<Rightarrow> server" where
  "sweep_once c s = s\<lparr>sstore := snd (sweep_expired (mono c) (sstore s))\<rparr>"

definition heartbeat :: "server \<Rightarrow> server_exc option \<times> server" where
  "heartbeat s = propagate [word_arg ''PING''] s"

text \<open>One turn of \<^verbatim>\<open>_aof_loop\<close>.\<close>

definition aof_turn :: "server \<Rightarrow> server" where
  "aof_turn s =
     (case aof s of
        None \<Rightarrow> s
      | Some l \<Rightarrow>
          let s1 = (if fsync l = ''everysec'' then s\<lparr>aof := Some (aof_sync l)\<rparr> else s)
          in if should_auto_rewrite s1 then snd (start_rewrite s1) else s1)"

text \<open>\<^verbatim>\<open>_rewrite_aof\<close> up to its suspension, after it, and when writing the file failed.\<close>

definition rewrite_task_begin :: "clock \<Rightarrow> server \<Rightarrow> server" where
  "rewrite_task_begin c s =
     (case aof s of
        None \<Rightarrow> s
      | Some l \<Rightarrow>
          (case rewrite_begin c (sstore s) l of
             (Inl _, st1) \<Rightarrow> s\<lparr>sstore := st1, rewrite_running := False\<rparr>
           | (Inr (payload, n, l1), st1) \<Rightarrow> s\<lparr>sstore := st1, aof := Some l1, rewrite_payload := Some payload\<rparr>))"

definition rewrite_task_end :: "server \<Rightarrow> server" where
  "rewrite_task_end s =
     (case (aof s, rewrite_payload s) of
        (Some l, Some payload) \<Rightarrow>
          let l1 = rewrite_end payload l
          in s\<lparr>aof := Some l1, aof_base_size := aof_size l1, rewrite_running := False, rewrite_payload := None\<rparr>
      | _ \<Rightarrow> s)"

definition rewrite_task_fail :: "server \<Rightarrow> server" where
  "rewrite_task_fail s =
     (case (aof s, rewrite_payload s) of
        (Some l, Some payload) \<Rightarrow>
          s\<lparr>aof := Some (rewrite_abort l), rewrite_running := False, rewrite_payload := None\<rparr>
      | _ \<Rightarrow> s)"

text \<open>Shutdown: a running rewrite is cancelled, links and log are closed.\<close>

definition stop :: "server \<Rightarrow> server" where
  "stop s =
     (let s1 = rewrite_task_fail s
      in s1\<lparr>aof := map_option aof_close (aof s1), replicas := [], client_count := 0, rewrite_running := False\<rparr>)"

end
