(* ===== verification/Server_Access.thy ===== *)
theory Server_Access
  imports Cache_Server
begin

text \<open>
  What a client may do: nothing before it has authenticated, no writes on a replica, no growth of a
  store that is full and does not evict.
\<close>

section \<open>Reading commands\<close>

text \<open>A handler that is not in the list of write commands does not change what a client can see.\<close>

lemma live_count_lookup:
  "mono c \<le> t \<Longrightarrow> live t (snd (count_loop (\<lambda>k s. map_prod g id (lookup c k s)) ks st)) = live t st"
  by (induction ks arbitrary: st) (simp_all add: lookup_simps_cmd)

lemma read_handlers:
  assumes "cmd_inv st" and "mono c \<le> t"
  shows "list_all (\<lambda>(n, h). n \<in> set WRITE_COMMANDS \<or> live t (snd (h c args st)) = live t st) COMMANDS"
proof -
  have len: "live t (snd (store_len (mono c) st)) = live t st"
    using live_sweep [OF cmd_invD(1) [OF assms(1)] assms(2)] by (simp add: store_len_def Let_def case_prod_beta)
  show ?thesis
    unfolding COMMANDS_def list.pred_inject WRITE_COMMANDS_def
    using assms len
    by (simp; intro conjI;
        auto simp: cmd_ping_def cmd_echo_def cmd_get_def cmd_mget_def cmd_exists_def cmd_ttl_def cmd_dbsize_def
          guarded_def lookup_simps_cmd live_lookup_loop live_count_lookup store_ttl_refines failed_keys
          split: list.splits sum.splits)
qed

lemma upper_write_command: "n \<in> set WRITE_COMMANDS \<Longrightarrow> is_write_command (ascii_str n)"
proof -
  have "list_all (\<lambda>n. is_write_command (ascii_str n)) WRITE_COMMANDS"
    by code_simp
  then show "n \<in> set WRITE_COMMANDS \<Longrightarrow> is_write_command (ascii_str n)" by (simp add: list_all_iff)
qed

lemma dispatch_read:
  assumes "cmd_inv st" and "mono c \<le> t" and "\<not> is_write_command (str_upper (to_text f))"
  shows "live t (snd (dispatch c (f # args) st)) = live t st"
proof -
  have "live t (snd (h c args st)) = live t st" if "command_handler (str_upper (to_text f)) = Some h" for h
    using read_handlers [OF assms(1,2), of args] command_handler_in [OF that] assms(3) upper_write_command
    by (auto simp: list_all_iff)
  then show ?thesis by (simp add: dispatch_def Let_def split: option.split)
qed


section \<open>Names\<close>

text \<open>The server decodes a name as ASCII, \<^verbatim>\<open>dispatch\<close> as UTF-8. The two agree on ASCII names.\<close>

lemma server_name_ascii: "is_ascii (hd command) \<Longrightarrow> server_name command = str_upper (to_text (Bytes (hd command)))"
  by (simp add: server_name_def to_text_def ascii_decode_ascii utf8_decode_ascii)


section \<open>Authentication\<close>

text \<open>What a client cannot change: everything but the counters of the server.\<close>

definition same_data :: "server \<Rightarrow> server \<Rightarrow> bool" where
  "same_data s s' \<longleftrightarrow> sstore s' = sstore s \<and> aof s' = aof s \<and> replicas s' = replicas s \<and>
     requirepass s' = requirepass s \<and> replica_of s' = replica_of s \<and> rewrite_running s' = rewrite_running s"

lemma same_data_refl [simp]: "same_data s s"
  by (simp add: same_data_def)

lemma same_data_trans: "same_data s s' \<Longrightarrow> same_data s' s'' \<Longrightarrow> same_data s s''"
  by (simp add: same_data_def)

lemma same_data_processed [simp]: "same_data s (s'\<lparr>commands_processed := n\<rparr>) = same_data s s'"
  by (simp add: same_data_def)

text \<open>The commands that authenticate when the password is \<open>raw\<close>.\<close>

definition authenticates :: "bytes \<Rightarrow> bytes list \<Rightarrow> bool" where
  "authenticates raw command \<longleftrightarrow>
     server_name command = ascii_str ''AUTH'' \<and> (tl command = [raw] \<or> tl command = [''default'', raw])"

lemma is_error_simps [simp]: "is_error (err m)" "\<not> is_error OK"
  by (simp_all add: is_error_def err_def OK_def)

lemma check_auth_run:
  assumes "requirepass s = Some pw" and "utf8_encode pw = Some raw"
  shows "\<exists>reply. check_auth args s = Inr reply \<and>
     (if args = [raw] \<or> args = [''default'', raw] then reply = OK else is_error reply)"
proof (cases "length args = 1 \<or> length args = 2")
  case True
  then consider a where "args = [a]" | u a where "args = [u, a]"
    by (auto simp: length_Suc_conv numeral_2_eq_2)
  then show ?thesis by cases (auto simp: check_auth_def assms)
next
  case False
  then have "\<not> (args = [raw] \<or> args = [''default'', raw])" by auto
  with False show ?thesis by (simp add: check_auth_def assms)
qed

text \<open>A client that is not authenticated: whatever it sends, nothing but a counter changes, and it is
  authenticated afterwards exactly when it has sent the password.\<close>

lemma handle_unauthenticated:
  assumes "requirepass s = Some pw" and "utf8_encode pw = Some raw"
    and "handle_command c False command s = (a, authed, s')"
  shows "same_data s s' \<and> (authed \<longleftrightarrow> authenticates raw command) \<and>
     (a = Send_and_close OK \<or> a = Send OK \<and> authenticates raw command \<or> (\<exists>v. a = Send v \<and> is_error v))"
proof -
  let ?s = "s\<lparr>commands_processed := Suc (commands_processed s)\<rparr>"
  obtain reply where reply: "check_auth (tl command) ?s = Inr reply"
    "if tl command = [raw] \<or> tl command = [''default'', raw] then reply = OK else is_error reply"
    using check_auth_run [of ?s pw raw "tl command"] assms(1,2) by auto
  show ?thesis
    using assms(1,3) reply
    by (auto simp: handle_command_def Let_def authenticates_def ascii_str_inj split: if_splits)
qed

text \<open>The commands in the bytes a client sends.\<close>

function commands_in :: "bytes \<Rightarrow> bytes list list" where
  "commands_in r =
     (case read_command r of Inr (Some command, r1) \<Rightarrow> command # commands_in r1 | _ \<Rightarrow> [])"
  by pat_completeness auto
termination commands_in
  by (relation "measure length") (auto dest: read_command_shorter)

declare commands_in.simps [simp del]

lemma commands_in_Some:
  "read_command r = Inr (Some command, r1) \<Longrightarrow> commands_in r = command # commands_in r1"
  by (simp add: commands_in.simps [of r])

lemma send_last_state [simp]: "snd (snd (snd (send_last why b authed out v s))) = s"
  by (simp add: send_last_def split: sum.splits)

text \<open>A connection on which the password is never sent leaves the data alone.\<close>

lemma client_loop_unauthenticated:
  assumes "requirepass s = Some pw" and "utf8_encode pw = Some raw"
    and "list_all (\<lambda>command. \<not> authenticates raw command) (commands_in r)"
  shows "same_data s (snd (snd (snd (client_loop clk buf n False out r s))))"
  using assms
proof (induction r arbitrary: n out s rule: measure_induct_rule [where f = length])
  case (less r)
  show ?case
  proof (cases "\<exists>command r1. read_command r = Inr (Some command, r1)")
    case False
    then show ?thesis
      by (auto simp: client_loop.simps [of clk buf n] split: sum.splits read_error.splits option.splits)
  next
    case True
    then obtain command r1 where rd: "read_command r = Inr (Some command, r1)" by blast
    note shorter = read_command_shorter [OF rd]
    from less.prems(3) have rest: "list_all (\<lambda>command. \<not> authenticates raw command) (commands_in r1)"
      and this_one: "\<not> authenticates raw command"
      by (simp_all add: commands_in_Some [OF rd])
    obtain a authed s1 where h: "handle_command (clk n) False command s = (a, authed, s1)"
      by (metis prod_cases3)
    from handle_unauthenticated [OF less.prems(1,2) h] this_one
    have same: "same_data s s1" and "\<not> authed" by auto
    moreover from same less.prems(1) have "requirepass s1 = Some pw" by (simp add: same_data_def)
    ultimately have IH: "same_data s (snd (snd (snd (client_loop clk buf m False o' r1 s1))))" for m o'
      using less.IH [OF shorter _ less.prems(2) rest] same_data_trans by blast
    have "same_data s (snd (snd (snd (client_loop clk buf n False out r1 s))))"
      using less.IH [OF shorter less.prems(1,2) rest] .
    with IH rd h same \<open>\<not> authed\<close> show ?thesis
      by (auto simp: client_loop.simps [of clk buf n False out r] split: action.splits sum.splits)
  qed
qed


section \<open>Replicas are read-only\<close>

lemma execute_read:
  assumes "cmd_inv (sstore s)" and "mono c \<le> t" and "command \<noteq> []"
    and "\<not> is_write_command (server_name command)" and "\<not> is_write_command (str_upper (to_text (Bytes (hd command))))"
    and "execute c command s = (a, s')"
  shows "live t (sstore s') = live t (sstore s) \<and> aof s' = aof s \<and> replicas s' = replicas s"
proof -
  have "live t (snd (dispatch c (map Bytes command) (sstore s))) = live t (sstore s)"
    using dispatch_read [OF assms(1,2,5), of "map Bytes (tl command)"] assms(3) by (cases command) simp_all
  with assms(4,6) show ?thesis
    by (auto simp: execute_def Let_def split: prod.splits sum.splits if_splits)
qed

lemma build_info_view:
  assumes "cmd_inv (sstore s)" and "mono c \<le> t" and "build_info c s = (text, s')"
  shows "live t (sstore s') = live t (sstore s) \<and> aof s' = aof s \<and> replicas s' = replicas s"
proof -
  have "s' = s\<lparr>sstore := snd (store_len (mono c) (sstore s))\<rparr>"
    using assms(3) by (auto simp: build_info_def info_lines_def Let_def split: prod.splits)
  moreover have "live t (snd (store_len (mono c) (sstore s))) = live t (sstore s)"
    using live_sweep [OF cmd_invD(1) [OF assms(1)] assms(2)] by (simp add: store_len_def Let_def case_prod_beta)
  ultimately show ?thesis by simp
qed

text \<open>The four ways a command can change the state.\<close>

definition counted :: "server \<Rightarrow> server" where
  "counted s = s\<lparr>commands_processed := Suc (commands_processed s)\<rparr>"

lemma counted_simps [simp]:
  "sstore (counted s) = sstore s" "aof (counted s) = aof s" "replicas (counted s) = replicas s"
  "replica_of (counted s) = replica_of s" "requirepass (counted s) = requirepass s"
  "rewrite_running (counted s) = rewrite_running s" "client_count (counted s) = client_count s"
  "maxclients (counted s) = maxclients s" "rewrite_payload (counted s) = rewrite_payload s"
  by (simp_all add: counted_def)

lemma handle_command_cases:
  assumes "handle_command c authed command s = (a, authed', s')"
  obtains (idle) "s' = counted s"
    | (info) body where "build_info c (counted s) = (body, s')"
    | (rewrite) "s' = snd (start_rewrite (counted s))"
    | (run) "execute c command (counted s) = (a, s')"
      "\<not> (replica_of s \<noteq> None \<and> is_write_command (server_name command))"
      "authed" "\<not> denied_oom (server_name command) (counted s)"
  using assms unfolding handle_command_def counted_def [symmetric] Let_def
  by (auto split: if_splits sum.splits prod.splits)

text \<open>On a replica no command with an ASCII name changes what is stored.\<close>

lemma handle_on_replica:
  assumes "cmd_inv (sstore s)" and "replica_of s \<noteq> None" and "command \<noteq> []" and "is_ascii (hd command)"
    and "mono c \<le> t" and "handle_command c authed command s = (a, authed', s')"
  shows "live t (sstore s') = live t (sstore s) \<and> aof s' = aof s \<and> replicas s' = replicas s"
  using assms(6)
proof (cases rule: handle_command_cases)
  case (info body)
  with build_info_view [of "counted s" c t] assms(1,5) show ?thesis by simp
next
  case run
  with execute_read [of "counted s" c t command a s'] assms show ?thesis
    by (simp add: server_name_ascii)
qed (simp_all add: start_rewrite_def)

lemma special_names:
  "n \<in> {''QUIT'', ''AUTH'', ''SYNC'', ''INFO'', ''BGREWRITEAOF''} \<Longrightarrow> \<not> is_write_command (ascii_str n)"
proof -
  have "list_all (\<lambda>n. \<not> is_write_command (ascii_str n)) [''QUIT'', ''AUTH'', ''SYNC'', ''INFO'', ''BGREWRITEAOF'']"
    by code_simp
  then show "n \<in> {''QUIT'', ''AUTH'', ''SYNC'', ''INFO'', ''BGREWRITEAOF''} \<Longrightarrow> \<not> is_write_command (ascii_str n)"
    by auto
qed

lemma write_name:
  assumes "is_write_command (server_name command)"
  shows "handle_command c True command s =
    (if replica_of s \<noteq> None then
       (Send (err (''READONLY You can'' @ quote @ ''t write against a replica.'')), True, counted s)
     else if denied_oom (server_name command) (counted s) then
       (Send (err (''OOM command not allowed when used memory > '' @ quote @ ''maxmemory'' @ quote @ ''.'')), True, counted s)
     else (case execute c command (counted s) of (a, s1) \<Rightarrow> (a, True, s1)))"
proof -
  have "server_name command \<noteq> ascii_str n" if "n \<in> {''QUIT'', ''AUTH'', ''SYNC'', ''INFO'', ''BGREWRITEAOF''}" for n
    using special_names [OF that] assms by auto
  with assms show ?thesis
    unfolding handle_command_def counted_def [symmetric] Let_def by simp
qed

end
