(* ===== verification/Server_Record.thy ===== *)
theory Server_Record
  imports Server_Access
begin

text \<open>
  What happens to a write that the store has accepted: the records it leaves in the log and on the
  links to the replicas, and their durability when the reply is sent.
\<close>

section \<open>Integers as floats\<close>

text \<open>\<^verbatim>\<open>to_aof_commands\<close> reads the argument of EXPIRE as a float; an integer that \<^verbatim>\<open>dispatch\<close> has accepted is
  one.\<close>

lemma INT_RE_form:
  assumes "INT_RE_fullmatch u"
  obtains (plain) s where "u = ascii_str s" "s \<noteq> []" "list_all is_digit s"
    | (minus) s where "u = ascii_str (CHR ''-'' # s)" "s \<noteq> []" "list_all is_digit s"
proof -
  have digits: "ascii_str (map char_of ds) = ds \<and> list_all is_digit (map char_of ds)" if "list_all is_digit_cp ds" for ds
    using that by (induction ds) (auto simp: ascii_str_def is_digit_def is_digit_cp_def)
  from assms obtain c cs where u: "u = c # cs" by (cases u) auto
  show thesis
  proof (cases "c = 45")
    case True
    with assms u digits [of cs] that(2) [of "map char_of cs"] show thesis by (auto simp: ascii_str_def)
  next
    case False
    with assms u digits [of "c # cs"] that(1) [of "map char_of (c # cs)"] show thesis by auto
  qed
qed

lemma ascii_of_cp_ascii: "is_ascii s \<Longrightarrow> map ascii_of_cp (ascii_str s) = s"
  by (induction s) (simp_all add: ascii_str_def)

lemma digits_facts:
  assumes "s \<noteq> []" and "list_all is_digit s"
  shows "is_ascii s" "py_strip s = s" "py_strip (CHR ''-'' # s) = CHR ''-'' # s"
    "hd s \<noteq> CHR ''-''" "hd s \<noteq> CHR ''+''"
proof -
  have hd: "is_digit (hd s)" and last: "is_digit (last s)"
    using assms by (simp_all add: list_all_iff)
  show "is_ascii s" using assms(2) by (simp add: list_all_iff digit_ascii)
  show "py_strip s = s" using assms(1) digit_not_special [OF hd] digit_not_special [OF last] by (simp add: py_strip_id)
  show "py_strip (CHR ''-'' # s) = CHR ''-'' # s"
    using assms(1) digit_not_special [OF last] by (intro py_strip_id) (simp_all add: is_space_byte_def [of "CHR ''-''"])
  show "hd s \<noteq> CHR ''-''" "hd s \<noteq> CHR ''+''" using digit_not_special [OF hd] by simp_all
qed

lemma unsigned_float_digits:
  assumes "s \<noteq> []" and "list_all is_digit s"
  shows "unsigned_float s = Some (float_of_rat (of_nat (nat_of_digits (map digit_val s))))"
proof -
  let ?lower = "\<lambda>c. let n = of_char c :: nat in if 65 \<le> n \<and> n \<le> 90 then char_of (n + 32) else c"
  have plain: "?lower c = c" "c \<noteq> CHR ''e''" "c \<noteq> CHR ''.''" "c \<noteq> CHR ''i''" "c \<noteq> CHR ''n''" if "is_digit c" for c
    using that by (auto simp: is_digit_def Let_def)
  have low: "map ?lower s = s"
    using assms(2) plain(1) by (simp add: map_idI list_all_iff)
  have while: "takeWhile (\<lambda>c. c \<noteq> CHR ''e'') s = s" "takeWhile (\<lambda>c. c \<noteq> CHR ''.'') s = s"
    using assms(2) plain(2,3) by (auto simp: takeWhile_eq_all_conv list_all_iff)
  have "hd s \<noteq> CHR ''i''" "hd s \<noteq> CHR ''n''"
    using assms plain(4,5) by (auto simp: list_all_iff)
  then have words: "s \<noteq> ''inf''" "s \<noteq> ''infinity''" "s \<noteq> ''nan''" by auto
  show ?thesis
    using assms words
    by (simp add: unsigned_float_def low while digits_or_none_def int_digits_all scale10_def)
qed

lemma int64_not_infinite: "\<bar>x\<bar> \<le> 2 ^ 63 \<Longrightarrow> float_of_rat (of_int x) = Finite (of_int x)"
proof -
  assume "\<bar>x\<bar> \<le> 2 ^ 63"
  then have "\<bar>x\<bar> < 2 ^ 1024 - 2 ^ 970" by simp
  then have "\<bar>of_int x :: rat\<bar> < of_int (2 ^ 1024 - 2 ^ 970)" by (metis of_int_abs of_int_less_iff)
  then show ?thesis by (simp add: float_of_rat_def del: of_int_diff)
qed

lemma py_float_int:
  assumes "cmd_parse_int a = Inr n"
  shows "py_float_str (to_text a) = Some (Finite (of_int n))"
proof -
  have re: "INT_RE_fullmatch (to_text a)" and int: "py_int_str (to_text a) = Inr n"
    and range: "\<bar>n\<bar> \<le> 2 ^ 63"
    using assms by (auto simp: cmd_parse_int_def Let_def INT64_MIN_def INT64_MAX_def split: if_splits sum.splits)
  from re show ?thesis
  proof (cases rule: INT_RE_form)
    case (plain s)
    note d = digits_facts [OF plain(2,3)]
    have m: "map ascii_of_cp (to_text a) = s" using plain(1) d(1) by (simp add: ascii_of_cp_ascii)
    obtain c cs where s: "s = c # cs" using plain(2) by (cases s) auto
    have "n = int (nat_of_digits (map digit_val s))"
      using int m d(2,4,5) s int_digits_all [OF plain(2,3)]
      by (simp add: py_int_str_def py_int_bytes_def unsigned_int_def split: if_splits)
    with m d(2,4,5) s unsigned_float_digits [OF plain(2,3)] int64_not_infinite [OF range] show ?thesis
      by (simp add: py_float_str_def)
  next
    case (minus s)
    note d = digits_facts [OF minus(2,3)]
    have m: "map ascii_of_cp (to_text a) = CHR ''-'' # s"
      unfolding minus(1) using d(1) by (intro ascii_of_cp_ascii) simp
    have "n = - int (nat_of_digits (map digit_val s))"
      using int m d(3) int_digits_all [OF minus(2,3)]
      by (simp add: py_int_str_def py_int_bytes_def unsigned_int_def split: if_splits)
    with m d(3) unsigned_float_digits [OF minus(2,3)] int64_not_infinite [of "- n"] range show ?thesis
      by (simp add: py_float_str_def)
  qed
qed


section \<open>Commands that can be sent\<close>

definition sendable :: "arg list \<Rightarrow> bool" where
  "sendable command = list_all (\<lambda>a. arg_bytes a \<noteq> None) command"

definition wire_form :: "arg list \<Rightarrow> bytes list" where
  "wire_form command = map (\<lambda>a. the (arg_bytes a)) command"

lemma sendable_simps [simp]: "sendable []" "sendable (a # as) \<longleftrightarrow> arg_bytes a \<noteq> None \<and> sendable as"
  "sendable (map Bytes bs)"
  by (simp_all add: sendable_def list_all_iff)

lemma wire_form_simps [simp]: "wire_form [] = []" "wire_form (a # as) = the (arg_bytes a) # wire_form as"
  "wire_form (map Bytes bs) = bs"
  by (simp_all add: wire_form_def comp_def)

lemma encode_sendable: "sendable command \<Longrightarrow> encode (command_obj command) = Inr (encode_command (wire_form command))"
proof -
  assume "sendable command"
  then have "those (map arg_bytes command) = Some (wire_form command)"
    by (induction command) auto
  then show ?thesis by (rule encode_command_obj)
qed

text \<open>A command that can be logged and propagated.\<close>

definition record_ok :: "arg list \<Rightarrow> bool" where
  "record_ok command \<longleftrightarrow> sendable command \<and> ok_command (wire_form command)"

lemma record_ok_wire: "record_ok (map Bytes command) = ok_command command"
  by (simp add: record_ok_def)

lemma ok_bulk_small [simp]: "length w < 1000 \<Longrightarrow> ok_bulk w"
  by (simp add: ok_bulk_def MAX_BULK_LENGTH_def)

lemma ok_bulk_number: "\<bar>n\<bar> < 10 ^ 30 \<Longrightarrow> ok_bulk (str_int n)"
  using length_dec_nat [of 30 "nat \<bar>n\<bar>"]
  by (intro ok_bulk_small) (auto simp: str_int_def nat_less_iff)

lemma record_ok_Cons:
  "record_ok [] " "int (length command) < 1000 \<Longrightarrow> record_ok (a # command) \<longleftrightarrow>
     (\<exists>b. arg_bytes a = Some b \<and> ok_bulk b) \<and> record_ok command"
  by (auto simp: record_ok_def ok_command_def MAX_ARRAY_LENGTH_def wire_form_def)

lemma arg_bytes_wire: "wire_arg a \<Longrightarrow> \<exists>b. arg_bytes a = Some b \<and> ok_bulk b"
  by (auto simp: wire_arg_def split: arg.splits)

text \<open>Wall clocks the deadlines in the log are computed with; 10^18 seconds is beyond any date.\<close>

definition clock_ok :: "clock \<Rightarrow> bool" where
  "clock_ok c \<longleftrightarrow> \<bar>wall c\<bar> \<le> 10 ^ 18"

lemma py_trunc_bound: "\<bar>y\<bar> \<le> of_int m \<Longrightarrow> \<bar>py_trunc y\<bar> \<le> m"
  unfolding py_trunc_def by (cases "0 \<le> y") (simp_all add: abs_le_iff, linarith+)

lemma deadline_small:
  assumes "clock_ok c" and "\<bar>x\<bar> \<le> 2 ^ 63"
  shows "\<bar>deadline_ms (wall c) x\<bar> < 10 ^ 30"
proof -
  have "\<bar>(wall c + x) * 1000\<bar> \<le> (10 ^ 18 + 2 ^ 63) * 1000"
    using assms by (simp add: clock_ok_def abs_mult)
  moreover have "\<bar>of_int (py_round y) :: rat\<bar> \<le> \<bar>y\<bar> + 1" for y :: rat
    using py_round_bounds [of y] by linarith
  ultimately have "\<bar>of_int (deadline_ms (wall c) x) :: rat\<bar> \<le> (10 ^ 18 + 2 ^ 63) * 1000 + 1"
    unfolding deadline_ms_def by (meson add_right_mono order_trans)
  then have "of_int \<bar>deadline_ms (wall c) x\<bar> < (of_int (10 ^ 30) :: rat)" by simp
  then show ?thesis by (simp only: of_int_less_iff)
qed


section \<open>Accepted writes can be recorded\<close>

lemma not_failed_Raised: "\<not> failed (reply_or_raise n (fst (guarded m f st))) \<Longrightarrow> \<exists>x. m = Inr x"
  by (cases m) (auto simp: guarded_def reply_or_raise_def failed_def split: exc.splits)

text \<open>EXPIRE and PEXPIRE that are not refused have an integer as their argument.\<close>

lemma accepted_expire:
  assumes "named f n" and "n = ''EXPIRE'' \<or> n = ''PEXPIRE''" and "\<not> failed (fst (dispatch c [f, k, a] st))"
  shows "\<exists>x. cmd_parse_int a = Inr x"
proof -
  have "\<exists>g. fst (dispatch c [f, k, a] st) = reply_or_raise (ascii_str n) (fst (guarded (cmd_parse_int a) g st))"
    using assms(2)
  proof (elim disjE)
    assume "n = ''EXPIRE''"
    with assms(1) dispatch_named [OF assms(1), of cmd_expire c "[k, a]" st] show ?thesis
      by (auto simp: COMMANDS_def cmd_expire_def)
  next
    assume "n = ''PEXPIRE''"
    with assms(1) dispatch_named [OF assms(1), of cmd_pexpire c "[k, a]" st] show ?thesis
      by (auto simp: COMMANDS_def cmd_pexpire_def)
  qed
  with assms(3) not_failed_Raised show ?thesis by metis
qed

lemma record_ok_pexpireat:
  "\<bar>ms\<bar> < 10 ^ 30 \<Longrightarrow> wire_arg k \<Longrightarrow> record_ok (pexpireat_command k ms)"
  using arg_bytes_wire [of k] ok_bulk_number [of ms]
  by (simp add: pexpireat_command_def record_ok_Cons is_ascii_str_int)

lemma record_ok_set: "wire_arg k \<Longrightarrow> wire_arg v \<Longrightarrow> record_ok [word_arg ''SET'', k, v]"
  using arg_bytes_wire [of k] arg_bytes_wire [of v] by (simp add: record_ok_Cons)

lemma set_options_wire:
  assumes "parse_set args = Inr opts" and "list_all wire_arg args"
  shows "wire_arg (okey opts)" "wire_arg (oval opts)" "ottl opts = Some t \<Longrightarrow> 0 < t \<and> t \<le> 2 ^ 63"
proof -
  show "wire_arg (okey opts)" "wire_arg (oval opts)" using wire.good_set [OF assms(2,1)] by simp_all
  assume "ottl opts = Some t"
  then obtain n where n: "0 < n" "n \<le> INT64_MAX * 1000" "t = of_int n / 1000"
    using parse_set_ms [OF assms(1)] by (auto simp: whole_ms_def)
  then have "of_int n \<le> (of_int (2 ^ 63 * 1000) :: rat)" unfolding of_int_le_iff by (simp add: INT64_MAX_def)
  with n show "0 < t \<and> t \<le> 2 ^ 63" by simp
qed

lemma to_aof_record_ok:
  assumes "clock_ok c" and "command \<noteq> []" and "ok_command command"
    and "\<not> failed (fst (dispatch c (map Bytes command) st))"
  shows "\<exists>cs. to_aof_commands (wall c) (map Bytes command) = Inr cs \<and> list_all record_ok cs"
proof -
  obtain f rest where command: "command = f # rest" using assms(2) by (cases command) auto
  have wire: "list_all wire_arg (map Bytes rest)"
    using assms(3) command by (auto simp: ok_command_def list_all_iff wire_arg_def)
  have self: "record_ok (Bytes f # map Bytes rest)"
    using assms(3) record_ok_wire [of command] command by simp
  let ?name = "str_upper (to_text (Bytes f))"
  consider (set) "?name = ascii_str ''SET''"
    | (expire) n k a where "n = ''EXPIRE'' \<or> n = ''PEXPIRE''" "?name = ascii_str n" "rest = [k, a]"
    | (other) "?name \<noteq> ascii_str ''SET''" "\<not> (?name = ascii_str ''EXPIRE'' \<and> length rest = 2)"
        "\<not> (?name = ascii_str ''PEXPIRE'' \<and> length rest = 2)"
    by (auto simp: numeral_2_eq_2 length_Suc_conv)
  then show ?thesis
  proof cases
    case set
    show ?thesis
    proof (cases "parse_set (map Bytes rest)")
      case (Inl e)
      with set self command show ?thesis by (simp add: to_aof_commands_def)
    next
      case (Inr opts)
      note w = set_options_wire [OF Inr wire]
      have "\<bar>deadline_ms (wall c) t\<bar> < 10 ^ 30" if "ottl opts = Some t" for t
        using w(3) [OF that] deadline_small [OF assms(1), of t] by simp
      with w(1,2) set Inr command show ?thesis
        by (auto simp: to_aof_commands_def Let_def record_ok_set record_ok_pexpireat split: option.split)
    qed
  next
    case (expire n k a)
    then obtain x where x: "cmd_parse_int (Bytes a) = Inr x"
      using accepted_expire [of "Bytes f" n c "Bytes k" "Bytes a" st] assms(4) command by (auto simp: named_def)
    have range: "\<bar>x\<bar> \<le> 2 ^ 63" using cmd_parse_int_Inr [OF x] by (auto simp: INT64_MIN_def INT64_MAX_def)
    have k: "wire_arg (Bytes k)" using wire expire(3) by simp
    have i: "py_int_str (to_text (Bytes a)) = Inr x"
      using x by (auto simp: cmd_parse_int_def Let_def split: if_splits sum.splits)
    have d: "\<bar>deadline_ms (wall c) (of_int x)\<bar> < 10 ^ 30"
      using deadline_small [OF assms(1), of "of_int x"] range by (simp flip: of_int_abs)
    have "\<bar>py_trunc (wall c * 1000)\<bar> \<le> 10 ^ 22"
    proof (rule py_trunc_bound)
      show "\<bar>wall c * 1000\<bar> \<le> of_int (10 ^ 22)" using assms(1) by (simp add: clock_ok_def abs_mult)
    qed
    with range have p: "\<bar>py_trunc (wall c * 1000) + x\<bar> < 10 ^ 30" by simp
    from expire(1) show ?thesis
      using expire(2,3) command py_float_int [OF x] i record_ok_pexpireat [OF d k] record_ok_pexpireat [OF p k]
      by (auto simp: to_aof_commands_def Let_def ascii_str_inj float_deadline_def)
  next
    case other
    then have "to_aof_commands (wall c) (map Bytes command) = Inr [map Bytes command]"
      unfolding to_aof_commands_def Let_def command by auto
    with self command show ?thesis by simp
  qed
qed

lemma to_replication_record_ok:
  assumes "command \<noteq> []" and "ok_command command"
  shows "record_ok (to_replication_command (map Bytes command))"
proof -
  have self: "record_ok (map Bytes command)" using assms(2) by (simp add: record_ok_wire)
  have wire: "list_all wire_arg (map Bytes (tl command))"
    using assms by (cases command) (auto simp: ok_command_def list_all_iff wire_arg_def)
  show ?thesis
  proof (cases "is_set_word (hd (map Bytes command)) \<and> (\<exists>opts. parse_set (tl (map Bytes command)) = Inr opts)")
    case False
    with self show ?thesis by (auto simp: to_replication_command_def split: sum.split)
  next
    case True
    then obtain opts where opts: "parse_set (map Bytes (tl command)) = Inr opts" by (auto simp: map_tl)
    note w = set_options_wire [OF opts wire]
    have "ok_bulk (str_int (max 1 (py_round (t * 1000))))" if "ottl opts = Some t" for t
    proof (rule ok_bulk_number)
      from w(3) [OF that] have "t * 1000 \<le> 2 ^ 63 * 1000" by simp
      with py_round_bounds [of "t * 1000"] have "of_int (py_round (t * 1000)) \<le> (of_int (2 ^ 63 * 1000 + 1) :: rat)"
        by simp
      then have "py_round (t * 1000) \<le> 2 ^ 63 * 1000 + 1" by (simp only: of_int_le_iff)
      then show "\<bar>max 1 (py_round (t * 1000))\<bar> < 10 ^ 30" by simp
    qed
    with True opts record_ok_set [OF w(1,2)] is_ascii_str_int show ?thesis
      by (auto simp: to_replication_command_def map_tl record_ok_Cons split: option.split)
  qed
qed


section \<open>The records of a write\<close>

text \<open>The log and the links after a list of commands has been recorded.\<close>

definition logged :: "arg list list \<Rightarrow> aof_log option \<Rightarrow> aof_log option" where
  "logged commands = map_option (fold (\<lambda>command. append_bytes (encode_command (wire_form command))) commands)"

definition fed :: "arg list list \<Rightarrow> replica_link list \<Rightarrow> replica_link list" where
  "fed commands = fold (\<lambda>command ls. drop_closed (map (link_send False (encode_command (wire_form command))) ls)) commands"

lemma logged_simps [simp]: "logged [] a = a" "logged cs None = None"
  "logged (xs @ ys) a = logged ys (logged xs a)" "logged xs a = None \<longleftrightarrow> a = None"
  by (cases a; simp add: logged_def)+

lemma logged_Cons: "logged (x # xs) a = logged xs (logged [x] a)"
  by (cases a) (simp_all add: logged_def)

lemma fed_simps [simp]: "fed [] ls = ls" "fed (xs @ ys) ls = fed ys (fed xs ls)" "fed xs [] = []"
proof -
  show "fed xs [] = []" by (induction xs) (simp_all add: fed_def drop_closed_def)
qed (simp_all add: fed_def)

lemma aof_write_run:
  "record_ok command \<Longrightarrow> aof_write command s = (None, s\<lparr>aof := logged [command] (aof s)\<rparr>)"
  by (cases "aof s") (simp_all add: aof_write_def aof_append_def record_ok_def encode_sendable logged_def)

lemma propagate_run:
  "record_ok command \<Longrightarrow> propagate command s = (None, s\<lparr>replicas := fed [command] (replicas s)\<rparr>)"
  by (simp add: propagate_def record_ok_def encode_sendable fed_def drop_closed_def)

lemma each_write_run:
  "list_all record_ok cs \<Longrightarrow> each_command aof_write cs s = (None, s\<lparr>aof := logged cs (aof s)\<rparr>)"
proof (induction cs arbitrary: s)
  case (Cons c cs)
  then show ?case by (simp add: seq_step_def aof_write_run logged_Cons [of c cs])
qed simp

lemma log_command_run:
  assumes "to_aof_commands now command = Inr cs" and "list_all record_ok cs"
  shows "log_command now command s = (None, s\<lparr>aof := logged cs (aof s)\<rparr>)"
  using assms each_write_run [of cs s] by (cases "aof s") (simp_all add: log_command_def logged_def)

definition del_command :: "arg \<Rightarrow> arg list" where
  "del_command k = [word_arg ''DEL'', k]"

lemma record_ok_del: "wire_arg k \<Longrightarrow> record_ok (del_command k)"
  using arg_bytes_wire [of k] by (simp add: del_command_def record_ok_Cons)

lemma record_evictions_run:
  "list_all wire_arg ks \<Longrightarrow> record_evictions ks s =
     (None, s\<lparr>aof := logged (map del_command ks) (aof s), replicas := fed (map del_command ks) (replicas s)\<rparr>)"
proof (induction ks arbitrary: s)
  case (Cons k ks)
  then show ?case
    by (simp add: record_eviction_def seq_step_def aof_write_run propagate_run record_ok_del logged_Cons [of _ "map _ ks"]
        flip: del_command_def) (simp add: fed_def)
qed simp

text \<open>Everything an accepted write records, in order: the write in the form of the log and in the form of
  the replicas, unless it is a SET that wrote nothing; then a DEL for every key it evicted.\<close>

lemma record_write_run:
  assumes "to_aof_commands (wall c) command = Inr cs" and "list_all record_ok cs"
    and "record_ok (to_replication_command command)" and "wire_evicted (sstore s)"
    and "changed \<longleftrightarrow> name \<noteq> ascii_str ''SET'' \<or> writes (sstore s) \<noteq> before"
    and "dels = map del_command (evicted (sstore s))"
  shows "record_write c name before command s =
    (None, s\<lparr>sstore := (sstore s)\<lparr>evicted := []\<rparr>,
             aof := logged ((if changed then cs else []) @ dels) (aof s),
             replicas := fed ((if changed then [to_replication_command command] else []) @ dels) (replicas s)\<rparr>)"
proof -
  have ev: "record_evictions (evicted (sstore s)) s' =
      (None, s'\<lparr>aof := logged dels (aof s'), replicas := fed dels (replicas s')\<rparr>)" for s'
    using record_evictions_run assms(4,6) by (simp add: wire_evicted_def)
  show ?thesis
    using assms(5)
    by (auto simp: record_write_def seq_step_def log_command_run [OF assms(1,2)] propagate_run [OF assms(3)]
        drain_evictions_def ev)
qed


section \<open>Executing a write\<close>

lemma failed_is_error: "failed r \<longleftrightarrow> (case r of Inl _ \<Rightarrow> True | Inr v \<Rightarrow> is_error v)"
  by (auto simp: failed_def is_error_def split: sum.splits pyobj.splits)

text \<open>The store as the server leaves it: the evictions of a recorded write are drained.\<close>

lemma execute_write:
  assumes "wire_inv (sstore s)" and "clock_ok c" and "command \<noteq> []" and "ok_command command"
    and "is_write_command (server_name command)"
    and "dispatch c (map Bytes command) (sstore s) = (r, st1)" and "\<not> failed r"
    and "changed \<longleftrightarrow> server_name command \<noteq> ascii_str ''SET'' \<or> writes st1 \<noteq> writes (sstore s)"
    and "dels = map del_command (evicted st1)"
  obtains reply cs where "r = Inr reply" "\<not> is_error reply"
    "to_aof_commands (wall c) (map Bytes command) = Inr cs" "list_all record_ok cs"
    "execute c command s =
      (Send reply, s\<lparr>sstore := st1\<lparr>evicted := []\<rparr>,
         aof := map_option aof_commit (logged ((if changed then cs else []) @ dels) (aof s)),
         replicas := fed ((if changed then [to_replication_command (map Bytes command)] else []) @ dels) (replicas s)\<rparr>)"
proof -
  obtain reply where reply: "r = Inr reply" "\<not> is_error reply"
    using assms(7) by (auto simp: failed_is_error split: sum.splits)
  have nf: "\<not> failed (fst (dispatch c (map Bytes command) (sstore s)))" using assms(6,7) by simp
  obtain cs where cs: "to_aof_commands (wall c) (map Bytes command) = Inr cs" "list_all record_ok cs"
    using to_aof_record_ok [OF assms(2-4) nf] by blast
  have "list_all wire_arg (map Bytes command)"
    using assms(4) by (auto simp: ok_command_def list_all_iff wire_arg_def)
  from wire.I_dispatch [OF assms(1) this, of c] assms(6) have "wire_evicted st1"
    by (simp add: wire_inv_def)
  then have "wire_evicted (sstore (s\<lparr>sstore := st1\<rparr>))" by simp
  from record_write_run [OF cs to_replication_record_ok [OF assms(3,4)] this, of changed "server_name command"
      "writes (sstore s)" dels] assms(5,6,8,9) reply
  have "execute c command s =
      (Send reply, s\<lparr>sstore := st1\<lparr>evicted := []\<rparr>,
         aof := map_option aof_commit (logged ((if changed then cs else []) @ dels) (aof s)),
         replicas := fed ((if changed then [to_replication_command (map Bytes command)] else []) @ dels) (replicas s)\<rparr>)"
    by (simp add: execute_def Let_def commit_log_def)
  with that reply cs show thesis by blast
qed


section \<open>Durability of replies\<close>

lemma contents_logged:
  "map_option contents (logged cs a) = map_option (\<lambda>l. contents l @ log_bytes (map wire_form cs)) a"
proof (induction cs arbitrary: a)
  case (Cons c cs)
  then show ?case by (cases a) (simp_all add: logged_Cons [of c cs], simp add: logged_def append_bytes_def)
qed (simp add: option.map_ident)

lemma contents_commit [simp]: "contents (aof_commit l) = contents l"
  by (auto simp: aof_commit_def commit_begin_def commit_end_def)

text \<open>The state of a log that no commit is working on: what is on disk is a prefix of the file, all of it
  when every record is durable.\<close>

definition disk_ok :: "aof_log \<Rightarrow> bool" where
  "disk_ok l \<longleftrightarrow> prefix (on_disk l) (contents l) \<and> durable_seq l \<le> seq l \<and>
     (durable_seq l = seq l \<longrightarrow> on_disk l = contents l)"

lemma disk_ok_append: "disk_ok l \<Longrightarrow> disk_ok (append_bytes raw l)"
  by (auto simp: disk_ok_def append_bytes_def)

lemma disk_ok_logged: "logged cs a = Some l \<Longrightarrow> (\<And>l0. a = Some l0 \<Longrightarrow> disk_ok l0) \<Longrightarrow> disk_ok l"
proof (induction cs arbitrary: a)
  case (Cons c cs)
  have "disk_ok l1" if "logged [c] a = Some l1" for l1
    using that Cons.prems(2) by (cases a) (auto simp: logged_def disk_ok_append)
  from Cons.IH [OF _ this] Cons.prems(1) show ?case by (simp add: logged_Cons [of c cs])
qed simp

lemma fsync_logged: "logged cs a = Some l \<Longrightarrow> \<exists>l0. a = Some l0 \<and> fsync l = fsync l0"
proof (induction cs arbitrary: a)
  case (Cons c cs)
  from Cons.IH [of "logged [c] a"] Cons.prems logged_Cons [of c cs a]
  obtain l1 where "logged [c] a = Some l1" "fsync l = fsync l1" by metis
  then show ?case by (cases a) (auto simp: logged_def append_bytes_def)
qed simp

lemma commit_durable:
  assumes "disk_ok l" and "fsync l = ''always''"
  shows "on_disk (aof_commit l) = contents l \<and> disk_ok (aof_commit l)"
proof (cases "durable_seq l < seq l")
  case True
  obtain zs where "contents l = on_disk l @ zs" using assms(1) by (auto simp: disk_ok_def elim: prefixE)
  then have "on_disk (fsync_done (contents l) l) = contents l" by (cases zs) (simp_all add: fsync_done_def)
  with True assms show ?thesis
    by (auto simp: aof_commit_def commit_needed_def commit_begin_def commit_end_def disk_ok_def)
next
  case False
  with assms show ?thesis by (simp add: aof_commit_def commit_needed_def disk_ok_def)
qed

text \<open>With the policy \<^verbatim>\<open>always\<close> the records of a write are on disk when its reply is sent.\<close>

lemma acknowledged_on_disk:
  assumes "wire_inv (sstore s)" and "clock_ok c" and "command \<noteq> []" and "ok_command command"
    and "is_write_command (server_name command)" and "aof s = Some l" and "disk_ok l" and "fsync l = ''always''"
    and "dispatch c (map Bytes command) (sstore s) = (Inr reply, st1)" and "\<not> is_error reply"
  shows "\<exists>cs s' l'. to_aof_commands (wall c) (map Bytes command) = Inr cs \<and> execute c command s = (Send reply, s') \<and>
    aof s' = Some l' \<and> disk_ok l' \<and> on_disk l' = contents l' \<and>
    contents l' = contents l @ log_bytes (map wire_form
      ((if server_name command \<noteq> ascii_str ''SET'' \<or> writes st1 \<noteq> writes (sstore s) then cs else []) @
       map del_command (evicted st1)))"
proof -
  let ?ch = "server_name command \<noteq> ascii_str ''SET'' \<or> writes st1 \<noteq> writes (sstore s)"
  have nf: "\<not> failed (Inr reply)" using assms(10) by (simp add: failed_is_error)
  obtain cs where cs: "to_aof_commands (wall c) (map Bytes command) = Inr cs"
    and ex: "execute c command s =
      (Send reply, s\<lparr>sstore := st1\<lparr>evicted := []\<rparr>,
         aof := map_option aof_commit (logged ((if ?ch then cs else []) @ map del_command (evicted st1)) (aof s)),
         replicas := fed ((if ?ch then [to_replication_command (map Bytes command)] else []) @ map del_command (evicted st1)) (replicas s)\<rparr>)"
    using execute_write [OF assms(1-5,9) nf refl refl] by auto
  let ?recs = "(if ?ch then cs else []) @ map del_command (evicted st1)"
  obtain l1 where l1: "logged ?recs (aof s) = Some l1" using assms(6) by (cases "logged ?recs (aof s)") auto
  have "disk_ok l1" "fsync l1 = ''always''"
    using disk_ok_logged [OF l1] fsync_logged [OF l1] assms(6-8) by auto
  note d = commit_durable [OF this]
  have "contents l1 = contents l @ log_bytes (map wire_form ?recs)"
    using contents_logged [of ?recs "aof s"] l1 assms(6) by simp
  with cs ex l1 d show ?thesis by auto
qed

end
