(* ===== verification/Cluster_Client.thy ===== *)
theory Cluster_Client
  imports Hash_Ring Server_Record
begin

text \<open>
  The sharding client (\<^verbatim>\<open>cluster.py\<close>): the commands it builds, the checks on replies, connections and
  their pool, and the operations that span shards.

  The operations take the round trip to a shard as an argument: a function of the node, the command
  and the state of the outside world. What \<^verbatim>\<open>asyncio.gather\<close> runs concurrently touches different shards
  and is run here in the order of the groups. \<open>shard_roundtrip\<close> is the round trip to the servers of the
  model, over the bytes of the protocol.
\<close>

section \<open>Errors\<close>

datatype cluster_error =
    ClusterError pystr
  | Shard_error pystr pystr
  | ClusterTimeoutError pystr
  | Not_finite_positive
  | Not_finite
  | Needs_key
  | Bad_pool_size
  | Unexpected_reply pyobj
  | Unexpected_mget pystr
  | Routing ring_error
  | Unencodable encode_error
  | Link_failed read_error
  | Connect_failed


section \<open>Commands\<close>

definition is_integer :: "rat \<Rightarrow> bool" where
  "is_integer x \<longleftrightarrow> of_int \<lfloor>x\<rfloor> = x"

definition ttl_args :: "pyfloat \<Rightarrow> cluster_error + arg list" where
  "ttl_args ttl =
     (case ttl of
        Finite x \<Rightarrow>
          if x \<le> 0 then Inl Not_finite_positive
          else if is_integer x then Inr [word_arg ''EX'', word_arg (str_int (py_trunc x))]
          else Inr [word_arg ''PX'', word_arg (str_int (max 1 (py_round (x * 1000))))]
      | _ \<Rightarrow> Inl Not_finite_positive)"

definition expire_command :: "arg \<Rightarrow> pyfloat \<Rightarrow> cluster_error + arg list" where
  "expire_command key seconds =
     (case seconds of
        Finite x \<Rightarrow>
          if is_integer x then Inr [word_arg ''EXPIRE'', key, word_arg (str_int (py_trunc x))]
          else Inr [word_arg ''PEXPIRE'', key, word_arg (str_int (py_round (x * 1000)))]
      | _ \<Rightarrow> Inl Not_finite)"

definition integer_reply :: "pyobj \<Rightarrow> cluster_error + int" where
  "integer_reply reply = (case reply of PyInt n \<Rightarrow> Inr n | _ \<Rightarrow> Inl (Unexpected_reply reply))"

definition opt_bytes :: "pyobj \<Rightarrow> cluster_error + bytes option" where
  "opt_bytes reply =
     (case reply of
        PyNone \<Rightarrow> Inr None
      | PyArg (Bytes b) \<Rightarrow> Inr (Some b)
      | _ \<Rightarrow> Inl (Unexpected_reply reply))"

definition as_bytes :: "pyobj \<Rightarrow> bytes option" where
  "as_bytes v = (case v of PyArg (Bytes b) \<Rightarrow> Some b | _ \<Rightarrow> None)"

definition bytes_list :: "pyobj \<Rightarrow> cluster_error + bytes list" where
  "bytes_list reply =
     (case reply of
        PyList xs \<Rightarrow> (case those (map as_bytes xs) of Some bs \<Rightarrow> Inr bs | None \<Rightarrow> Inl (Unexpected_reply reply))
      | _ \<Rightarrow> Inl (Unexpected_reply reply))"

text \<open>\<^verbatim>\<open>f"{host}:{port}"\<close>\<close>

definition node_id :: "pystr \<times> int \<Rightarrow> pystr" where
  "node_id = (\<lambda>(host, port). host @ ascii_str (CHR '':'' # str_int port))"


section \<open>Pipelines\<close>

text \<open>A pipeline is the list of the commands it holds.\<close>

definition pipeline_new :: "arg list list" where
  "pipeline_new = []"

definition pipe_command :: "arg list \<Rightarrow> arg list list \<Rightarrow> cluster_error + arg list list" where
  "pipe_command parts pl = (if length parts < 2 then Inl Needs_key else Inr (pl @ [parts]))"

definition set_parts :: "arg \<Rightarrow> arg \<Rightarrow> pyfloat option \<Rightarrow> cluster_error + arg list" where
  "set_parts key v ttl =
     (case ttl of
        None \<Rightarrow> Inr [word_arg ''SET'', key, v]
      | Some t \<Rightarrow> map_sum id (\<lambda>extra. [word_arg ''SET'', key, v] @ extra) (ttl_args t))"

definition pipe_set :: "arg \<Rightarrow> arg \<Rightarrow> pyfloat option \<Rightarrow> arg list list \<Rightarrow> cluster_error + arg list list" where
  "pipe_set key v ttl pl = sum_bind (set_parts key v ttl) (\<lambda>parts. pipe_command parts pl)"

definition pipe_get :: "arg \<Rightarrow> arg list list \<Rightarrow> cluster_error + arg list list" where
  "pipe_get key pl = pipe_command [word_arg ''GET'', key] pl"

definition pipe_delete :: "arg \<Rightarrow> arg list list \<Rightarrow> cluster_error + arg list list" where
  "pipe_delete key pl = pipe_command [word_arg ''DEL'', key] pl"

definition pipe_incr :: "arg \<Rightarrow> int \<Rightarrow> arg list list \<Rightarrow> cluster_error + arg list list" where
  "pipe_incr key amount pl = pipe_command [word_arg ''INCRBY'', key, word_arg (str_int amount)] pl"


section \<open>Connections\<close>

text \<open>What an operation on a connection can end with, besides a result; the three exceptions that mean a
  broken connection are one case.\<close>

datatype op_error = Op_cluster cluster_error | Op_timeout | Op_broken cluster_error

text \<open>\<^verbatim>\<open>_run\<close> on one pool: the idle connections are a stack. An operation that fails on a connection from the
  pool because it is broken is tried again on the next one, in the end on a new one; a connection goes
  back to the pool only when its operation has returned.\<close>

fun pool_run ::
  "('w \<Rightarrow> (op_error + 'c) \<times> 'w) \<Rightarrow> ('c \<Rightarrow> 'w \<Rightarrow> (op_error + 'a) \<times> 'c \<times> 'w) \<Rightarrow> pystr \<Rightarrow> bool \<Rightarrow>
   'c list \<Rightarrow> 'w \<Rightarrow> (cluster_error + 'a) \<times> 'c list \<times> 'w" where
  "pool_run connect op node is_closed [] w =
     (case connect w of
        (Inl (Op_cluster e), w1) \<Rightarrow> (Inl e, [], w1)
      | (Inl Op_timeout, w1) \<Rightarrow> (Inl (ClusterTimeoutError node), [], w1)
      | (Inl (Op_broken e), w1) \<Rightarrow> (Inl e, [], w1)
      | (Inr conn, w1) \<Rightarrow>
          (case op conn w1 of
             (Inr x, conn1, w2) \<Rightarrow> (Inr x, if is_closed then [] else [conn1], w2)
           | (Inl (Op_cluster e), _, w2) \<Rightarrow> (Inl e, [], w2)
           | (Inl Op_timeout, _, w2) \<Rightarrow> (Inl (ClusterTimeoutError node), [], w2)
           | (Inl (Op_broken e), _, w2) \<Rightarrow> (Inl e, [], w2)))"
| "pool_run connect op node is_closed (conn # idle) w =
     (case op conn w of
        (Inr x, conn1, w1) \<Rightarrow> (Inr x, if is_closed then idle else conn1 # idle, w1)
      | (Inl (Op_cluster e), _, w1) \<Rightarrow> (Inl e, idle, w1)
      | (Inl Op_timeout, _, w1) \<Rightarrow> (Inl (ClusterTimeoutError node), idle, w1)
      | (Inl (Op_broken _), _, w1) \<Rightarrow> pool_run connect op node is_closed idle w1)"


section \<open>Operations on one key\<close>

type_synonym 'w roundtrip = "pystr \<Rightarrow> arg list \<Rightarrow> 'w \<Rightarrow> (cluster_error + pyobj) \<times> 'w"

record cluster =
  shards :: "(pystr \<times> int) list"
  password :: "pystr option"
  pool_size :: int
  cring :: hash_ring

definition cluster_init ::
  "(bytes \<Rightarrow> nat) \<Rightarrow> (pystr \<times> int) list \<Rightarrow> nat \<Rightarrow> pystr option \<Rightarrow> int \<Rightarrow> cluster_error + cluster" where
  "cluster_init digest shs vn pw psize =
     (if psize < 1 then Inl Bad_pool_size
      else map_sum Routing (\<lambda>r. \<lparr>shards = shs, password = pw, pool_size = psize, cring = r\<rparr>)
             (ring_init digest (map node_id shs) vn))"

definition node_for :: "(bytes \<Rightarrow> nat) \<Rightarrow> cluster \<Rightarrow> arg \<Rightarrow> cluster_error + pystr" where
  "node_for digest cl key = map_sum Routing id (get_node digest key (cring cl))"

definition cl_execute ::
  "(bytes \<Rightarrow> nat) \<Rightarrow> 'w roundtrip \<Rightarrow> cluster \<Rightarrow> arg \<Rightarrow> arg list \<Rightarrow> 'w \<Rightarrow> (cluster_error + pyobj) \<times> 'w" where
  "cl_execute digest rt cl key parts w =
     (case node_for digest cl key of Inl e \<Rightarrow> (Inl e, w) | Inr node \<Rightarrow> rt node parts w)"

text \<open>A check on the reply of an operation.\<close>

definition checked :: "(pyobj \<Rightarrow> cluster_error + 'a) \<Rightarrow> (cluster_error + pyobj) \<times> 'w \<Rightarrow> (cluster_error + 'a) \<times> 'w" where
  "checked f = map_prod (\<lambda>r. sum_bind r f) id"

definition cl_set ::
  "(bytes \<Rightarrow> nat) \<Rightarrow> 'w roundtrip \<Rightarrow> cluster \<Rightarrow> arg \<Rightarrow> arg \<Rightarrow> pyfloat option \<Rightarrow> bool \<Rightarrow> bool \<Rightarrow> 'w \<Rightarrow>
   (cluster_error + bool) \<times> 'w" where
  "cl_set digest rt cl key v ttl use_nx use_xx w =
     (case set_parts key v ttl of
        Inl e \<Rightarrow> (Inl e, w)
      | Inr parts \<Rightarrow>
          checked (\<lambda>reply. Inr (reply = PyArg (Str (ascii_str ''OK''))))
            (cl_execute digest rt cl key
              (parts @ (if use_nx then [word_arg ''NX''] else []) @ (if use_xx then [word_arg ''XX''] else [])) w))"

definition cl_get :: "(bytes \<Rightarrow> nat) \<Rightarrow> 'w roundtrip \<Rightarrow> cluster \<Rightarrow> arg \<Rightarrow> 'w \<Rightarrow> (cluster_error + bytes option) \<times> 'w" where
  "cl_get digest rt cl key w = checked opt_bytes (cl_execute digest rt cl key [word_arg ''GET'', key] w)"

definition cl_delete :: "(bytes \<Rightarrow> nat) \<Rightarrow> 'w roundtrip \<Rightarrow> cluster \<Rightarrow> arg \<Rightarrow> 'w \<Rightarrow> (cluster_error + int) \<times> 'w" where
  "cl_delete digest rt cl key w = checked integer_reply (cl_execute digest rt cl key [word_arg ''DEL'', key] w)"

definition cl_exists :: "(bytes \<Rightarrow> nat) \<Rightarrow> 'w roundtrip \<Rightarrow> cluster \<Rightarrow> arg \<Rightarrow> 'w \<Rightarrow> (cluster_error + int) \<times> 'w" where
  "cl_exists digest rt cl key w = checked integer_reply (cl_execute digest rt cl key [word_arg ''EXISTS'', key] w)"

definition cl_incr :: "(bytes \<Rightarrow> nat) \<Rightarrow> 'w roundtrip \<Rightarrow> cluster \<Rightarrow> arg \<Rightarrow> int \<Rightarrow> 'w \<Rightarrow> (cluster_error + int) \<times> 'w" where
  "cl_incr digest rt cl key amount w =
     checked integer_reply (cl_execute digest rt cl key [word_arg ''INCRBY'', key, word_arg (str_int amount)] w)"

definition cl_expire :: "(bytes \<Rightarrow> nat) \<Rightarrow> 'w roundtrip \<Rightarrow> cluster \<Rightarrow> arg \<Rightarrow> pyfloat \<Rightarrow> 'w \<Rightarrow> (cluster_error + bool) \<times> 'w" where
  "cl_expire digest rt cl key seconds w =
     (case expire_command key seconds of
        Inl e \<Rightarrow> (Inl e, w)
      | Inr parts \<Rightarrow>
          checked (\<lambda>r. map_sum id (\<lambda>n. n = 1) (integer_reply r)) (cl_execute digest rt cl key parts w))"

definition cl_ttl :: "(bytes \<Rightarrow> nat) \<Rightarrow> 'w roundtrip \<Rightarrow> cluster \<Rightarrow> arg \<Rightarrow> 'w \<Rightarrow> (cluster_error + int) \<times> 'w" where
  "cl_ttl digest rt cl key w = checked integer_reply (cl_execute digest rt cl key [word_arg ''TTL'', key] w)"



section \<open>Operations on several shards\<close>

text \<open>\<^verbatim>\<open>groups.setdefault(node, []).extend(xs)\<close>\<close>

fun add_to_group :: "pystr \<Rightarrow> 'v list \<Rightarrow> (pystr \<times> 'v list) list \<Rightarrow> (pystr \<times> 'v list) list" where
  "add_to_group node xs [] = [(node, xs)]"
| "add_to_group node xs ((n, ys) # gs) =
     (if n = node then (n, ys @ xs) # gs else (n, ys) # add_to_group node xs gs)"

fun group_loop ::
  "(arg \<Rightarrow> cluster_error + pystr) \<Rightarrow> (arg \<times> 'v list) list \<Rightarrow> (pystr \<times> 'v list) list \<Rightarrow>
   cluster_error + (pystr \<times> 'v list) list" where
  "group_loop nf [] gs = Inr gs"
| "group_loop nf ((key, xs) # rest) gs = sum_bind (nf key) (\<lambda>node. group_loop nf rest (add_to_group node xs gs))"

text \<open>\<^verbatim>\<open>asyncio.gather\<close>: everything runs, the first error is raised.\<close>

fun gather :: "('a \<Rightarrow> 'w \<Rightarrow> ('e + 'b) \<times> 'w) \<Rightarrow> 'a list \<Rightarrow> 'w \<Rightarrow> ('e + 'b list) \<times> 'w" where
  "gather f [] w = (Inr [], w)"
| "gather f (x # xs) w =
     (case f x w of (r, w1) \<Rightarrow>
      case gather f xs w1 of (rs, w2) \<Rightarrow> (sum_bind r (\<lambda>y. map_sum id (\<lambda>ys. y # ys) rs), w2))"

fun collect :: "('e + 'a) list \<Rightarrow> 'e + 'a list" where
  "collect [] = Inr []"
| "collect (r # rs) = sum_bind r (\<lambda>x. map_sum id (\<lambda>xs. x # xs) (collect rs))"

definition fetch_group ::
  "'w roundtrip \<Rightarrow> arg list \<Rightarrow> pystr \<times> nat list \<Rightarrow> 'w \<Rightarrow> (cluster_error + (nat \<times> bytes option) list) \<times> 'w" where
  "fetch_group rt keys = (\<lambda>(node, indexes) w.
     map_prod (\<lambda>r. sum_bind r (\<lambda>reply.
         case reply of
           PyList xs \<Rightarrow>
             if length xs \<noteq> length indexes then Inl (Unexpected_mget node)
             else map_sum id (zip indexes) (collect (map opt_bytes xs))
         | _ \<Rightarrow> Inl (Unexpected_mget node))) id
       (rt node (word_arg ''MGET'' # map (\<lambda>i. keys ! i) indexes) w))"

text \<open>\<^verbatim>\<open>results[i] = value\<close> for all that was fetched.\<close>

definition fill :: "'a list \<Rightarrow> (nat \<times> 'a) list \<Rightarrow> 'a list" where
  "fill results ps = fold (\<lambda>(i, v) rs. rs[i := v]) ps results"

definition indexed :: "('a \<Rightarrow> arg) \<Rightarrow> 'a list \<Rightarrow> (arg \<times> nat list) list" where
  "indexed key xs = map (\<lambda>i. (key (xs ! i), [i])) [0..<length xs]"

definition cl_mget ::
  "(bytes \<Rightarrow> nat) \<Rightarrow> 'w roundtrip \<Rightarrow> cluster \<Rightarrow> arg list \<Rightarrow> 'w \<Rightarrow> (cluster_error + bytes option list) \<times> 'w" where
  "cl_mget digest rt cl keys w =
     (case group_loop (node_for digest cl) (indexed id keys) [] of
        Inl e \<Rightarrow> (Inl e, w)
      | Inr groups \<Rightarrow>
          map_prod (map_sum id (\<lambda>pss. fill (replicate (length keys) None) (concat pss))) id
            (gather (fetch_group rt keys) groups w))"

definition cl_mset ::
  "(bytes \<Rightarrow> nat) \<Rightarrow> 'w roundtrip \<Rightarrow> cluster \<Rightarrow> (arg \<times> arg) list \<Rightarrow> 'w \<Rightarrow> (cluster_error + unit) \<times> 'w" where
  "cl_mset digest rt cl mapping w =
     (case group_loop (node_for digest cl) (map (\<lambda>(k, v). (k, [k, v])) mapping) [] of
        Inl e \<Rightarrow> (Inl e, w)
      | Inr groups \<Rightarrow>
          map_prod (map_sum id (\<lambda>_. ())) id
            (gather (\<lambda>(node, flat). rt node (word_arg ''MSET'' # flat)) groups w))"

definition node_ids :: "cluster \<Rightarrow> pystr list" where
  "node_ids cl = map node_id (shards cl)"

definition each_shard ::
  "'w roundtrip \<Rightarrow> cluster \<Rightarrow> arg list \<Rightarrow> 'w \<Rightarrow> (cluster_error + (pystr, pyobj) odict) \<times> 'w" where
  "each_shard rt cl parts w =
     map_prod (map_sum id (\<lambda>replies. fold (\<lambda>(n, r) d. od_set n r d) (zip (node_ids cl) replies) [])) id
       (gather (\<lambda>node. rt node parts) (node_ids cl) w)"

definition cl_keys :: "'w roundtrip \<Rightarrow> cluster \<Rightarrow> arg \<Rightarrow> 'w \<Rightarrow> (cluster_error + bytes list) \<times> 'w" where
  "cl_keys rt cl pattern w =
     map_prod (\<lambda>r. sum_bind r (\<lambda>replies. map_sum id concat (collect (map (bytes_list \<circ> snd) replies)))) id
       (each_shard rt cl [word_arg ''KEYS'', pattern] w)"

definition DEL_BATCH :: nat where "DEL_BATCH = 500"

function batches :: "nat \<Rightarrow> 'a list \<Rightarrow> 'a list list" where
  "batches n xs = (if xs = [] \<or> n = 0 then [] else take n xs # batches n (drop n xs))"
  by pat_completeness auto
termination batches
  by (relation "measure (\<lambda>(n, xs). length xs)") (auto simp: neq_Nil_conv)

declare batches.simps [simp del]

fun delete_batches ::
  "'w roundtrip \<Rightarrow> pystr \<Rightarrow> bytes list list \<Rightarrow> int \<Rightarrow> 'w \<Rightarrow> (cluster_error + int) \<times> 'w" where
  "delete_batches rt node [] deleted w = (Inr deleted, w)"
| "delete_batches rt node (batch # rest) deleted w =
     (case checked integer_reply (rt node (word_arg ''DEL'' # map Bytes batch) w) of
        (Inl e, w1) \<Rightarrow> (Inl e, w1)
      | (Inr n, w1) \<Rightarrow> delete_batches rt node rest (deleted + n) w1)"

definition purge :: "'w roundtrip \<Rightarrow> arg \<Rightarrow> pystr \<Rightarrow> 'w \<Rightarrow> (cluster_error + int) \<times> 'w" where
  "purge rt pattern node w =
     (case checked bytes_list (rt node [word_arg ''KEYS'', pattern] w) of
        (Inl e, w1) \<Rightarrow> (Inl e, w1)
      | (Inr keys, w1) \<Rightarrow> delete_batches rt node (batches DEL_BATCH keys) 0 w1)"

definition delete_pattern :: "'w roundtrip \<Rightarrow> cluster \<Rightarrow> arg \<Rightarrow> 'w \<Rightarrow> (cluster_error + int) \<times> 'w" where
  "delete_pattern rt cl pattern w =
     map_prod (map_sum id sum_list) id (gather (purge rt pattern) (node_ids cl) w)"

definition flush_all :: "'w roundtrip \<Rightarrow> cluster \<Rightarrow> 'w \<Rightarrow> (cluster_error + unit) \<times> 'w" where
  "flush_all rt cl w = map_prod (map_sum id (\<lambda>_. ())) id (each_shard rt cl [word_arg ''FLUSHDB''] w)"

definition dbsize_per_shard ::
  "'w roundtrip \<Rightarrow> cluster \<Rightarrow> 'w \<Rightarrow> (cluster_error + (pystr, int) odict) \<times> 'w" where
  "dbsize_per_shard rt cl w =
     map_prod (\<lambda>r. sum_bind r (\<lambda>replies.
         collect (map (\<lambda>(n, reply). map_sum id (Pair n) (integer_reply reply)) replies))) id
       (each_shard rt cl [word_arg ''DBSIZE''] w)"

definition dbsize :: "'w roundtrip \<Rightarrow> cluster \<Rightarrow> 'w \<Rightarrow> (cluster_error + int) \<times> 'w" where
  "dbsize rt cl w = map_prod (map_sum id (\<lambda>d. sum_list (map snd d))) id (dbsize_per_shard rt cl w)"

text \<open>A pipeline: one batch for each shard, replies in the order of the commands.\<close>

type_synonym 'w batch_roundtrip = "pystr \<Rightarrow> arg list list \<Rightarrow> 'w \<Rightarrow> (cluster_error + pyobj list) \<times> 'w"

definition run_batch ::
  "'w batch_roundtrip \<Rightarrow> arg list list \<Rightarrow> pystr \<times> nat list \<Rightarrow> 'w \<Rightarrow> (cluster_error + (nat \<times> pyobj) list) \<times> 'w" where
  "run_batch brt commands = (\<lambda>(node, indexes) w.
     map_prod (map_sum id (zip indexes)) id (brt node (map (\<lambda>i. commands ! i) indexes) w))"

definition first_error :: "pyobj list \<Rightarrow> pystr option" where
  "first_error vs = (case List.find is_error vs of Some (Error m) \<Rightarrow> Some m | _ \<Rightarrow> None)"

definition execute_many ::
  "(bytes \<Rightarrow> nat) \<Rightarrow> 'w batch_roundtrip \<Rightarrow> cluster \<Rightarrow> arg list list \<Rightarrow> bool \<Rightarrow> 'w \<Rightarrow>
   (cluster_error + pyobj list) \<times> 'w" where
  "execute_many digest brt cl commands raise_on_error w =
     (case group_loop (node_for digest cl) (indexed (\<lambda>parts. parts ! 1) commands) [] of
        Inl e \<Rightarrow> (Inl e, w)
      | Inr groups \<Rightarrow>
          map_prod (\<lambda>r. sum_bind r (\<lambda>pss.
              let results = fill (replicate (length commands) PyNone) (concat pss)
              in case first_error results of
                   Some m \<Rightarrow> if raise_on_error then Inl (ClusterError m) else Inr results
                 | None \<Rightarrow> Inr results)) id
            (gather (run_batch brt commands) groups w))"

text \<open>\<^verbatim>\<open>execute\<close> of a pipeline: it is empty afterwards.\<close>

definition pipe_execute ::
  "(bytes \<Rightarrow> nat) \<Rightarrow> 'w batch_roundtrip \<Rightarrow> cluster \<Rightarrow> bool \<Rightarrow> arg list list \<Rightarrow> 'w \<Rightarrow>
   ((cluster_error + pyobj list) \<times> 'w) \<times> arg list list" where
  "pipe_execute digest brt cl raise_on_error pl w = (execute_many digest brt cl pl raise_on_error w, [])"


section \<open>The network\<close>

text \<open>A connection: the server's view of its authentication, the bytes the client has not read yet, and
  whether the server has closed it.\<close>

record conn =
  cauthed :: bool
  unread :: bytes
  copen :: bool

text \<open>The outside world: the shards, the idle connections to each, and how many commands have been run.\<close>

record net =
  servers :: "(pystr, server) odict"
  pools :: "pystr \<Rightarrow> conn list"
  tick :: nat

text \<open>\<^verbatim>\<open>op\<close> of \<^verbatim>\<open>_roundtrip\<close> and \<^verbatim>\<open>_execute_many\<close>: write the commands, read one reply for each. \<open>depth\<close> is the recursion
  limit of \<^verbatim>\<open>read_reply\<close>.\<close>

definition conn_op ::
  "(nat \<Rightarrow> clock) \<Rightarrow> nat \<Rightarrow> pystr \<Rightarrow> arg list list \<Rightarrow> conn \<Rightarrow> net \<Rightarrow> (op_error + pyobj list) \<times> conn \<times> net" where
  "conn_op clk depth node commands cn w =
     (case encode_each (map command_obj commands) of
        Inl e \<Rightarrow> (Inl (Op_cluster (Unencodable e)), cn, w)
      | Inr payloads \<Rightarrow>
          (case od_get (servers w) node of
             None \<Rightarrow> (Inl (Op_broken Connect_failed), cn, w)
           | Some s \<Rightarrow>
               let (still, out, authed, s1) =
                     (if copen cn then
                        case client_loop (\<lambda>i. clk (tick w + i)) (\<lambda>_. 0) 0 (cauthed cn) [] (concat payloads) s of
                          (why, out, authed, s1) \<Rightarrow> (why = Peer_closed, out, authed, s1)
                      else (False, [], cauthed cn, s));
                   w1 = w\<lparr>servers := od_set node s1 (servers w), tick := tick w + length commands\<rparr>
               in case read_n (read_reply depth) (length commands) (unread cn @ out) of
                    Inl e \<Rightarrow> (Inl (Op_broken (Link_failed e)), cn, w1)
                  | Inr (replies, rest) \<Rightarrow> (Inr replies, \<lparr>cauthed = authed, unread = rest, copen = still\<rparr>, w1)))"

text \<open>\<^verbatim>\<open>_connect\<close>, with the AUTH of a client that has a password.\<close>

definition conn_connect ::
  "(nat \<Rightarrow> clock) \<Rightarrow> nat \<Rightarrow> pystr option \<Rightarrow> pystr \<Rightarrow> net \<Rightarrow> (op_error + conn) \<times> net" where
  "conn_connect clk depth pw node w =
     (case od_get (servers w) node of
        None \<Rightarrow> (Inl (Op_broken Connect_failed), w)
      | Some s \<Rightarrow>
          let cn = \<lparr>cauthed = (requirepass s = None), unread = [], copen = True\<rparr>
          in case pw of
               None \<Rightarrow> (Inr cn, w)
             | Some p \<Rightarrow>
                 (case conn_op clk depth node [[word_arg ''AUTH'', Str p]] cn w of
                    (Inl e, _, w1) \<Rightarrow> (Inl e, w1)
                  | (Inr [Error m], _, w1) \<Rightarrow> (Inl (Op_cluster (Shard_error node m)), w1)
                  | (Inr _, cn1, w1) \<Rightarrow> (Inr cn1, w1)))"

definition shard_batch :: "(nat \<Rightarrow> clock) \<Rightarrow> nat \<Rightarrow> cluster \<Rightarrow> net batch_roundtrip" where
  "shard_batch clk depth cl node commands w =
     (case pool_run (conn_connect clk depth (password cl) node) (conn_op clk depth node commands) node False
             (pools w node) w of
        (r, idle, w1) \<Rightarrow> (r, w1\<lparr>pools := (pools w1)(node := idle)\<rparr>))"

definition shard_roundtrip :: "(nat \<Rightarrow> clock) \<Rightarrow> nat \<Rightarrow> cluster \<Rightarrow> net roundtrip" where
  "shard_roundtrip clk depth cl node parts w =
     (case shard_batch clk depth cl node [parts] w of
        (Inl e, w1) \<Rightarrow> (Inl e, w1)
      | (Inr [Error m], w1) \<Rightarrow> (Inl (Shard_error node m), w1)
      | (Inr [v], w1) \<Rightarrow> (Inr v, w1)
      | (Inr vs, w1) \<Rightarrow> (Inl (Unexpected_reply (PyList vs)), w1))"

text \<open>\<^verbatim>\<open>close\<close> drops the idle connections; a request that is still running then does not give its connection back
  (the argument \<open>is_closed\<close> of \<open>pool_run\<close>).\<close>

definition client_close :: "net \<Rightarrow> net" where
  "client_close w = w\<lparr>pools := \<lambda>_. []\<rparr>"

end
