(* ===== verification/Cluster_Routing.thy ===== *)
theory Cluster_Routing
  imports Cluster_Client
begin

text \<open>
  The parts of the client that do not depend on the servers: how times are sent, how requests are split
  over shards and put together again, and what the pool of connections guarantees.
\<close>

section \<open>Times\<close>

lemma is_integer_iff: "is_integer x \<longleftrightarrow> (\<exists>n. x = of_int n)"
  by (auto simp: is_integer_def)

lemma is_integer_of_int [simp]: "is_integer (of_int n)" "py_trunc (of_int n) = n"
  by (simp_all add: is_integer_def py_trunc_def)

lemma ascii_str_ex:
  "ascii_str ''EX'' \<noteq> ascii_str ''NX''" "ascii_str ''EX'' \<noteq> ascii_str ''XX''" "ascii_str ''EX'' \<noteq> ascii_str ''GET''"
  "str_upper (ascii_str ''EX'') = ascii_str ''EX''"
  by (simp_all add: ascii_str_inj) (simp add: str_upper_def upper_cp_def ascii_str_def)

lemma parse_ex:
  "0 < n \<Longrightarrow> n \<le> INT64_MAX \<Longrightarrow>
   parse_set [k, v, word_arg ''EX'', word_arg (str_int n)] = Inr (px_options k v (Some (of_int n)))"
  using cmd_parse_int_str_int [of n "word_arg (str_int n)"]
  by (simp add: parse_set_def Let_def ascii_str_ex parse_ttl_def px_options_def INT64_MIN_def)

text \<open>The server reads the time to live the client meant: exactly when it is a whole number of seconds,
  otherwise to within a millisecond, and never as zero.\<close>

lemma ttl_args_read:
  assumes "0 < x" and "x * 1000 \<le> of_int INT64_MAX"
  shows "\<exists>extra t. ttl_args (Finite x) = Inr extra \<and> parse_set ([k, v] @ extra) = Inr (px_options k v (Some t)) \<and>
     0 < t \<and> \<bar>t - x\<bar> < 1 / 1000 \<and> (is_integer x \<longrightarrow> t = x)"
proof (cases "is_integer x")
  case True
  then obtain n where n: "x = of_int n" by (auto simp: is_integer_iff)
  have pos: "0 < n" using assms(1) n by simp
  moreover have "n \<le> INT64_MAX"
  proof -
    have "of_int (n * 1000) \<le> (of_int INT64_MAX :: rat)" using assms(2) n by simp
    then have "n * 1000 \<le> INT64_MAX" by (simp only: of_int_le_iff)
    with pos show ?thesis by simp
  qed
  ultimately show ?thesis using parse_ex [of n k v] n by (simp add: ttl_args_def)
next
  case False
  let ?n = "max 1 (py_round (x * 1000))"
  note r = py_round_bounds [of "x * 1000"]
  have "py_round (x * 1000) \<le> INT64_MAX"
  proof -
    have "of_int (py_round (x * 1000)) < (of_int (INT64_MAX + 1) :: rat)" using r assms(2) by simp
    then have "py_round (x * 1000) < INT64_MAX + 1" by (simp only: of_int_less_iff)
    then show ?thesis by simp
  qed
  then have n: "0 < ?n" "?n \<le> INT64_MAX" by (simp_all add: INT64_MAX_def)
  have "\<bar>of_int ?n - x * 1000\<bar> < 1"
  proof (cases "1 \<le> py_round (x * 1000)")
    case True
    then show ?thesis using r by (simp add: max_def abs_less_iff)
  next
    case False
    then have "of_int (py_round (x * 1000)) \<le> (0 :: rat)" by simp
    with r have "x * 1000 \<le> 1 / 2" by linarith
    with False assms(1) show ?thesis by (simp add: max_def abs_less_iff)
  qed
  then have "\<bar>of_int ?n / 1000 - x\<bar> < 1 / 1000" by (simp add: abs_less_iff field_simps)
  moreover have "0 < (of_int ?n / 1000 :: rat)" using n(1) by simp
  ultimately show ?thesis
    using parse_px(1) [OF n, of k v] False assms(1) by (auto simp: ttl_args_def)
qed

lemma expire_words:
  "named (word_arg ''EXPIRE'') ''EXPIRE''" "named (word_arg ''PEXPIRE'') ''PEXPIRE''"
  by (simp_all add: named_def str_upper_def upper_cp_def ascii_str_def)

text \<open>Likewise for EXPIRE, negative times included.\<close>

lemma expire_command_read:
  assumes "\<bar>x\<bar> * 1000 < of_int INT64_MAX"
  shows "\<exists>f n a m. expire_command key (Finite x) = Inr [f, key, a] \<and> named f n \<and>
     (n = ''EXPIRE'' \<or> n = ''PEXPIRE'') \<and> expire_number n a = Some m \<and>
     \<bar>requested_ttl c n m - x\<bar> \<le> 1 / 2000 \<and> (is_integer x \<longrightarrow> requested_ttl c n m = x)"
proof (cases "is_integer x")
  case True
  then obtain n where n: "x = of_int n" by (auto simp: is_integer_iff)
  have "of_int (\<bar>n\<bar> * 1000) < (of_int INT64_MAX :: rat)" using assms n by simp
  then have "\<bar>n\<bar> * 1000 < INT64_MAX" by (simp only: of_int_less_iff)
  then have "cmd_parse_int (word_arg (str_int n)) = Inr n"
    by (intro cmd_parse_int_str_int) (auto simp: INT64_MIN_def INT64_MAX_def)
  with n expire_words(1) show ?thesis
    by (intro exI [of _ "word_arg ''EXPIRE''"] exI [of _ "''EXPIRE''"] exI [of _ "word_arg (str_int n)"] exI [of _ n])
      (simp add: expire_command_def expire_number_def requested_ttl_def)
next
  case False
  let ?n = "py_round (x * 1000)"
  note r = py_round_bounds [of "x * 1000"]
  have "\<bar>x * 1000\<bar> < of_int INT64_MAX" using assms by (simp add: abs_mult)
  with r have "of_int (- INT64_MAX - 1) < (of_int ?n :: rat) \<and> of_int ?n < (of_int (INT64_MAX + 1) :: rat)"
    by (simp add: abs_less_iff)
  then have "- INT64_MAX - 1 < ?n \<and> ?n < INT64_MAX + 1" by (simp only: of_int_less_iff)
  then have "cmd_parse_int (word_arg (str_int ?n)) = Inr ?n"
    by (intro cmd_parse_int_str_int) (auto simp: INT64_MIN_def INT64_MAX_def)
  moreover have "\<bar>of_int ?n / 1000 - x\<bar> \<le> 1 / 2000"
    unfolding abs_le_iff using r by (simp add: field_simps)
  ultimately show ?thesis using False expire_words(2)
    by (intro exI [of _ "word_arg ''PEXPIRE''"] exI [of _ "''PEXPIRE''"] exI [of _ "word_arg (str_int ?n)"] exI [of _ ?n])
      (simp add: expire_command_def expire_number_def requested_ttl_def)
qed


section \<open>Groups\<close>

lemma add_to_group_keys: "map fst (add_to_group node xs gs) = (if node \<in> fst ` set gs then map fst gs else map fst gs @ [node])"
  by (induction gs) force+

lemma add_to_group_lookup:
  "map_of (add_to_group node xs gs) n =
     (if n = node then Some (case map_of gs node of None \<Rightarrow> xs | Some ys \<Rightarrow> ys @ xs) else map_of gs n)"
  by (induction gs) auto

text \<open>The group of a node: what the requests routed to it contribute, in their order.\<close>

lemma group_loop_lookup:
  assumes "group_loop nf items gs = Inr groups"
  shows "map_of groups n =
     (let mine = concat (map snd (filter (\<lambda>(key, xs). nf key = Inr n) items))
      in if \<exists>(key, xs) \<in> set items. nf key = Inr n
         then Some (case map_of gs n of None \<Rightarrow> mine | Some ys \<Rightarrow> ys @ mine) else map_of gs n)"
  using assms
proof (induction nf items gs rule: group_loop.induct)
  case (2 nf key xs rest gs)
  then obtain node where node: "nf key = Inr node" "group_loop nf rest (add_to_group node xs gs) = Inr groups"
    by (auto simp: sum_bind_eq_Inr)
  note IH = 2(1) [OF node(2)]
  show ?case
    unfolding IH add_to_group_lookup using node(1) by (auto simp: Let_def split: option.splits)
qed simp

lemma group_loop_distinct:
  "group_loop nf items gs = Inr groups \<Longrightarrow> distinct (map fst gs) \<Longrightarrow> distinct (map fst groups)"
proof (induction nf items gs rule: group_loop.induct)
  case (2 nf key xs rest gs)
  then show ?case by (auto simp: sum_bind_eq_Inr add_to_group_keys)
qed simp

lemma group_loop_total: "(\<And>key xs. (key, xs) \<in> set items \<Longrightarrow> \<exists>n. nf key = Inr n) \<Longrightarrow> \<exists>groups. group_loop nf items gs = Inr groups"
proof (induction nf items gs rule: group_loop.induct)
  case (2 nf key xs rest gs)
  obtain n where n: "nf key = Inr n" using 2(2) by auto
  have "\<exists>groups. group_loop nf rest (add_to_group n xs gs) = Inr groups"
    using 2(2) by (intro 2(1)) auto
  with n show ?case by simp
qed simp

text \<open>The groups of indexes: each index once, in the group of its node, in order.\<close>

definition routed :: "(nat \<Rightarrow> pystr) \<Rightarrow> nat \<Rightarrow> (pystr \<times> nat list) list \<Rightarrow> bool" where
  "routed rn len groups \<longleftrightarrow> distinct (map fst groups) \<and>
     (\<forall>(n, ix) \<in> set groups. ix = filter (\<lambda>i. rn i = n) [0..<len]) \<and> fst ` set groups = rn ` {..<len}"

lemma routed_group:
  assumes "routed rn len groups" and "(n, ix) \<in> set groups"
  shows "ix = filter (\<lambda>i. rn i = n) [0..<len]" and "n \<in> rn ` {..<len}"
proof -
  show "ix = filter (\<lambda>i. rn i = n) [0..<len]" using assms by (auto simp: routed_def)
  have "n \<in> fst ` set groups" using assms(2) by (rule rev_image_eqI) simp
  with assms(1) show "n \<in> rn ` {..<len}" by (simp add: routed_def)
qed

lemma concat_singletons: "concat (map (\<lambda>i. [i]) xs) = xs"
  by (induction xs) auto

lemma group_indexes:
  assumes "group_loop nf (indexed key xs) [] = Inr groups" and "\<And>i. i < length xs \<Longrightarrow> nf (key (xs ! i)) = Inr (rn i)"
  shows "routed rn (length xs) groups"
proof -
  let ?items = "indexed key xs"
  have mine: "concat (map snd (filter (\<lambda>(k, ys). nf k = Inr n) ?items)) = filter (\<lambda>i. rn i = n) [0..<length xs]" for n
  proof -
    have "filter (\<lambda>(k, ys). nf k = Inr n) ?items =
        map (\<lambda>i. (key (xs ! i), [i])) (filter (\<lambda>i. rn i = n) [0..<length xs])"
      unfolding indexed_def filter_map comp_def
      by (intro arg_cong [where f = "map _"] filter_cong) (auto simp: assms(2))
    then show ?thesis by (simp add: comp_def concat_singletons)
  qed
  have some: "(\<exists>(k, ys) \<in> set ?items. nf k = Inr n) \<longleftrightarrow> n \<in> rn ` {..<length xs}" for n
    using assms(2) by (force simp: indexed_def)
  have look: "map_of groups n = (if n \<in> rn ` {..<length xs} then Some (filter (\<lambda>i. rn i = n) [0..<length xs]) else None)" for n
    using group_loop_lookup [OF assms(1), of n] by (simp add: Let_def mine some)
  have dist: "distinct (map fst groups)" using group_loop_distinct [OF assms(1)] by simp
  have "ix = filter (\<lambda>i. rn i = n) [0..<length xs]" if "(n, ix) \<in> set groups" for n ix
    using look [of n] map_of_is_SomeI [OF dist that] by (simp split: if_splits)
  moreover have "n \<in> fst ` set groups \<longleftrightarrow> n \<in> rn ` {..<length xs}" for n
    using look [of n] map_of_eq_None_iff [of groups n] by (auto split: if_splits)
  ultimately show ?thesis unfolding routed_def using dist by blast
qed


section \<open>Putting results together\<close>

lemma fill_length [simp]: "length (fill rs ps) = length rs"
  unfolding fill_def by (induction ps arbitrary: rs) (auto split: prod.splits)

lemma fill_nth:
  assumes "i < length rs"
  shows "fill rs ps ! i = (case map_of (rev ps) i of Some v \<Rightarrow> v | None \<Rightarrow> rs ! i)"
  using assms
proof (induction ps arbitrary: rs)
  case (Cons p ps)
  obtain j v where p: "p = (j, v)" by (cases p)
  have "fill rs (p # ps) = fill (rs[j := v]) ps" by (simp add: fill_def p)
  with Cons p show ?case by (auto simp: map_add_def split: option.splits)
qed (simp add: fill_def)

text \<open>Filling in what each group returned for its indexes gives the results in the order of the requests.\<close>

lemma fill_routed:
  assumes r: "routed rn len groups" and rs: "length rs = len"
  shows "fill rs (concat (map (\<lambda>(n, ix). map (\<lambda>i. (i, g n i)) ix) groups)) = map (\<lambda>i. g (rn i) i) [0..<len]"
proof (rule nth_equalityI)
  let ?ps = "concat (map (\<lambda>(n, ix). map (\<lambda>i. (i, g n i)) ix) groups)"
  show "length (fill rs ?ps) = length (map (\<lambda>i. g (rn i) i) [0..<len])" using rs by simp
  fix i
  assume "i < length (fill rs ?ps)"
  then have i: "i < len" using rs by simp
  have mem: "v = g (rn i) i" if "(i, v) \<in> set ?ps" for v
    using that r by (fastforce simp: routed_def)
  have "(i, g (rn i) i) \<in> set ?ps"
  proof -
    have "rn i \<in> fst ` set groups" using r i by (auto simp: routed_def)
    then obtain ix where ix: "(rn i, ix) \<in> set groups" by auto
    then have "i \<in> set ix" using r i by (auto simp: routed_def)
    with ix show ?thesis by force
  qed
  then have "i \<in> fst ` set (rev ?ps)" unfolding set_rev by (rule rev_image_eqI) simp
  then obtain v where v: "map_of (rev ?ps) i = Some v"
    by (cases "map_of (rev ?ps) i") (simp_all add: map_of_eq_None_iff)
  from map_of_SomeD [OF v] mem have "v = g (rn i) i" by simp
  with v fill_nth [of i rs ?ps] i rs show "fill rs ?ps ! i = map (\<lambda>i. g (rn i) i) [0..<len] ! i" by simp
qed

lemma gather_run:
  assumes "\<And>x w. x \<in> set xs \<Longrightarrow> ok w \<Longrightarrow> \<exists>w'. f x w = (Inr (g x), w') \<and> ok w'" and "ok w"
  shows "\<exists>w'. gather f xs w = (Inr (map g xs), w') \<and> ok w'"
  using assms
proof (induction xs arbitrary: w)
  case (Cons x xs)
  obtain w1 where w1: "f x w = (Inr (g x), w1)" "ok w1" using Cons.prems by fastforce
  obtain w2 where "gather f xs w1 = (Inr (map g xs), w2)" "ok w2"
    using Cons.IH [OF _ w1(2)] Cons.prems(1) by auto
  with w1 show ?case by simp
qed simp


section \<open>Batches\<close>

lemma batches_concat: "0 < n \<Longrightarrow> concat (batches n xs) = xs"
  by (induction n xs rule: batches.induct) (subst batches.simps, auto)

lemma batches_small: "b \<in> set (batches n xs) \<Longrightarrow> b \<noteq> [] \<and> length b \<le> n"
proof (induction n xs rule: batches.induct)
  case (1 n xs)
  then show ?case
    by (cases "xs = [] \<or> n = 0") (auto simp: batches.simps [of n xs])
qed


section \<open>The pool of connections\<close>

text \<open>A connection that is in the pool afterwards was there before and has not been used, or an operation
  has just returned on it: one on which an operation failed or timed out is not used again.\<close>

lemma pool_run_idle:
  assumes "pool_run connect op node is_closed idle w = (r, idle', w')" and "cn \<in> set idle'"
  shows "cn \<in> set idle \<or> (\<exists>cn0 w0 x. op cn0 w0 = (Inr x, cn, w') \<and> r = Inr x \<and> \<not> is_closed)"
  using assms
proof (induction connect op node is_closed idle w rule: pool_run.induct)
  case (1 connect op node is_closed w)
  then show ?case by (fastforce split: prod.splits sum.splits op_error.splits if_splits)
next
  case (2 connect op node is_closed cn1 idle w)
  show ?case
  proof (cases "op cn1 w")
    case (fields res cn2 w1)
    with 2 show ?thesis by (auto split: sum.splits op_error.splits if_splits)
  qed
qed

text \<open>An invariant of connections: what a new connection has, what an operation keeps when it returns.\<close>

lemma pool_run_inv:
  assumes run: "pool_run connect op node is_closed idle w = (r, idle', w')"
    and idle: "list_all good idle" and keep: "\<And>c w x c1 w1. op c w = (Inr x, c1, w1) \<Longrightarrow> good c1"
  shows "list_all good idle'"
proof -
  have "good cn" if cn: "cn \<in> set idle'" for cn
    using pool_run_idle [OF run cn]
  proof (elim disjE exE conjE)
    fix cn0 w0 x
    assume "op cn0 w0 = (Inr x, cn, w')"
    then show "good cn" by (rule keep)
  qed (use idle in \<open>simp add: list_all_iff\<close>)
  then show ?thesis by (simp add: list_all_iff)
qed

text \<open>Connections that turn out to be broken are used up one after the other, then a new one is opened.\<close>

lemma pool_run_broken:
  assumes "\<And>c w. c \<in> set broken \<Longrightarrow> op c w = (Inl (Op_broken e), c, w)"
  shows "pool_run connect op node is_closed (broken @ idle) w = pool_run connect op node is_closed idle w"
  using assms by (induction broken) auto


section \<open>Pipelines\<close>

text \<open>A pipeline returns the replies in the order of its commands, whatever shards they went to, when each
  shard answers its batch in order.\<close>

lemma execute_many_order:
  assumes nf: "\<And>i. i < length commands \<Longrightarrow> node_for digest cl (commands ! i ! 1) = Inr (rn i)"
    and batch: "\<And>n ix w. ok w \<Longrightarrow> ix = filter (\<lambda>i. rn i = n) [0..<length commands] \<Longrightarrow>
      \<exists>w'. brt n (map (\<lambda>i. commands ! i) ix) w = (Inr (map g ix), w') \<and> ok w'"
    and ok: "ok w" and replies: "replies = map g [0..<length commands]"
  shows "\<exists>w'. execute_many digest brt cl commands raise_on_error w =
      (case first_error replies of
         Some m \<Rightarrow> if raise_on_error then Inl (ClusterError m) else Inr replies
       | None \<Rightarrow> Inr replies, w') \<and> ok w'"
proof -
  let ?items = "indexed (\<lambda>parts. parts ! 1) commands"
  let ?g = "\<lambda>(n, ix). map (\<lambda>i. (i, g i)) ix"
  have "\<exists>n. node_for digest cl key = Inr n" if "(key, xs) \<in> set ?items" for key xs
    using that nf by (auto simp: indexed_def)
  then obtain groups where gs: "group_loop (node_for digest cl) ?items [] = Inr groups"
    using group_loop_total by blast
  have routed: "routed rn (length commands) groups" using group_indexes [OF gs nf] .
  have step: "\<exists>w2. run_batch brt commands x w1 = (Inr (?g x), w2) \<and> ok w2" if mem: "x \<in> set groups" and ok1: "ok w1" for x w1
  proof -
    obtain n ix where x: "x = (n, ix)" by (cases x)
    obtain w2 where "brt n (map (\<lambda>i. commands ! i) ix) w1 = (Inr (map g ix), w2)" "ok w2"
      using batch [OF ok1 routed_group(1) [OF routed]] mem x by blast
    then show ?thesis by (simp add: run_batch_def x zip_map2 zip_same_conv_map)
  qed
  obtain w' where w': "gather (run_batch brt commands) groups w = (Inr (map ?g groups), w')" "ok w'"
    using gather_run [of groups ok "run_batch brt commands" ?g w] step ok by blast
  have "fill (replicate (length commands) PyNone) (concat (map ?g groups)) = replies"
    using fill_routed [OF routed, of "replicate (length commands) PyNone" "\<lambda>n. g"] replies by simp
  with w' show ?thesis
    by (intro exI [of _ w']) (simp add: execute_many_def gs [simplified] Let_def split: option.split)
qed

end
