(* ===== verification/Cluster_Shards.thy ===== *)
theory Cluster_Shards
  imports Cluster_Routing
begin

text \<open>
  What the client relies on when it talks to a shard, and what it makes of it: the shards together
  behave as one map from keys to values. The locale \<open>shard_service\<close> states the promises of the round
  trip to a shard; the client's operations are verified once inside it.
\<close>

section \<open>Routing by bytes\<close>

definition bytes_reply :: "bytes option \<Rightarrow> pyobj" where
  "bytes_reply v = (case v of None \<Rightarrow> PyNone | Some b \<Rightarrow> PyArg (Bytes b))"

lemma opt_bytes_reply [simp]: "opt_bytes (bytes_reply v) = Inr v"
  by (simp add: opt_bytes_def bytes_reply_def split: option.split)

definition route :: "(bytes \<Rightarrow> nat) \<Rightarrow> cluster \<Rightarrow> bytes \<Rightarrow> pystr" where
  "route digest cl b = (case node_for digest cl (Bytes b) of Inr n \<Rightarrow> n | Inl _ \<Rightarrow> [])"

text \<open>Every key belongs to a shard that can be reached.\<close>

definition routes :: "(bytes \<Rightarrow> nat) \<Rightarrow> cluster \<Rightarrow> (pystr \<Rightarrow> bool) \<Rightarrow> bool" where
  "routes digest cl reachable \<longleftrightarrow> (\<forall>b. node_for digest cl (Bytes b) = Inr (route digest cl b) \<and> reachable (route digest cl b))"

text \<open>The contents of the whole cluster: for each key what its shard has.\<close>

definition cluster_map :: "(bytes \<Rightarrow> nat) \<Rightarrow> cluster \<Rightarrow> (pystr \<Rightarrow> bytes \<rightharpoonup> bytes) \<Rightarrow> bytes \<rightharpoonup> bytes" where
  "cluster_map digest cl sh b = sh (route digest cl b) b"

lemma node_for_bytes: "arg_bytes k = Some b \<Longrightarrow> node_for digest cl k = node_for digest cl (Bytes b)"
  by (cases k) (simp_all add: node_for_def get_node_def ring_hash_def arg_bytes_def)

lemma node_for_route: "routes digest cl P \<Longrightarrow> arg_bytes k = Some b \<Longrightarrow> node_for digest cl k = Inr (route digest cl b)"
  using node_for_bytes [of k b digest cl] by (simp add: routes_def)

lemma cluster_map_update:
  "n = route digest cl b \<Longrightarrow> cluster_map digest cl (sh(n := (sh n)(b := v))) = (cluster_map digest cl sh)(b := v)"
  by (auto simp: cluster_map_def fun_eq_iff)

fun byte_pairs :: "bytes list \<Rightarrow> (bytes \<times> bytes) list" where
  "byte_pairs (k # v # rest) = (k, v) # byte_pairs rest"
| "byte_pairs _ = []"

definition put_all :: "(bytes \<times> bytes) list \<Rightarrow> (bytes \<rightharpoonup> bytes) \<Rightarrow> bytes \<rightharpoonup> bytes" where
  "put_all ps m = fold (\<lambda>(k, v) m. m(k \<mapsto> v)) ps m"

lemma put_all_simps [simp]: "put_all [] m = m" "put_all ((k, v) # ps) m = put_all ps (m(k \<mapsto> v))"
  by (simp_all add: put_all_def)

text \<open>What happens to one key depends only on the assignments to it.\<close>

lemma put_all_filter: "P b \<Longrightarrow> m b = m' b \<Longrightarrow> put_all (filter (\<lambda>(k, v). P k) ps) m b = put_all ps m' b"
proof (induction ps arbitrary: m m')
  case (Cons p ps)
  obtain k v where p: "p = (k, v)" by (cases p)
  from Cons.prems show ?case by (auto simp: p intro!: Cons.IH)
qed simp


section \<open>Groups of keys\<close>

lemma those_map_nth: "those (map f xs) = Some ys \<Longrightarrow> i < length xs \<Longrightarrow> f (xs ! i) = Some (ys ! i)"
  by (induction xs arbitrary: ys i) (auto simp: nth_Cons split: option.splits nat.splits)

lemma those_map_index:
  assumes "those (map f xs) = Some ys" and "\<forall>i \<in> set ix. i < length xs"
  shows "those (map (\<lambda>i. f (xs ! i)) ix) = Some (map (\<lambda>i. ys ! i) ix)"
  using assms(2) those_map_nth [OF assms(1)] by (induction ix) auto

lemma ok_command_sub:
  "ok_command (n # bs) \<Longrightarrow> length bs' \<le> length bs \<Longrightarrow> set bs' \<subseteq> set bs \<Longrightarrow> ok_command (n # bs')"
  by (auto simp: ok_command_def list_all_iff)

text \<open>Operations that look at and change one entry each, different ones: each sees its entry as it was at the start.\<close>

lemma gather_keyed:
  assumes "\<And>x w. x \<in> set xs \<Longrightarrow> ok w \<Longrightarrow> \<exists>w'. f x w = (Inr (g x (view w (fst x))), w') \<and> ok w' \<and>
      view w' = (view w)(fst x := upd (fst x) (view w (fst x)))"
    and "distinct (map fst xs)" and "ok w"
  shows "\<exists>w'. gather f xs w = (Inr (map (\<lambda>x. g x (view w (fst x))) xs), w') \<and> ok w' \<and>
    (\<forall>n. view w' n = (if n \<in> fst ` set xs then upd n (view w n) else view w n))"
  using assms
proof (induction xs arbitrary: w)
  case (Cons x xs)
  obtain w1 where w1: "f x w = (Inr (g x (view w (fst x))), w1)" "ok w1"
    "view w1 = (view w)(fst x := upd (fst x) (view w (fst x)))"
    using Cons.prems by fastforce
  obtain w2 where w2: "gather f xs w1 = (Inr (map (\<lambda>x. g x (view w1 (fst x))) xs), w2)" "ok w2"
    "\<And>n. view w2 n = (if n \<in> fst ` set xs then upd n (view w1 n) else view w1 n)"
    using Cons.IH [OF _ _ w1(2)] Cons.prems(1,2) by auto
  have fresh: "fst x \<notin> fst ` set xs" using Cons.prems(2) by auto
  then have "map (\<lambda>y. g y (view w1 (fst y))) xs = map (\<lambda>y. g y (view w (fst y))) xs"
    using w1(3) by (auto simp: image_iff)
  with w1 w2 fresh show ?case by (intro exI [of _ w2]) auto
qed simp

text \<open>The pairs of MSET, flattened and split over shards.\<close>

lemma byte_pairs_flat: "byte_pairs (concat (map (\<lambda>(b, x). [b, x]) ps)) = ps"
  by (induction ps) auto

lemma even_flat: "even (length (concat (map (\<lambda>(b, x). [b, x]) ps)))"
  by (induction ps) auto

lemma flat_filter:
  "length (concat (map (\<lambda>(b, x). [b, x]) (filter P ps))) \<le> length (concat (map (\<lambda>(b, x). [b, x]) ps)) \<and>
   set (concat (map (\<lambda>(b, x). [b, x]) (filter P ps))) \<subseteq> set (concat (map (\<lambda>(b, x). [b, x]) ps))"
  by (induction ps) (auto split: prod.splits)

lemma mset_group_items:
  "concat (map snd (filter (\<lambda>(key, xs). nf key = r) (map (\<lambda>(k, v). (k, [k, v])) mapping))) =
   concat (map (\<lambda>(k, v). [k, v]) (filter (\<lambda>(k, v). nf k = r) mapping))"
  by (induction mapping) auto

lemma mset_keys:
  assumes "list_all2 (\<lambda>(k, v) (b, x). arg_bytes k = Some b \<and> arg_bytes v = Some x) mapping ps"
  shows "(k, v) \<in> set mapping \<Longrightarrow> \<exists>b. arg_bytes k = Some b"
  using assms by (induction rule: list_all2_induct) auto

lemma mset_group_empty:
  assumes "list_all2 (\<lambda>(k, v) (b, x). arg_bytes k = Some b \<and> arg_bytes v = Some x) mapping ps"
    and "\<And>k b. arg_bytes k = Some b \<Longrightarrow> nf k = Inr (rt b)"
  shows "(\<exists>(key, xs) \<in> set (map (\<lambda>(k, v). (k, [k, v])) mapping). nf key = Inr n) \<longleftrightarrow>
    filter (\<lambda>(b, x). rt b = n) ps \<noteq> []"
  using assms(1) by (induction rule: list_all2_induct) (auto simp: assms(2))

lemma mset_group_bytes:
  assumes "list_all2 (\<lambda>(k, v) (b, x). arg_bytes k = Some b \<and> arg_bytes v = Some x) mapping ps"
    and "\<And>k b. arg_bytes k = Some b \<Longrightarrow> nf k = Inr (rt b)"
  shows "those (map arg_bytes (concat (map (\<lambda>(k, v). [k, v]) (filter (\<lambda>(k, v). nf k = Inr n) mapping)))) =
    Some (concat (map (\<lambda>(b, x). [b, x]) (filter (\<lambda>(b, x). rt b = n) ps)))"
  using assms(1) by (induction rule: list_all2_induct) (auto simp: assms(2))


section \<open>The contract of a shard\<close>

locale shard_service =
  fixes rt :: "'w roundtrip" and ok :: "'w \<Rightarrow> bool" and up :: "'w \<Rightarrow> pystr \<Rightarrow> bool"
    and shard :: "'w \<Rightarrow> pystr \<Rightarrow> bytes \<rightharpoonup> bytes"
  assumes get_law: "ok w \<Longrightarrow> up w n \<Longrightarrow> arg_bytes k = Some b \<Longrightarrow> ok_bulk b \<Longrightarrow>
      \<exists>w'. rt n [word_arg ''GET'', k] w = (Inr (bytes_reply (shard w n b)), w') \<and>
        ok w' \<and> up w' = up w \<and> shard w' = shard w"
    and mget_law: "ok w \<Longrightarrow> up w n \<Longrightarrow> those (map arg_bytes ks) = Some bs \<Longrightarrow> bs \<noteq> [] \<Longrightarrow> ok_command (''MGET'' # bs) \<Longrightarrow>
      \<exists>w'. rt n (word_arg ''MGET'' # ks) w = (Inr (PyList (map (\<lambda>b. bytes_reply (shard w n b)) bs)), w') \<and>
        ok w' \<and> up w' = up w \<and> shard w' = shard w"
    and set_law: "ok w \<Longrightarrow> up w n \<Longrightarrow> arg_bytes k = Some b \<Longrightarrow> arg_bytes v = Some x \<Longrightarrow> ok_bulk b \<Longrightarrow> ok_bulk x \<Longrightarrow>
      \<exists>w'. rt n [word_arg ''SET'', k, v] w = (Inr (PyArg (word_arg ''OK'')), w') \<and>
        ok w' \<and> up w' = up w \<and> shard w' = (shard w)(n := (shard w n)(b \<mapsto> x))"
    and mset_law: "ok w \<Longrightarrow> up w n \<Longrightarrow> those (map arg_bytes flat) = Some bs \<Longrightarrow> bs \<noteq> [] \<Longrightarrow> even (length bs) \<Longrightarrow>
      ok_command (''MSET'' # bs) \<Longrightarrow>
      \<exists>w'. rt n (word_arg ''MSET'' # flat) w = (Inr (PyArg (word_arg ''OK'')), w') \<and>
        ok w' \<and> up w' = up w \<and> shard w' = (shard w)(n := put_all (byte_pairs bs) (shard w n))"
    and del_law: "ok w \<Longrightarrow> up w n \<Longrightarrow> arg_bytes k = Some b \<Longrightarrow> ok_bulk b \<Longrightarrow>
      \<exists>w'. rt n [word_arg ''DEL'', k] w = (Inr (PyInt (if shard w n b = None then 0 else 1)), w') \<and>
        ok w' \<and> up w' = up w \<and> shard w' = (shard w)(n := (shard w n)(b := None))"
begin

lemma get_map:
  assumes "ok w" and "routes digest cl (up w)" and "arg_bytes k = Some b" and "ok_bulk b"
  shows "\<exists>w'. cl_get digest rt cl k w = (Inr (cluster_map digest cl (shard w) b), w') \<and>
    ok w' \<and> up w' = up w \<and> shard w' = shard w"
  using get_law [OF assms(1) _ assms(3,4), of "route digest cl b"] assms(2) node_for_route [OF assms(2,3)]
  by (auto simp: cl_get_def cl_execute_def checked_def cluster_map_def routes_def)

lemma set_map:
  assumes "ok w" and "routes digest cl (up w)" and "arg_bytes k = Some b" and "ok_bulk b"
    and "arg_bytes v = Some x" and "ok_bulk x"
  shows "\<exists>w'. cl_set digest rt cl k v None False False w = (Inr True, w') \<and> ok w' \<and> up w' = up w \<and>
    cluster_map digest cl (shard w') = (cluster_map digest cl (shard w))(b \<mapsto> x)"
proof -
  let ?n = "route digest cl b"
  obtain w' where w': "rt ?n [word_arg ''SET'', k, v] w = (Inr (PyArg (word_arg ''OK'')), w')" "ok w'" "up w' = up w"
    "shard w' = (shard w)(?n := (shard w ?n)(b \<mapsto> x))"
    using set_law [OF assms(1) _ assms(3,5,4,6), of ?n] assms(2) by (auto simp: routes_def)
  then show ?thesis
    using node_for_route [OF assms(2,3)]
    by (intro exI [of _ w'])
      (simp add: cl_set_def set_parts_def cl_execute_def checked_def cluster_map_update [OF refl])
qed

lemma delete_map:
  assumes "ok w" and "routes digest cl (up w)" and "arg_bytes k = Some b" and "ok_bulk b"
  shows "\<exists>w'. cl_delete digest rt cl k w = (Inr (if cluster_map digest cl (shard w) b = None then 0 else 1), w') \<and>
    ok w' \<and> up w' = up w \<and> cluster_map digest cl (shard w') = (cluster_map digest cl (shard w))(b := None)"
proof -
  let ?n = "route digest cl b"
  obtain w' where w': "rt ?n [word_arg ''DEL'', k] w = (Inr (PyInt (if shard w ?n b = None then 0 else 1)), w')" "ok w'" "up w' = up w"
    "shard w' = (shard w)(?n := (shard w ?n)(b := None))"
    using del_law [OF assms(1) _ assms(3,4), of ?n] assms(2) by (auto simp: routes_def)
  then show ?thesis
    using node_for_route [OF assms(2,3)]
    by (intro exI [of _ w'])
      (simp add: cl_delete_def cl_execute_def checked_def integer_reply_def cluster_map_update [OF refl] cluster_map_def)
qed

lemma fetch_law:
  assumes "ok w" and "up w n" and "those (map arg_bytes keys) = Some bs" and "ok_command (''MGET'' # bs)"
    and "ix \<noteq> []" and "length ix \<le> length bs" and "\<forall>i \<in> set ix. i < length keys"
  shows "\<exists>w'. fetch_group rt keys (n, ix) w = (Inr (map (\<lambda>i. (i, shard w n (bs ! i))) ix), w') \<and>
    ok w' \<and> up w' = up w \<and> shard w' = shard w"
proof -
  let ?bs = "map (\<lambda>i. bs ! i) ix"
  have those: "those (map arg_bytes (map (\<lambda>i. keys ! i) ix)) = Some ?bs"
    using those_map_index [OF assms(3,7)] by (simp add: comp_def)
  have "set ?bs \<subseteq> set bs" using assms(7) length_those [OF assms(3)] by auto
  then have cmd: "ok_command (''MGET'' # ?bs)" using ok_command_sub [OF assms(4)] assms(6) by simp
  obtain w' where w': "rt n (word_arg ''MGET'' # map (\<lambda>i. keys ! i) ix) w =
      (Inr (PyList (map (\<lambda>b. bytes_reply (shard w n b)) ?bs)), w')" "ok w'" "up w' = up w" "shard w' = shard w"
    using mget_law [OF assms(1,2) those _ cmd] assms(5) by auto
  have "collect (map opt_bytes (map (\<lambda>b. bytes_reply (shard w n b)) cs)) = Inr (map (shard w n) cs)" for cs
    by (induction cs) auto
  from this [of ?bs] w' show ?thesis
    by (intro exI [of _ w']) (simp add: fetch_group_def comp_def zip_map2 zip_same_conv_map)
qed

text \<open>MGET over all shards: the values in the order of the keys.\<close>

lemma mget_map:
  assumes ok: "ok w" and r: "routes digest cl (up w)" and bs: "those (map arg_bytes keys) = Some bs"
    and cmd: "ok_command (''MGET'' # bs)"
  shows "\<exists>w'. cl_mget digest rt cl keys w = (Inr (map (cluster_map digest cl (shard w)) bs), w') \<and>
    ok w' \<and> up w' = up w \<and> shard w' = shard w"
proof -
  let ?rn = "\<lambda>i. route digest cl (bs ! i)"
  have len: "length bs = length keys" using length_those [OF bs] by simp
  have nf: "node_for digest cl (keys ! i) = Inr (?rn i)" if "i < length keys" for i
    using node_for_route [OF r those_map_nth [OF bs that]] .
  have "\<exists>n. node_for digest cl key = Inr n" if "(key, xs) \<in> set (indexed id keys)" for key xs
    using that nf by (auto simp: indexed_def)
  then obtain groups where g: "group_loop (node_for digest cl) (indexed id keys) [] = Inr groups"
    using group_loop_total by blast
  have routed: "routed ?rn (length keys) groups"
    using group_indexes [OF g, of ?rn] nf by simp
  define same where "same w' \<longleftrightarrow> ok w' \<and> up w' = up w \<and> shard w' = shard w" for w'
  let ?g = "\<lambda>(n, ix). map (\<lambda>i. (i, shard w n (bs ! i))) ix"
  have step: "\<exists>w2. fetch_group rt keys x w1 = (Inr (?g x), w2) \<and> same w2" if "x \<in> set groups" "same w1" for x w1
  proof -
    obtain n ix where x: "x = (n, ix)" by (cases x)
    have ix: "ix = filter (\<lambda>i. ?rn i = n) [0..<length keys]" and n: "n \<in> ?rn ` {..<length keys}"
      using routed_group [OF routed] that(1) x by simp_all
    have "up w n" using r n by (auto simp: routes_def)
    moreover have "ix \<noteq> []" using n by (auto simp: ix filter_empty_conv)
    moreover have "length ix \<le> length bs" using length_filter_le [of "\<lambda>i. ?rn i = n" "[0..<length keys]"] by (simp add: ix len)
    moreover have "\<forall>i \<in> set ix. i < length keys" by (simp add: ix)
    ultimately show ?thesis
      using fetch_law [OF _ _ bs cmd, of w1 n ix] that(2) by (auto simp: x same_def)
  qed
  obtain w' where w': "gather (fetch_group rt keys) groups w = (Inr (map ?g groups), w')" "same w'"
    using gather_run [of groups same "fetch_group rt keys" ?g w] step ok by (auto simp: same_def)
  have "fill (replicate (length keys) None) (concat (map ?g groups)) = map (\<lambda>i. shard w (?rn i) (bs ! i)) [0..<length keys]"
    using fill_routed [OF routed, of "replicate (length keys) None" "\<lambda>n i. shard w n (bs ! i)"] by simp
  also have "\<dots> = map (cluster_map digest cl (shard w)) bs"
    by (rule nth_equalityI) (simp_all add: len cluster_map_def)
  finally show ?thesis
    using w' by (intro exI [of _ w']) (simp add: cl_mget_def g same_def)
qed

text \<open>MSET over all shards.\<close>

lemma mset_group_law:
  assumes "ok w" and "up w n" and "those (map arg_bytes flat) = Some (concat (map (\<lambda>(b, x). [b, x]) ps))" and "ps \<noteq> []"
    and "ok_command (''MSET'' # concat (map (\<lambda>(b, x). [b, x]) ps))"
  shows "\<exists>w'. rt n (word_arg ''MSET'' # flat) w = (Inr (PyArg (word_arg ''OK'')), w') \<and>
    ok w' \<and> up w' = up w \<and> shard w' = (shard w)(n := put_all ps (shard w n))"
  using mset_law [OF assms(1,2,3) _ _ assms(5)] assms(4) by (cases ps) (auto simp: byte_pairs_flat even_flat)

lemma mset_map:
  assumes ok: "ok w" and r: "routes digest cl (up w)"
    and enc: "list_all2 (\<lambda>(k, v) (b, x). arg_bytes k = Some b \<and> arg_bytes v = Some x) mapping ps"
    and cmd: "ok_command (''MSET'' # concat (map (\<lambda>(b, x). [b, x]) ps))"
  shows "\<exists>w'. cl_mset digest rt cl mapping w = (Inr (), w') \<and> ok w' \<and> up w' = up w \<and>
    cluster_map digest cl (shard w') = put_all ps (cluster_map digest cl (shard w))"
proof -
  let ?items = "map (\<lambda>(k, v). (k, [k, v])) mapping"
  let ?mine = "\<lambda>n. filter (\<lambda>(b, x). route digest cl b = n) ps"
  note nf = node_for_route [OF r]
  have "\<exists>n. node_for digest cl key = Inr n" if "(key, xs) \<in> set ?items" for key xs
    using that by (auto dest!: mset_keys [OF enc] nf)
  then obtain groups where g: "group_loop (node_for digest cl) ?items [] = Inr groups"
    using group_loop_total by blast
  have look: "map_of groups n = (if ?mine n = [] then None else Some (concat (map (\<lambda>(k, v). [k, v])
      (filter (\<lambda>(k, v). node_for digest cl k = Inr n) mapping))))" for n
    using group_loop_lookup [OF g, of n] mset_group_empty [OF enc nf, where n = n] by (auto simp: Let_def mset_group_items)
  have dist: "distinct (map fst groups)" using group_loop_distinct [OF g] by simp
  define same where "same w' \<longleftrightarrow> ok w' \<and> up w' = up w" for w'
  have step: "\<exists>w2. rt n (word_arg ''MSET'' # flat) w1 = (Inr (PyArg (word_arg ''OK'')), w2) \<and> same w2 \<and>
      shard w2 = (shard w1)(n := put_all (?mine n) (shard w1 n))"
    if x: "(n, flat) \<in> set groups" and w1: "same w1" for n flat w1
  proof -
    have flat: "flat = concat (map (\<lambda>(k, v). [k, v]) (filter (\<lambda>(k, v). node_for digest cl k = Inr n) mapping))"
      and ne: "?mine n \<noteq> []"
      using look [of n] map_of_is_SomeI [OF dist x] by (auto split: if_splits)
    obtain p where "p \<in> set (?mine n)" using ne by (meson last_in_set)
    then have "up w n" using r by (auto simp: routes_def)
    moreover have "those (map arg_bytes flat) = Some (concat (map (\<lambda>(b, x). [b, x]) (?mine n)))"
      unfolding flat by (rule mset_group_bytes [OF enc nf])
    moreover have "ok_command (''MSET'' # concat (map (\<lambda>(b, x). [b, x]) (?mine n)))"
      using ok_command_sub [OF cmd] flat_filter [of "\<lambda>(b, x). route digest cl b = n" ps] by blast
    ultimately show ?thesis
      using mset_group_law [of w1 n flat "?mine n"] w1 ne by (auto simp: same_def)
  qed
  obtain w' where w': "gather (\<lambda>(node, flat). rt node (word_arg ''MSET'' # flat)) groups w =
      (Inr (map (\<lambda>_. PyArg (word_arg ''OK'')) groups), w')" "same w'"
    and sh: "\<And>n. shard w' n = (if n \<in> fst ` set groups then put_all (?mine n) (shard w n) else shard w n)"
  proof -
    have "\<exists>w'. gather (\<lambda>(node, flat). rt node (word_arg ''MSET'' # flat)) groups w =
        (Inr (map (\<lambda>_. PyArg (word_arg ''OK'')) groups), w') \<and> same w' \<and>
        (\<forall>n. shard w' n = (if n \<in> fst ` set groups then put_all (?mine n) (shard w n) else shard w n))"
      using dist ok step
      by (intro gather_keyed [where view = shard and upd = "\<lambda>n. put_all (?mine n)" and g = "\<lambda>_ _. PyArg (word_arg ''OK'')"])
        (auto simp: same_def)
    then show ?thesis using that by blast
  qed
  have "cluster_map digest cl (shard w') = put_all ps (cluster_map digest cl (shard w))"
  proof
    fix b
    have "shard w' (route digest cl b) b = put_all (?mine (route digest cl b)) (shard w (route digest cl b)) b"
      using sh [of "route digest cl b"] look [of "route digest cl b"] map_of_eq_None_iff [of groups "route digest cl b"]
      by (auto split: if_splits)
    also have "\<dots> = put_all ps (cluster_map digest cl (shard w)) b"
      by (rule put_all_filter) (simp_all add: cluster_map_def)
    finally show "cluster_map digest cl (shard w') b = put_all ps (cluster_map digest cl (shard w)) b"
      by (simp add: cluster_map_def)
  qed
  with w' show ?thesis by (intro exI [of _ w']) (simp add: cl_mset_def g same_def)
qed

end

end
