(* ===== verification/Server_Steps.thy ===== *)
theory Server_Steps
  imports Server_Record
begin

text \<open>
  The server as a transition system: commands of all its clients, connections that come and go,
  replicas, the background tasks and the rewrite of the log, in any order. The invariant says that the
  store is sound, that the log is a sequence of complete commands at any moment, that the links are in
  step with what was sent, and that the limit on clients holds.
\<close>

section \<open>Logs as lists of commands\<close>

definition command_log :: "bytes \<Rightarrow> bool" where
  "command_log b \<longleftrightarrow> (\<exists>cmds. list_all ok_command cmds \<and> b = log_bytes cmds)"

lemma command_log_Nil [simp]: "command_log []"
  unfolding command_log_def by (intro exI [of _ "[]"]) simp

lemma command_log_one: "ok_command c \<Longrightarrow> command_log (encode_command c)"
  unfolding command_log_def by (intro exI [of _ "[c]"]) simp

lemma command_log_append: "command_log a \<Longrightarrow> command_log b \<Longrightarrow> command_log (a @ b)"
  unfolding command_log_def by (metis list_all_append log_bytes_simps(3))

text \<open>The file of an open log: a prefix of what has been written is on disk, all of it when nothing is dirty.\<close>

definition file_ok :: "aof_log \<Rightarrow> bool" where
  "file_ok l \<longleftrightarrow> prefix (on_disk l) (contents l) \<and> (\<not> dirty l \<longrightarrow> on_disk l = contents l) \<and> \<not> closed l"

lemma fsync_done_all: "prefix (on_disk l) (contents l) \<Longrightarrow> on_disk (fsync_done (contents l) l) = contents l"
  by (auto simp: fsync_done_def prefix_def)

lemma file_ok_ops:
  assumes "file_ok l"
  shows "file_ok (append_bytes raw l)" "file_ok (aof_commit l)" "file_ok (aof_sync l)" "file_ok (rewrite_end p l)"
    "file_ok (rewrite_abort l)" "file_ok (l\<lparr>rewrite_buffer := b\<rparr>)"
proof -
  have disk: "prefix (on_disk l) (contents l)" using assms by (simp add: file_ok_def)
  have frame: "closed (fsync_done c l) = closed l" "contents (fsync_done c l) = contents l" "dirty (fsync_done c l) = dirty l" for c
    by (simp_all add: fsync_done_def)
  show "file_ok (append_bytes raw l)" using assms by (auto simp: file_ok_def append_bytes_def)
  show "file_ok (aof_commit l)"
    using assms fsync_done_all [OF disk] frame
    by (simp add: file_ok_def aof_commit_def commit_begin_def commit_end_def split: option.split)
  have "on_disk (fsync_done (contents l) (l\<lparr>dirty := False\<rparr>)) = contents l"
    using fsync_done_all [of "l\<lparr>dirty := False\<rparr>"] disk by simp
  then show "file_ok (aof_sync l)"
    using assms by (simp add: file_ok_def aof_sync_def sync_begin_def) (simp add: fsync_done_def)
  show "file_ok (rewrite_end p l)" "file_ok (rewrite_abort l)" "file_ok (l\<lparr>rewrite_buffer := b\<rparr>)"
    using assms by (simp_all add: file_ok_def rewrite_end_def rewrite_abort_def Let_def)
qed

text \<open>The invariant of a log; \<open>payload\<close> is what a suspended rewrite has written.\<close>

definition log_inv :: "bytes option \<Rightarrow> aof_log \<Rightarrow> bool" where
  "log_inv payload l \<longleftrightarrow> file_ok l \<and> command_log (contents l) \<and> (rewriting l \<longleftrightarrow> payload \<noteq> None) \<and>
     (case rewrite_buffer l of None \<Rightarrow> True | Some b \<Rightarrow> command_log (concat b)) \<and>
     (case payload of None \<Rightarrow> True | Some p \<Rightarrow> command_log p)"

definition aof_ok :: "bytes option \<Rightarrow> aof_log option \<Rightarrow> bool" where
  "aof_ok payload a = (case a of None \<Rightarrow> payload = None | Some l \<Rightarrow> log_inv payload l)"

lemma aof_ok_simps [simp]: "aof_ok p None \<longleftrightarrow> p = None" "aof_ok p (Some l) = log_inv p l"
  by (simp_all add: aof_ok_def)

lemma log_inv_append: "log_inv p l \<Longrightarrow> ok_command c \<Longrightarrow> log_inv p (append_bytes (encode_command c) l)"
  using file_ok_ops(1) [of l "encode_command c"]
  by (auto simp: log_inv_def rewriting_def) (auto simp: append_bytes_def command_log_append command_log_one split: option.splits)

lemma log_inv_frame:
  "log_inv p l \<Longrightarrow> contents l' = contents l \<Longrightarrow> rewrite_buffer l' = rewrite_buffer l \<Longrightarrow> file_ok l' \<Longrightarrow> log_inv p l'"
  by (simp add: log_inv_def rewriting_def)

lemma log_inv_sync [simp]: "log_inv p l \<Longrightarrow> log_inv p (aof_commit l)" "log_inv p l \<Longrightarrow> log_inv p (aof_sync l)"
proof -
  assume l: "log_inv p l"
  then have ok: "file_ok l" by (simp add: log_inv_def)
  have "contents (aof_commit l) = contents l \<and> rewrite_buffer (aof_commit l) = rewrite_buffer l"
    "contents (aof_sync l) = contents l \<and> rewrite_buffer (aof_sync l) = rewrite_buffer l"
    by (simp_all add: aof_commit_def commit_begin_def commit_end_def aof_sync_def sync_begin_def fsync_done_def)
  with l file_ok_ops(2,3) [OF ok] show "log_inv p (aof_commit l)" "log_inv p (aof_sync l)"
    by (blast intro: log_inv_frame)+
qed

lemma log_inv_logged:
  assumes "list_all record_ok cs" and "\<And>l. a = Some l \<Longrightarrow> log_inv p l" and "logged cs a = Some l'"
  shows "log_inv p l'"
  using assms
proof (induction cs arbitrary: a)
  case (Cons c cs)
  show ?case
  proof (rule Cons.IH [of "logged [c] a"])
    fix l
    assume "logged [c] a = Some l"
    then obtain l0 where "a = Some l0" "l = append_bytes (encode_command (wire_form c)) l0"
      by (auto simp: logged_def)
    with Cons.prems(1,2) show "log_inv p l" by (simp add: log_inv_append record_ok_def)
  qed (use Cons.prems in \<open>simp_all add: logged_Cons [of c cs]\<close>)
qed simp

lemma aof_ok_logged:
  assumes "list_all record_ok cs" and "aof_ok p a"
  shows "aof_ok p (map_option aof_commit (logged cs a))"
proof (cases "logged cs a")
  case (Some l)
  with assms log_inv_logged [OF assms(1), of a p l] show ?thesis by (cases a) simp_all
qed (use assms in simp)

lemma log_inv_rewrite:
  "log_inv (Some p) l \<Longrightarrow> log_inv None (rewrite_end p l)" "log_inv (Some p) l \<Longrightarrow> log_inv None (rewrite_abort l)"
  using file_ok_ops(4,5) [of l]
  by (auto simp: log_inv_def rewriting_def) (auto simp: rewrite_end_def rewrite_abort_def Let_def intro: command_log_append)


section \<open>Links\<close>

definition live_link :: "replica_link \<Rightarrow> bool" where
  "live_link l \<longleftrightarrow> \<not> lclosed l \<and> (\<exists>w. link_inv w l)"

lemma live_link_apply: "live_link l \<Longrightarrow> \<not> lclosed (link_apply e l) \<Longrightarrow> live_link (link_apply e l)"
  unfolding live_link_def using link_inv_step by blast

lemma live_links_drop:
  "list_all live_link ls \<Longrightarrow> list_all live_link (drop_closed (map (link_apply e) ls))"
  by (auto simp: drop_closed_def list_all_iff live_link_apply)

lemma live_links_fed: "list_all live_link ls \<Longrightarrow> list_all live_link (fed cs ls)"
proof (induction cs arbitrary: ls)
  case (Cons c cs)
  have "list_all live_link (drop_closed (map (link_send False (encode_command (wire_form c))) ls))"
    using live_links_drop [OF Cons.prems, of "Hand False (encode_command (wire_form c))"]
    by (simp only: link_apply.simps(1) [abs_def])
  from Cons.IH [OF this] show ?case by (simp add: fed_def)
qed simp

lemma link_send_all_facts:
  "\<not> lclosed l \<Longrightarrow> link_inv w l \<Longrightarrow>
   \<not> lclosed (link_send_all ps l) \<and> link_inv (w @ concat ps) (link_send_all ps l)"
proof (induction ps arbitrary: l w)
  case (Cons p ps)
  have "\<not> lclosed (link_send True p l)" using Cons.prems by (simp add: link_send_def Let_def)
  moreover have "link_inv (w @ p) (link_send True p l)"
    using link_inv_step [OF Cons.prems(2), of "Hand True p"] by simp
  ultimately show ?case using Cons.IH by (fastforce simp: link_send_all_def)
qed (simp add: link_send_all_def)

lemma live_link_new: "live_link (link_send_all ps (link_open n))"
  using link_send_all_facts [OF _ link_open_inv, of n ps] by (auto simp: live_link_def link_open_def)


section \<open>Steps\<close>

inductive server_step :: "server \<Rightarrow> server \<Rightarrow> bool" where
  sv_command: "clock_ok c \<Longrightarrow> command \<noteq> [] \<Longrightarrow> ok_command command \<Longrightarrow>
    handle_command c authed command s = (a, authed', s') \<Longrightarrow> server_step s s'"
| sv_accept: "server_step s (snd (accept_client s))"
| sv_leave: "0 < client_count s \<Longrightarrow> server_step s (leave_client s)"
| sv_serve_replica: "replica_of s = None \<Longrightarrow> server_step s (snd (serve_replica c s))"
| sv_link: "i < length (replicas s) \<Longrightarrow> e \<in> {Pump, Drained, Close} \<Longrightarrow>
    server_step s (s\<lparr>replicas := drop_closed ((replicas s)[i := link_apply e (replicas s ! i)])\<rparr>)"
| sv_stream: "replica_of s \<noteq> None \<Longrightarrow>
    server_step s (s\<lparr>sstore := snd (stream_loop clk r 0 (sstore s)), link_up := up\<rparr>)"
| sv_sweep: "server_step s (sweep_once c s)"
| sv_heartbeat: "server_step s (snd (heartbeat s))"
| sv_aof_turn: "server_step s (aof_turn s)"
| sv_rewrite_begin: "rewrite_running s \<Longrightarrow> rewrite_payload s = None \<Longrightarrow> deadlines_ok c (sstore s) \<Longrightarrow>
    server_step s (rewrite_task_begin c s)"
| sv_rewrite_end: "server_step s (rewrite_task_end s)"
| sv_rewrite_fail: "server_step s (rewrite_task_fail s)"

text \<open>A server starts with an empty log, a complete one, or one whose last record was cut off by a crash.\<close>

definition crash_log :: "bytes \<Rightarrow> bool" where
  "crash_log raw \<longleftrightarrow>
     (\<exists>cmds p s c. list_all ok_command cmds \<and> raw = log_bytes cmds @ p \<and>
        (p = [] \<or> ok_command c \<and> encode_command c = p @ s \<and> s \<noteq> []))"

inductive server_reachable :: "server \<Rightarrow> bool" where
  sv_start: "server_init rep fs pass mauth mm pol maxcl outlim msz pct = Inr s0 \<Longrightarrow>
    (\<And>raw. existing = Some raw \<Longrightarrow> crash_log raw) \<Longrightarrow> load_aof clk existing fs s0 = Inr s \<Longrightarrow> server_reachable s"
| sv_next: "server_reachable s \<Longrightarrow> server_step s s' \<Longrightarrow> server_reachable s'"

definition server_inv :: "server \<Rightarrow> bool" where
  "server_inv s \<longleftrightarrow> wire_inv (sstore s) \<and> list_all live_link (replicas s) \<and>
     (0 < maxclients s \<longrightarrow> int (client_count s) \<le> maxclients s) \<and>
     aof_ok (rewrite_payload s) (aof s) \<and>
     (replica_of s \<noteq> None \<longrightarrow> aof s = None)"


section \<open>Every step keeps the invariant\<close>

lemma server_inv_store: "server_inv s \<Longrightarrow> wire_inv st \<Longrightarrow> server_inv (s\<lparr>sstore := st\<rparr>)"
  by (simp add: server_inv_def)

lemma server_inv_replicas: "server_inv s \<Longrightarrow> list_all live_link ls \<Longrightarrow> server_inv (s\<lparr>replicas := ls\<rparr>)"
  by (simp add: server_inv_def)

lemma server_inv_counted: "server_inv (counted s) = server_inv s"
  by (simp add: server_inv_def)

lemma wire_dispatch:
  "wire_inv st \<Longrightarrow> ok_command command \<Longrightarrow> wire_inv (snd (dispatch c (map Bytes command) st))"
  by (rule wire.I_dispatch) (auto simp: ok_command_def list_all_iff wire_arg_def)

lemma wire_inv_drained: "wire_inv st \<Longrightarrow> wire_inv (st\<lparr>evicted := []\<rparr>)"
  using wire.I_drain [of st] by simp

lemma server_inv_execute:
  assumes "server_inv s" and "clock_ok c" and "command \<noteq> []" and "ok_command command"
    and "execute c command s = (a, s')"
  shows "server_inv s'"
proof -
  note w = assms(1) [unfolded server_inv_def, THEN conjunct1]
  obtain r st1 where d: "dispatch c (map Bytes command) (sstore s) = (r, st1)" by (cases "dispatch c (map Bytes command) (sstore s)")
  have st1: "wire_inv st1" using wire_dispatch [OF w assms(4), of c] d by simp
  show ?thesis
  proof (cases "\<not> failed r \<and> is_write_command (server_name command)")
    case False
    then have "s' = s\<lparr>sstore := st1\<rparr>"
      using assms(5) d by (auto simp: execute_def Let_def failed_is_error split: sum.splits)
    with server_inv_store [OF assms(1) st1] show ?thesis by simp
  next
    case True
    let ?ch = "server_name command \<noteq> ascii_str ''SET'' \<or> writes st1 \<noteq> writes (sstore s)"
    let ?dels = "map del_command (evicted st1)"
    have dels: "list_all record_ok ?dels"
      using st1 by (auto simp: wire_inv_def wire_evicted_def list_all_iff record_ok_del)
    from True obtain reply cs where cs: "list_all record_ok cs" and run: "execute c command s =
      (Send reply, s\<lparr>sstore := st1\<lparr>evicted := []\<rparr>,
         aof := map_option aof_commit (logged ((if ?ch then cs else []) @ ?dels) (aof s)),
         replicas := fed ((if ?ch then [to_replication_command (map Bytes command)] else []) @ ?dels) (replicas s)\<rparr>)"
      using execute_write [OF w assms(2-4) _ d _ refl refl] by blast
    have recs: "list_all record_ok ((if ?ch then cs else []) @ ?dels)" using cs dels by simp
    show ?thesis
      using run assms(1,5) wire_inv_drained [OF st1] live_links_fed aof_ok_logged [OF recs]
      by (auto simp: server_inv_def)
  qed
qed

lemma server_inv_command:
  assumes "server_inv s" and "clock_ok c" and "command \<noteq> []" and "ok_command command"
    and "handle_command c authed command s = (a, authed', s')"
  shows "server_inv s'"
  using assms(5)
proof (cases rule: handle_command_cases)
  case (info body)
  then have "s' = (counted s)\<lparr>sstore := snd (store_len (mono c) (sstore s))\<rparr>"
    by (auto simp: build_info_def info_lines_def Let_def split: prod.splits)
  moreover have "wire_inv (snd (store_len (mono c) (sstore s)))"
    using assms(1) by (simp add: server_inv_def wire.I_readers)
  ultimately show ?thesis using server_inv_store [of "counted s"] assms(1) by (simp add: server_inv_counted)
next
  case run
  with server_inv_execute [of "counted s"] assms(1-4) show ?thesis by (simp add: server_inv_counted)
qed (use assms(1) in \<open>auto simp: server_inv_def start_rewrite_def\<close>)

lemma server_inv_serve_replica: "server_inv s \<Longrightarrow> server_inv (snd (serve_replica c s))"
proof -
  assume inv: "server_inv s"
  then have "wire_inv (snd (build_snapshot_commands c (sstore s)))"
    by (simp add: server_inv_def build_snapshot_commands_def case_prod_beta wire.I_readers)
  with inv live_link_new show ?thesis
    by (auto simp: server_inv_def serve_replica_def split: prod.splits sum.splits)
qed

lemma server_inv_link:
  assumes "server_inv s" and "i < length (replicas s)"
  shows "server_inv (s\<lparr>replicas := drop_closed ((replicas s)[i := link_apply e (replicas s ! i)])\<rparr>)"
proof (rule server_inv_replicas [OF assms(1)])
  have all: "list_all live_link (replicas s)" using assms(1) by (simp add: server_inv_def)
  have "live_link x" if "x \<in> set ((replicas s)[i := link_apply e (replicas s ! i)])" "\<not> lclosed x" for x
  proof (cases "x \<in> set (replicas s)")
    case False
    with that(1) have "x = link_apply e (replicas s ! i)"
      using set_update_subset_insert [of "replicas s" i] by blast
    with all assms(2) that(2) live_link_apply show ?thesis by (auto simp: list_all_iff)
  qed (use all in \<open>simp add: list_all_iff\<close>)
  then show "list_all live_link (drop_closed ((replicas s)[i := link_apply e (replicas s ! i)]))"
    by (auto simp: drop_closed_def list_all_iff)
qed

lemma rewrite_log_ok:
  assumes "wire_inv st" and "deadlines_ok c st"
  shows "command_log (log_bytes (rewrite_log c st))"
proof -
  have "list_all ok_command (rewrite_log c st)"
    using items_ok [OF wire_invD(1,2) [OF assms(1)] assms(2)] unix_ms.ok_item_commands
    by (force simp: rewrite_log_def list_all_iff)
  then show ?thesis unfolding command_log_def by blast
qed

lemma server_inv_rewrite_begin:
  assumes "server_inv s" and "rewrite_payload s = None" and "deadlines_ok c (sstore s)"
  shows "server_inv (rewrite_task_begin c s)"
proof (cases "aof s")
  case (Some l)
  have w: "wire_inv (sstore s)" and l: "log_inv None l" using assms(1,2) Some by (simp_all add: server_inv_def)
  then have "\<not> rewriting l" by (simp add: log_inv_def)
  note start = rewrite_begin_run [OF wire_invD(1,2) [OF w] this, of c]
  have "wire_inv (snd (rewrite_begin c (sstore s) l))"
    using w by (simp add: rewrite_begin_def build_rewrite_commands_def case_prod_beta wire.I_readers split: sum.split)
  moreover have "log_inv (Some (log_bytes (rewrite_log c (sstore s)))) (l\<lparr>rewrite_buffer := Some []\<rparr>)"
    using l rewrite_log_ok [OF w assms(3)] file_ok_ops(6) [of l "Some []"] by (simp add: log_inv_def rewriting_def)
  ultimately show ?thesis
    using assms(1) Some start
    by (cases "rewrite_begin c (sstore s) l") (simp add: server_inv_def rewrite_task_begin_def)
qed (use assms(1) in \<open>simp add: rewrite_task_begin_def\<close>)

lemma server_inv_rewrite_done:
  assumes "server_inv s"
  shows "server_inv (rewrite_task_end s)" "server_inv (rewrite_task_fail s)"
  using assms log_inv_rewrite
  by (auto simp: server_inv_def rewrite_task_end_def rewrite_task_fail_def Let_def split: option.splits)

lemma server_inv_background:
  assumes "server_inv s"
  shows "server_inv (sweep_once c s)" "server_inv (snd (heartbeat s))" "server_inv (aof_turn s)"
    "server_inv (snd (accept_client s))" "server_inv (leave_client s)"
proof -
  show "server_inv (sweep_once c s)"
    unfolding sweep_once_def using assms by (intro server_inv_store) (simp_all add: server_inv_def wire.I_sweep)
  have "record_ok [word_arg ''PING'']" by (simp add: record_ok_Cons)
  with assms show "server_inv (snd (heartbeat s))"
    by (simp add: heartbeat_def propagate_run server_inv_replicas live_links_fed server_inv_def)
  show "server_inv (aof_turn s)"
    using assms by (auto simp: server_inv_def aof_turn_def start_rewrite_def Let_def split: option.splits)
  show "server_inv (snd (accept_client s))" "server_inv (leave_client s)"
    using assms by (auto simp: server_inv_def accept_client_def leave_client_def Let_def)
qed

lemma server_inv_stream: "server_inv s \<Longrightarrow> server_inv (s\<lparr>sstore := snd (stream_loop clk r n (sstore s)), link_up := up\<rparr>)"
  using wire_wire.I_stream [of "sstore s" clk r n] by (simp add: server_inv_def)

lemma server_step_inv: "server_step s s' \<Longrightarrow> server_inv s \<Longrightarrow> server_inv s'"
  by (induction rule: server_step.induct)
    (simp_all add: server_inv_command server_inv_serve_replica server_inv_link server_inv_rewrite_begin
      server_inv_rewrite_done server_inv_background server_inv_stream)


section \<open>Start-up\<close>

lemma run_commands_wire:
  "list_all ok_command cmds \<Longrightarrow> wire_inv st \<Longrightarrow> run_commands clk n cmds st = Inr (n', st') \<Longrightarrow> wire_inv st'"
proof (induction cmds arbitrary: n st)
  case (Cons cmd cmds)
  then show ?case
    using wire_dispatch [of st cmd "clk n"]
    by (auto split: if_splits prod.splits sum.splits)
qed simp

lemma load_aof_crash:
  assumes "crash_log raw" and "wire_inv (sstore s)" and "replica_of s = None"
    and "load_aof clk (Some raw) fs s = Inr s'"
  shows "\<exists>st' l. s' = s\<lparr>sstore := st', aof := Some l, aof_base_size := aof_size l\<rparr> \<and> wire_inv st' \<and> log_inv None l"
proof -
  obtain l where l: "aof_open raw fs = Inr l" using assms(3,4) by (auto simp: load_aof_def split: sum.splits)
  then have lf: "contents l = raw" "rewrite_buffer l = None" "on_disk l = raw" "\<not> dirty l" "\<not> closed l" by (auto simp: aof_open_def split: if_splits)
  obtain cmds p q c where log: "list_all ok_command cmds" "raw = log_bytes cmds @ p"
    "p = [] \<or> ok_command c \<and> encode_command c = p @ q \<and> q \<noteq> []"
    using assms(1) unfolding crash_log_def by blast
  have ok: "log_inv None (l\<lparr>contents := log_bytes cmds, on_disk := take (length (log_bytes cmds)) (on_disk l)\<rparr>)"
    using lf log(1,2) by (auto simp: log_inv_def rewriting_def command_log_def file_ok_def)
  obtain m corrupt l1 st1 where rep: "replay clk l (sstore s) = Inr (m, corrupt, l1, st1)"
    and s': "s' = s\<lparr>sstore := st1, aof := Some l1, aof_base_size := aof_size l1\<rparr>"
    using assms(3,4) l by (auto simp: load_aof_def split: sum.splits)
  have "wire_inv st1 \<and> log_inv None l1"
  proof (cases "raw = []")
    case True
    with rep lf assms(2) show ?thesis by (auto simp: replay_def log_inv_def rewriting_def file_ok_def)
  next
    case False
    obtain n st' where run: "run_commands clk 0 cmds (sstore s) = Inr (n, st')"
      using rep lf(1) log False replay_loop_commands [OF log(1), of clk p 0 0 "sstore s"]
      by (fastforce simp: replay_def split: sum.splits)
    note w = wire_inv_drained [OF run_commands_wire [OF log(1) assms(2) run]]
    show ?thesis
    proof (cases "p = []")
      case True
      with False log(2) have "cmds \<noteq> []" by auto
      with replay_intact [OF log(1) _ run] True lf log rep w show ?thesis
        by (auto simp: log_inv_def rewriting_def command_log_def file_ok_def)
    next
      case p: False
      with log(3) have c: "ok_command c" "encode_command c = p @ q" "q \<noteq> []" by auto
      from replay_torn [OF log(1) c(1,2) p c(3) _ run] lf log(2) rep w ok show ?thesis by auto
    qed
  qed
  with s' show ?thesis by blast
qed

lemma server_init_inv:
  "server_init rep fs pass mauth mm pol maxcl outlim msz pct = Inr s \<Longrightarrow> server_inv s \<and> replica_of s = rep \<and> rewrite_payload s = None"
  by (auto simp: server_init_def server_inv_def store_init_def wire_inv_fresh split: if_splits sum.splits)

lemma server_reachable_inv: "server_reachable s \<Longrightarrow> server_inv s"
proof (induction rule: server_reachable.induct)
  case (sv_start rep fs pass mauth mm pol maxcl outlim msz pct s0 existing clk s)
  note init = server_init_inv [OF sv_start(1)]
  show ?case
  proof (cases "existing = None \<or> replica_of s0 \<noteq> None")
    case True
    with sv_start(3) init show ?thesis by (auto simp: load_aof_def split: option.splits)
  next
    case False
    then obtain raw where raw: "existing = Some raw" "replica_of s0 = None" by (cases existing; cases "replica_of s0") auto
    have "wire_inv (sstore s0)" using init by (simp add: server_inv_def)
    from load_aof_crash [OF sv_start(2) [OF raw(1)] this raw(2) sv_start(3) [unfolded raw(1)]] init raw(2)
    show ?thesis by (auto simp: server_inv_def)
  qed
qed (rule server_step_inv)

end
