(* ===== verification/Plain_Map.thy ===== *)
theory Plain_Map
  imports Server_Steps
begin

text \<open>
  The abstract specification of the cache without deadlines and without eviction: a map from keys to
  values. \<open>holds m st\<close> relates it to a store; a command whose effect on the map does not depend on the
  store that implements it, nor on the clock, is \<open>determined\<close>. Replaying such commands elsewhere, later,
  gives the same map, which is what the log and the replication stream rely on.
\<close>

section \<open>Stores as maps\<close>

definition undated :: "store \<Rightarrow> bool" where
  "undated st = list_all (\<lambda>(k, e). expire_at e = None) (data st)"

definition holds :: "(arg \<rightharpoonup> arg) \<Rightarrow> store \<Rightarrow> bool" where
  "holds m st \<longleftrightarrow> cmd_inv st \<and> no_evict st \<and> undated st \<and>
     (\<forall>k. map_option val (od_get (data st) k) = map_option PyArg (m k))"

lemma holdsD: "holds m st \<Longrightarrow> cmd_inv st" "holds m st \<Longrightarrow> no_evict st" "holds m st \<Longrightarrow> undated st"
  by (simp_all add: holds_def)

lemma undated_get: "undated st \<Longrightarrow> od_get (data st) k = Some e \<Longrightarrow> expire_at e = None"
  by (auto simp: undated_def list_all_iff od_get_def dest!: map_of_SomeD)

lemma undated_mono: "undated st \<Longrightarrow> set (data st') \<subseteq> set (data st) \<Longrightarrow> undated st'"
  by (auto simp: undated_def list_all_iff)

lemma undated_live: "undated st \<Longrightarrow> live t st k = map_option (\<lambda>e. (val e, None)) (od_get (data st) k)"
  using undated_get [of st k] by (auto simp: live_def is_expired_def split: option.splits)

text \<open>What a client sees of a store that holds a map: exactly the map, at any time.\<close>

lemma holds_live: "holds m st \<Longrightarrow> live t st = (\<lambda>k. map_option (\<lambda>a. (PyArg a, None)) (m k))"
proof
  fix k
  assume h: "holds m st"
  then have "map_option val (od_get (data st) k) = map_option PyArg (m k)" by (simp add: holds_def)
  then have "map_option (\<lambda>v. (v, None)) (map_option val (od_get (data st) k)) =
      map_option (\<lambda>v. (v, None)) (map_option PyArg (m k))" by simp
  then show "live t st k = map_option (\<lambda>a. (PyArg a, None)) (m k)"
    by (simp add: undated_live [OF holdsD(3) [OF h]] option.map_comp comp_def)
qed

text \<open>A store holds a map when it is undated and shows the map at one time.\<close>

lemma holdsI:
  assumes "cmd_inv st" and "no_evict st" and "undated st"
    and "live t st = (\<lambda>k. map_option (\<lambda>a. (PyArg a, None)) (m k))"
  shows "holds m st"
proof -
  have "map_option val (od_get (data st) k) = map_option PyArg (m k)" for k
    using fun_cong [OF assms(4), of k] undated_live [OF assms(3), of t k]
    by (cases "od_get (data st) k"; cases "m k") auto
  with assms show ?thesis by (simp add: holds_def)
qed

lemma holds_fresh: "holds Map.empty (fresh_store 0 pol)"
proof (rule holdsI [where t = 0])
  show "cmd_inv (fresh_store 0 pol)" by (rule cmd_inv_fresh)
qed (simp_all add: no_evict_def undated_def live_def fresh_store_def od_get_def fun_eq_iff)

lemma holds_unique: "holds m st \<Longrightarrow> holds m' st \<Longrightarrow> m = m'"
proof
  fix k
  assume "holds m st" "holds m' st"
  then have "map_option PyArg (m k) = map_option PyArg (m' k)" unfolding holds_def by (metis (no_types))
  then show "m k = m' k" by (cases "m k"; cases "m' k") simp_all
qed


section \<open>Operations on maps\<close>

lemma undated_lookup_live: "undated st \<Longrightarrow> lookup_live now k st = (od_get (data st) k, st)"
  using undated_get [of st k] by (auto simp: lookup_live_def is_expired_def split: option.splits)

lemma undated_sweep: "store_inv st \<Longrightarrow> undated st \<Longrightarrow> undated (snd (sweep_expired now st))"
  by (rule undated_mono) (auto simp: sweep_expired_facts)

lemma undated_fields [simp]: "undated (st\<lparr>writes := n\<rparr>) = undated st" "undated (st\<lparr>hits := n\<rparr>) = undated st"
  "undated (st\<lparr>misses := n\<rparr>) = undated st" "undated (st\<lparr>evicted := ev\<rparr>) = undated st" "undated (store_flush st)"
  "undated (fresh_store mm pol)"
  by (simp_all add: undated_def store_flush_def fresh_store_def)

lemma no_evict_fields [simp]: "no_evict (st\<lparr>writes := n\<rparr>) = no_evict st" "no_evict (st\<lparr>hits := n\<rparr>) = no_evict st"
  "no_evict (st\<lparr>misses := n\<rparr>) = no_evict st" "no_evict (st\<lparr>evicted := ev\<rparr>) = no_evict st"
  "no_evict (put k e st) = no_evict st" "no_evict (overwrite k e v st) = no_evict st"
  by (simp_all add: no_evict_def)

lemma undated_put: "undated st \<Longrightarrow> expire_at e = None \<Longrightarrow> undated (put k e st)"
  using set_od_set [of k "e\<lparr>esize := cost k (val e)\<rparr>" "data st"] set_to_end
  by (auto simp: undated_def list_all_iff put_def Let_def) fastforce

lemma undated_overwrite: "undated st \<Longrightarrow> expire_at e = None \<Longrightarrow> undated (overwrite k e v st)"
  using set_od_set [of k "e\<lparr>val := v, esize := cost k v\<rparr>" "move_to_end k (data st)"] set_to_end [of k "data st"]
  by (fastforce simp: undated_def list_all_iff overwrite_def Let_def)

text \<open>\<open>effect f m r m'\<close>: on every store that holds \<open>m\<close>, at every clock, \<open>f\<close> returns \<open>r\<close> and leaves \<open>m'\<close>.\<close>

definition effect :: "(clock \<Rightarrow> store \<Rightarrow> 'r \<times> store) \<Rightarrow> (arg \<rightharpoonup> arg) \<Rightarrow> 'r \<Rightarrow> (arg \<rightharpoonup> arg) \<Rightarrow> bool" where
  "effect f m r m' \<longleftrightarrow> (\<forall>c st. holds m st \<longrightarrow> fst (f c st) = r \<and> holds m' (snd (f c st)))"

definition determined :: "(clock \<Rightarrow> store \<Rightarrow> 'r \<times> store) \<Rightarrow> (arg \<rightharpoonup> arg) \<Rightarrow> bool" where
  "determined f m \<longleftrightarrow> (\<exists>r m'. effect f m r m')"

lemma effectI:
  "(\<And>c st. holds m st \<Longrightarrow> fst (f c st) = r) \<Longrightarrow> (\<And>c st. holds m st \<Longrightarrow> holds m' (snd (f c st))) \<Longrightarrow> effect f m r m'"
  by (simp add: effect_def)

lemma effectD: "effect f m r m' \<Longrightarrow> holds m st \<Longrightarrow> fst (f c st) = r" "effect f m r m' \<Longrightarrow> holds m st \<Longrightarrow> holds m' (snd (f c st))"
  by (simp_all add: effect_def)

lemma determinedI: "effect f m r m' \<Longrightarrow> determined f m"
  by (auto simp: determined_def)

lemma holds_set:
  assumes "holds m st"
  shows "holds (m(k \<mapsto> a)) (store_set now now' k (PyArg a) None st)"
proof (rule holdsI [where t = 0])
  let ?st = "store_set now now' k (PyArg a) None st"
  have eq: "?st = put k \<lparr>val = PyArg a, expire_at = None, esize = 0\<rparr> (st\<lparr>writes := Suc (writes st)\<rparr>)"
    using evict_no_evict holdsD(2) [OF assms] by (simp add: store_set_def Let_def)
  show "cmd_inv ?st" using holdsD(1) [OF assms] by (simp add: inv_intros)
  show "no_evict ?st" "undated ?st" using holdsD [OF assms] by (simp_all add: eq undated_put)
  show "live 0 ?st = (\<lambda>k'. map_option (\<lambda>a. (PyArg a, None)) ((m(k \<mapsto> a)) k'))"
    using holds_live [OF assms] by (auto simp: live_set_no_evict [OF holdsD(2) [OF assms]])
qed

lemma effect_get: "effect (\<lambda>c. store_get (mono c) k) m (case m k of None \<Rightarrow> PyNone | Some a \<Rightarrow> PyArg a) m"
proof (rule effectI)
  fix c st
  assume h: "holds m st"
  then show "fst (store_get (mono c) k st) = (case m k of None \<Rightarrow> PyNone | Some a \<Rightarrow> PyArg a)"
    using holds_live [OF h, of "mono c"] by (simp add: store_get_refines split: option.split)
  have "undated (snd (store_get (mono c) k st))"
    using h set_to_end [of k "data st"]
    by (auto simp: store_get_def undated_lookup_live holds_def undated_def list_all_iff split: option.splits)
  moreover have "no_evict (snd (store_get (mono c) k st))"
    using h by (auto simp: store_get_def undated_lookup_live holds_def no_evict_def split: option.splits)
  ultimately show "holds m (snd (store_get (mono c) k st))"
    using h holds_live [OF h, of "mono c"]
    by (intro holdsI [where t = "mono c"]) (simp_all add: holdsD inv_intros store_get_refines)
qed

lemma effect_delete: "effect (\<lambda>c. store_delete (mono c) k) m (m k \<noteq> None) (m(k := None))"
proof (rule effectI)
  fix c st
  assume h: "holds m st"
  then show "fst (store_delete (mono c) k st) = (m k \<noteq> None)"
    using holds_live [OF h, of "mono c"] by (simp add: store_delete_refines)
  have "undated (snd (store_delete (mono c) k st))"
    using h set_od_pop [of k "data st"]
    by (auto simp: store_delete_def store_remove_def holds_def undated_def list_all_iff split: option.splits)
  moreover have "no_evict (snd (store_delete (mono c) k st))"
    using h by (auto simp: store_delete_def store_remove_def holds_def no_evict_def split: option.splits)
  ultimately show "holds (m(k := None)) (snd (store_delete (mono c) k st))"
    using h holds_live [OF h, of "mono c"]
    by (intro holdsI [where t = "mono c"]) (auto simp: holdsD inv_intros store_delete_refines)
qed

lemma effect_persist: "effect (\<lambda>c. store_persist (mono c) k) m False m"
  by (rule effectI)
    (auto simp: store_persist_def undated_lookup_live holdsD dest: undated_get [OF holdsD(3)] split: option.splits)

lemma effect_flush: "effect (\<lambda>c st. ((), store_flush st)) m () Map.empty"
proof (rule effectI)
  fix c :: clock and st
  assume h: "holds m st"
  show "holds Map.empty (snd ((), store_flush st))"
    using h by (intro holdsI [where t = 0]) (simp_all add: holdsD inv_intros store_flush_refines no_evict_flush)
qed simp

text \<open>A counter: the number found, the number left.\<close>

definition map_counter :: "arg \<Rightarrow> int \<Rightarrow> (arg \<rightharpoonup> arg) \<Rightarrow> (string + int) \<times> (arg \<rightharpoonup> arg)" where
  "map_counter k delta m =
     (case (case m k of None \<Rightarrow> Inr 0 | Some a \<Rightarrow> stored_int (PyArg a)) of
        Inl msg \<Rightarrow> (Inl msg, m)
      | Inr n \<Rightarrow>
          if \<not> (INT64_MIN \<le> n + delta \<and> n + delta \<le> INT64_MAX) then (Inl overflow_msg, m)
          else (Inr (n + delta),
                m(k \<mapsto> (case (case m k of None \<Rightarrow> k | Some a \<Rightarrow> a) of
                           Bytes _ \<Rightarrow> Bytes (str_int (n + delta))
                         | Str _ \<Rightarrow> Str (ascii_str (str_int (n + delta)))))))"

lemma effect_incr:
  "effect (\<lambda>c. store_incr (mono c) (mono c) k delta) m (fst (map_counter k delta m)) (snd (map_counter k delta m))"
proof (rule effectI)
  fix c st
  assume h: "holds m st"
  let ?r = "store_incr (mono c) (mono c) k delta st"
  note look = undated_lookup_live [OF holdsD(3) [OF h], of "mono c" k]
  have val: "map_option val (od_get (data st) k) = map_option PyArg (m k)" using h by (simp add: holds_def)
  show res: "fst ?r = fst (map_counter k delta m)"
    using val
    by (cases "od_get (data st) k"; cases "m k")
      (auto simp: store_incr_def look map_counter_def Let_def split: sum.splits)
  have keep: "cmd_inv (snd ?r)" using holdsD(1) [OF h] by (simp add: inv_intros)
  have ne: "evict now st' = st'" if "no_evict st'" for now st' using evict_no_evict [OF that] .
  have plain: "no_evict (snd ?r) \<and> undated (snd ?r)"
    using holdsD(2,3) [OF h]
    by (auto simp: store_incr_def look Let_def ne undated_put undated_overwrite undated_get split: sum.splits option.splits)
  have view: "live 0 (snd ?r) = (\<lambda>k'. map_option (\<lambda>a. (PyArg a, None)) (snd (map_counter k delta m) k'))"
    using val holds_live [OF h, of 0] holdsD(2) [OF h] undated_get [OF holdsD(3) [OF h], of k]
    by (cases "od_get (data st) k"; cases "m k")
      (auto simp: store_incr_def look map_counter_def Let_def ne live_put overwrite_facts(2) is_bytes_def fun_eq_iff
        split: sum.splits arg.splits)
  from holdsI [OF keep _ _ view] plain show "holds (snd (map_counter k delta m)) (snd ?r)" by simp
qed


section \<open>Commands on maps\<close>

lemma effect_map:
  "effect f m r m' \<Longrightarrow> effect (\<lambda>c st. map_prod g id (f c st)) m (g r) m'"
  by (simp add: effect_def)

lemma effect_const: "effect (\<lambda>c st. (r, st)) m r m"
  by (simp add: effect_def)

lemma determined_guarded:
  "(\<And>x. x0 = Inr x \<Longrightarrow> determined (\<lambda>c. f c x) m) \<Longrightarrow> determined (\<lambda>c. guarded x0 (f c)) m"
  by (cases x0) (auto simp: determined_def effect_def)

lemma effect_count_loop:
  assumes "\<And>k m. \<exists>r m'. effect (\<lambda>c. f c k) m r m'"
  shows "\<exists>r m'. effect (\<lambda>c. count_loop (f c) ks) m r m'"
proof (induction ks arbitrary: m)
  case (Cons k ks)
  obtain r1 m1 where 1: "effect (\<lambda>c. f c k) m r1 m1" using assms by blast
  obtain r2 m2 where 2: "effect (\<lambda>c. count_loop (f c) ks) m1 r2 m2" using Cons.IH by blast
  from 1 2 have "effect (\<lambda>c. count_loop (f c) (k # ks)) m ((if r1 then 1 else 0) + r2) m2"
    unfolding effect_def count_loop_Cons by simp
  then show ?case by blast
next
  case Nil
  have "effect (\<lambda>c. count_loop (f c) []) m 0 m" by (simp add: effect_def)
  then show ?case by blast
qed

lemma effect_lookup: "effect (\<lambda>c. lookup c k) m (case m k of None \<Rightarrow> PyNone | Some a \<Rightarrow> PyArg a) m"
proof (rule effectI)
  fix c st
  assume h: "holds m st"
  show "fst (lookup c k st) = (case m k of None \<Rightarrow> PyNone | Some a \<Rightarrow> PyArg a)"
    using effectD(1) [OF effect_get h, where c = c] by (simp add: lookup_def case_prod_beta)
  have "undated (snd (lookup c k st))" "no_evict (snd (lookup c k st))"
    using effectD(2) [OF effect_get h, where c = c] by (auto simp: lookup_def case_prod_beta dest: holdsD)
  with h holds_live [OF h, of "mono c"] show "holds m (snd (lookup c k st))"
    by (intro holdsI [where t = "mono c"]) (simp_all add: holdsD inv_intros lookup_simps_cmd)
qed

lemma holds_mset_loop: "holds m st \<Longrightarrow> holds (fold (\<lambda>(k, v) m. m(k \<mapsto> v)) (arg_pairs args) m) (mset_loop c args st)"
  by (induction c args st arbitrary: m rule: mset_loop.induct) (simp_all add: holds_set)

text \<open>SET without a deadline.\<close>

definition map_set :: "set_options \<Rightarrow> (arg \<rightharpoonup> arg) \<Rightarrow> arg \<rightharpoonup> arg" where
  "map_set opts m =
     (if nx opts \<and> m (okey opts) \<noteq> None \<or> xx opts \<and> m (okey opts) = None then m else m(okey opts \<mapsto> oval opts))"

lemma holds_set_probe: "holds m st \<Longrightarrow> holds m (set_probe now opts st)"
  using effectD(2) [OF effect_get, where c = "\<lparr>mono = now, wall = 0\<rparr>" and m = m]
  by (simp add: set_probe_def Let_def store_exists_def)

lemma set_blocked_holds:
  "holds m st \<Longrightarrow> set_blocked now opts st \<longleftrightarrow>
     nx opts \<and> m (okey opts) \<noteq> None \<or> xx opts \<and> m (okey opts) = None"
  by (auto simp: set_blocked_def holds_live)

lemma determined_set:
  assumes "\<And>opts. parse_set args = Inr opts \<Longrightarrow> ottl opts = None"
  shows "determined (\<lambda>c. cmd_set c args) m"
proof (cases "parse_set args")
  case (Inl e)
  then have "determined (\<lambda>c. guarded (require_min args 2) (\<lambda>_. guarded (parse_set args) (g c))) m" for g
    by (intro determined_guarded) simp
  then show ?thesis by (simp add: cmd_set_def)
next
  case (Inr opts)
  let ?old = "if oget opts then (case m (okey opts) of None \<Rightarrow> PyNone | Some a \<Rightarrow> PyArg a) else PyNone"
  let ?blocked = "nx opts \<and> m (okey opts) \<noteq> None \<or> xx opts \<and> m (okey opts) = None"
  have "effect (\<lambda>c. cmd_set c args) m (Inr (if ?blocked then ?old else if oget opts then ?old else OK)) (map_set opts m)"
  proof (rule effectI)
    fix c :: clock and st
    assume h: "holds m st"
    note run = cmd_set_run [OF holdsD(1) [OF h] Inr, of c, unfolded Let_def set_blocked_holds [OF h] assms [OF Inr]]
    have old: "reply_of (live (mono c) st (okey opts)) = (case m (okey opts) of None \<Rightarrow> PyNone | Some a \<Rightarrow> PyArg a)"
      by (simp add: holds_live [OF h] reply_of_def split: option.split)
    show "fst (cmd_set c args st) = Inr (if ?blocked then ?old else if oget opts then ?old else OK)"
      by (auto simp: run old)
    show "holds (map_set opts m) (snd (cmd_set c args st))"
      using holds_set [OF holds_set_probe [OF h]] holds_set_probe [OF h] by (auto simp: run map_set_def)
  qed
  then show ?thesis by (rule determinedI)
qed

text \<open>The commands that set no deadline.\<close>

definition deadline_free :: "arg list \<Rightarrow> bool" where
  "deadline_free command \<longleftrightarrow>
     (let name = str_upper (to_text (hd command))
      in name \<noteq> ascii_str ''EXPIRE'' \<and> name \<noteq> ascii_str ''PEXPIRE'' \<and> name \<noteq> ascii_str ''PEXPIREAT'' \<and>
         (name = ascii_str ''SET'' \<longrightarrow>
            (case parse_set (tl command) of Inl _ \<Rightarrow> True | Inr opts \<Rightarrow> ottl opts = None)))"

lemma determined_incr_by: "determined (\<lambda>c. incr_by c k n) m"
  unfolding incr_by_def by (rule determinedI [OF effect_map [OF effect_incr]])

lemma determined_returning: "effect (\<lambda>c. f c) m r m' \<Longrightarrow> determined (\<lambda>c st. returning g (f c st)) m"
  by (auto simp: determined_def effect_def)

lemma determined_writes:
  "determined (\<lambda>c. cmd_mset c args) m" "determined (\<lambda>c. cmd_del c args) m" "determined (\<lambda>c. cmd_incr c args) m"
  "determined (\<lambda>c. cmd_decr c args) m" "determined (\<lambda>c. cmd_incrby c args) m" "determined (\<lambda>c. cmd_decrby c args) m"
  "determined (\<lambda>c. cmd_persist c args) m" "determined (\<lambda>c. cmd_flushdb c args) m"
proof -
  have "determined (\<lambda>c st. if odd (length args) then (Inl WrongArity, st) else (Inr OK, mset_loop c args st)) m"
    by (cases "odd (length args)") (auto intro!: determinedI effectI holds_mset_loop)
  then show "determined (\<lambda>c. cmd_mset c args) m"
    unfolding cmd_mset_def by (intro determined_guarded)
  obtain r m' where "effect (\<lambda>c. count_loop (store_delete (mono c)) args) m r m'"
    using effect_count_loop [of "\<lambda>c. store_delete (mono c)"] effect_delete by blast
  from determined_returning [OF this] show "determined (\<lambda>c. cmd_del c args) m"
    unfolding cmd_del_def by (intro determined_guarded)
  show "determined (\<lambda>c. cmd_incr c args) m" "determined (\<lambda>c. cmd_decr c args) m"
    "determined (\<lambda>c. cmd_incrby c args) m" "determined (\<lambda>c. cmd_decrby c args) m"
    unfolding cmd_incr_def cmd_decr_def cmd_incrby_def cmd_decrby_def
    by (intro determined_guarded determined_incr_by)+
  show "determined (\<lambda>c. cmd_persist c args) m"
    unfolding cmd_persist_def by (intro determined_guarded determined_returning [OF effect_persist])
  have "determined (\<lambda>c st. (Inr OK, store_flush st)) m"
    using effect_map [OF effect_flush, of "\<lambda>_. Inr OK" m] by (intro determinedI) simp
  then show "determined (\<lambda>c. cmd_flushdb c args) m"
    unfolding cmd_flushdb_def by (intro determined_guarded)
qed


lemma determined_dispatch:
  assumes "deadline_free (f # args)" and "is_write_command (str_upper (to_text f))"
  shows "determined (\<lambda>c. dispatch c (f # args)) m"
proof -
  let ?name = "str_upper (to_text f)"
  have names: "?name \<noteq> ascii_str ''EXPIRE''" "?name \<noteq> ascii_str ''PEXPIRE''" "?name \<noteq> ascii_str ''PEXPIREAT''"
    and set: "?name = ascii_str ''SET'' \<Longrightarrow> parse_set args = Inr opts \<Longrightarrow> ottl opts = None" for opts
    using assms(1) by (auto simp: deadline_free_def Let_def split: sum.splits)
  have det: "determined (\<lambda>c. h c args) m" if hd: "command_handler ?name = Some h" for h
  proof -
    obtain n where n: "(n, h) \<in> set COMMANDS" "?name = ascii_str n" using command_handler_in [OF hd] by blast
    have w: "is_write_command (ascii_str n)" using assms(2) n(2) by simp
    have reads: "\<not> is_write_command (ascii_str ''PING'')" "\<not> is_write_command (ascii_str ''ECHO'')"
      "\<not> is_write_command (ascii_str ''GET'')" "\<not> is_write_command (ascii_str ''MGET'')"
      "\<not> is_write_command (ascii_str ''EXISTS'')" "\<not> is_write_command (ascii_str ''TTL'')"
      "\<not> is_write_command (ascii_str ''KEYS'')" "\<not> is_write_command (ascii_str ''DBSIZE'')"
      by code_simp+
    from n w names set show ?thesis
      by (auto simp: COMMANDS_def reads determined_writes intro!: determined_set)
  qed
  show ?thesis
  proof (cases "command_handler ?name")
    case None
    show ?thesis
      by (rule determinedI [OF effectI]) (auto simp: dispatch_def None)
  next
    case (Some h)
    from det [OF Some] obtain r m' where "effect (\<lambda>c. h c args) m r m'" by (auto simp: determined_def)
    then have "effect (\<lambda>c. dispatch c (f # args)) m (reply_or_raise ?name r) m'"
      using Some by (simp add: effect_def dispatch_def)
    then show ?thesis by (rule determinedI)
  qed
qed

text \<open>Reading keeps the map.\<close>

lemma holds_sweep: "holds m st \<Longrightarrow> holds m (snd (sweep_expired now st))"
proof -
  assume h: "holds m st"
  note i = cmd_invD(1) [OF holdsD(1) [OF h]]
  have "no_evict (snd (sweep_expired now st))"
    using sweep_expired_facts(3) [OF i, of now] holdsD(2) [OF h] by (simp add: same_config_def no_evict_def)
  with h i show ?thesis
    by (intro holdsI [where t = now]) (simp_all add: holdsD inv_intros undated_sweep live_sweep holds_live)
qed

lemma holds_map_loop: "holds m st \<Longrightarrow> holds m (snd (map_loop (lookup c) ks st))"
  by (rule map_loop_inv [where I = "holds m"]) (rule effectD(2) [OF effect_lookup])

lemma holds_count_lookup: "holds m st \<Longrightarrow> holds m (snd (count_loop (\<lambda>k s. map_prod g id (lookup c k s)) ks st))"
  by (rule count_loop_inv [where I = "holds m"]) (simp_all add: effectD(2) [OF effect_lookup])

lemma holds_read_handlers:
  assumes "holds m st"
  shows "list_all (\<lambda>(n, h). n \<in> set WRITE_COMMANDS \<or> holds m (snd (h c args st))) COMMANDS"
proof -
  have ttl: "snd (store_ttl (mono c) (mono c) k st) = st" for k
    by (simp add: store_ttl_def undated_lookup_live [OF holdsD(3) [OF assms]] split: option.split)
  have keys: "holds m (snd (store_keys (mono c) st))" "holds m (snd (store_len (mono c) st))"
    using holds_sweep [OF assms] by (simp_all add: store_keys_def store_len_def Let_def)
  have look: "holds m (snd (lookup c k st))" for k
    using effectD(2) [OF effect_lookup assms, where c = c] .
  show ?thesis
    unfolding COMMANDS_def list.pred_inject WRITE_COMMANDS_def
    using assms keys look
    by (simp; intro conjI;
        auto simp: cmd_ping_def cmd_echo_def cmd_get_def cmd_mget_def cmd_exists_def cmd_ttl_def cmd_dbsize_def
          cmd_keys_def guarded_def ttl holds_map_loop holds_count_lookup case_prod_beta
          split: list.splits sum.splits)
qed

lemma holds_dispatch_read:
  assumes "holds m st" and "\<not> is_write_command (str_upper (to_text f))"
  shows "holds m (snd (dispatch c (f # args) st))"
proof -
  have "holds m (snd (h c args st))" if "command_handler (str_upper (to_text f)) = Some h" for h
    using holds_read_handlers [OF assms(1), of c args] command_handler_in [OF that] assms(2) upper_write_command
    by (auto simp: list_all_iff)
  with assms(1) show ?thesis by (simp add: dispatch_def Let_def split: option.split)
qed

end
