(* ===== verification/Restart.thy ===== *)
theory Restart
  imports Plain_Map
begin

text \<open>
  What a restart and a replica see. For data without deadlines and without eviction, replaying the
  records that the server leaves in the log, or executing the ones it sends to a replica, gives the
  map the server has: the log and the stream are faithful to the store.
\<close>

section \<open>Names of writes\<close>

text \<open>A name the server takes for a write is ASCII, so \<^verbatim>\<open>dispatch\<close> sees the same name.\<close>

lemma write_name_ascii:
  assumes "is_write_command (str_upper (ascii_decode b))"
  shows "is_ascii b"
proof (rule ccontr)
  assume "\<not> is_ascii b"
  then have "REPLACEMENT \<in> set (ascii_decode b)"
    by (auto simp: ascii_decode_def list_all_iff not_less)
  moreover have up: "str_upper [REPLACEMENT] = [REPLACEMENT]" by code_simp
  ultimately have "REPLACEMENT \<in> set (str_upper (str_upper (ascii_decode b)))"
    by (force simp: str_upper_def)
  moreover from assms have "str_upper (str_upper (ascii_decode b)) \<in> ascii_str ` set WRITE_COMMANDS"
    by (auto simp: is_write_command_def)
  moreover have "REPLACEMENT \<notin> set (ascii_str w)" for w
  proof
    assume "REPLACEMENT \<in> set (ascii_str w)"
    then obtain c :: char where "of_char c = (65533 :: nat)"
      by (auto simp: ascii_str_def REPLACEMENT_def dest: sym)
    with nat_of_char_less_256 [of c] show False by linarith
  qed
  ultimately show False by auto
qed


lemma dispatch_write_name:
  assumes "is_write_command (server_name command)"
  shows "server_name command = str_upper (to_text (Bytes (hd command)))"
  using assms write_name_ascii [of "hd command"] server_name_ascii [of command] by (simp add: server_name_def)

lemma bytes_upper_ascii: "is_ascii b \<Longrightarrow> str_upper (ascii_str b) = ascii_str (bytes_upper b)"
  by (induction b) (auto simp: str_upper_def upper_cp_def ascii_str_def bytes_upper_def Let_def)

lemma is_set_word_name:
  assumes "is_ascii b"
  shows "is_set_word (Bytes b) \<longleftrightarrow> str_upper (to_text (Bytes b)) = ascii_str ''SET''"
  using assms by (simp add: is_set_word_def to_text_def utf8_decode_ascii bytes_upper_ascii ascii_str_inj)


section \<open>Records that can be replayed\<close>

text \<open>\<open>replays cs m m'\<close>: on any store that holds \<open>m\<close>, at any time, the recorded commands run through and leave \<open>m'\<close>.\<close>

definition replays :: "arg list list \<Rightarrow> (arg \<rightharpoonup> arg) \<Rightarrow> (arg \<rightharpoonup> arg) \<Rightarrow> bool" where
  "replays cs m m' \<longleftrightarrow> list_all record_ok cs \<and>
     (\<forall>clk n st. holds m st \<longrightarrow> (\<exists>n' st'. run_commands clk n (map wire_form cs) st = Inr (n', st') \<and> holds m' st'))"

lemma replays_Nil: "replays [] m m"
  by (simp add: replays_def)

lemma replays_append: "replays cs m m' \<Longrightarrow> replays ds m' m'' \<Longrightarrow> replays (cs @ ds) m m''"
proof -
  assume a: "replays cs m m'" "replays ds m' m''"
  have "\<exists>n' st'. run_commands clk n (map wire_form (cs @ ds)) st = Inr (n', st') \<and> holds m'' st'" if h: "holds m st" for clk n st
  proof -
    obtain n1 st1 where 1: "run_commands clk n (map wire_form cs) st = Inr (n1, st1)" "holds m' st1"
      using a(1) h unfolding replays_def by blast
    obtain n2 st2 where "run_commands clk n1 (map wire_form ds) st1 = Inr (n2, st2)" "holds m'' st2"
      using a(2) 1(2) unfolding replays_def by blast
    with 1(1) show ?thesis by (simp add: run_commands_append)
  qed
  with a show ?thesis by (simp add: replays_def)
qed

lemma replays_one:
  assumes "record_ok command" and "wire_form command \<noteq> []"
    and "effect (\<lambda>c. dispatch c (map Bytes (wire_form command))) m (Inr reply) m'"
  shows "replays [command] m m'"
proof -
  have "\<exists>n' st'. run_commands clk n [wire_form command] st = Inr (n', st') \<and> holds m' st'" if "holds m st" for clk n st
    using effectD [OF assms(3) that, where c = "clk n"] assms(2)
    by (cases "dispatch (clk n) (map Bytes (wire_form command)) st") simp
  with assms(1) show ?thesis by (simp add: replays_def)
qed

lemma effect_set_plain:
  "effect (\<lambda>c. dispatch c [Bytes ''SET'', k, v]) m (Inr OK) (m(k \<mapsto> v))"
proof (rule effectI)
  fix c st
  assume h: "holds m st"
  show "fst (dispatch c [Bytes ''SET'', k, v] st) = Inr OK"
    by (rule dispatch_set_plain(1) [OF holdsD(1,2) [OF h]])
  let ?o = "\<lparr>okey = k, oval = v, nx = False, xx = False, oget = False, ottl = None\<rparr>"
  have ok: "parse_set [k, v] = Inr ?o" by (simp add: parse_set_def)
  show "holds (m(k \<mapsto> v)) (snd (dispatch c [Bytes ''SET'', k, v] st))"
    using dispatch_named [OF named_words(1), of cmd_set c "[k, v]" st] cmd_set_run [OF holdsD(1) [OF h] ok, of c]
      holds_set [OF holds_set_probe [OF h]]
    by (simp add: COMMANDS_def set_blocked_def)
qed

lemma replays_set:
  assumes "wire_arg k" and "wire_arg v"
  shows "replays [[word_arg ''SET'', k, v]] m (m(k \<mapsto> v))"
proof -
  obtain kb vb where b: "k = Bytes kb" "v = Bytes vb" using assms by (auto simp: wire_arg_def split: arg.splits)
  show ?thesis
    by (rule replays_one [OF record_ok_set [OF assms]]) (use effect_set_plain [of k v m] in \<open>simp_all add: b\<close>)
qed


section \<open>One command\<close>

text \<open>Stores that never evict keep their list of evicted keys.\<close>

definition quiet :: "store \<Rightarrow> bool" where
  "quiet st \<longleftrightarrow> store_inv st \<and> no_evict st \<and> evicted st = []"

lemma no_evict_config: "no_evict st \<Longrightarrow> maxmemory st' = maxmemory st \<Longrightarrow> policy st' = policy st \<Longrightarrow> no_evict st'"
  by (simp add: no_evict_def)

lemma evict_quiet: "no_evict st \<Longrightarrow> evicted (evict now st) = evicted st"
  by (simp add: evict_no_evict)

lemma evicted_set_quiet: "no_evict st \<Longrightarrow> evicted (store_set now now' k v ttl st) = evicted st"
  unfolding store_set_def Let_def
  by (subst evict_quiet) (auto simp: no_evict_def split: option.splits)

lemma evicted_incr_quiet: "no_evict st \<Longrightarrow> evicted (snd (store_incr now now' k d st)) = evicted st"
proof (cases "lookup_live now k st")
  case (Pair found st1)
  assume "no_evict st"
  moreover have "maxmemory st1 = maxmemory st \<and> policy st1 = policy st \<and> evicted st1 = evicted st"
    using Pair by (auto simp: lookup_live_def store_remove_def split: option.splits if_splits)
  ultimately have "no_evict st1" "evicted st1 = evicted st" by (auto intro: no_evict_config)
  with Pair show ?thesis
    by (auto simp: store_incr_def Let_def evict_no_evict split: sum.splits option.splits)
qed

interpretation quiet: preserved quiet "\<lambda>_. True"
proof unfold_locales
  show "quiet (store_set now now' k (PyArg a) ttl st)" if "quiet st" for st now now' k a ttl
    using that config_set [of st now now' k "PyArg a" ttl]
    by (auto simp: quiet_def inv_intros evicted_set_quiet intro: no_evict_config)
  show "quiet (snd (store_incr now now' k d st))" if "quiet st" for st now now' k d
    using that config_incr [of st now now' k d]
    by (auto simp: quiet_def inv_intros evicted_incr_quiet intro: no_evict_config)
qed (use shrinks_ops shrinks_readers shrinks_sweep in
      \<open>auto simp: quiet_def inv_intros shrinks_def evicted_sweep no_evict_flush drain_evictions_def intro: no_evict_config\<close>)


lemma holds_same_view:
  assumes "holds m st" and "holds m' st'" and "live t st' = live t st"
  shows "m' = m"
proof
  fix k
  have "map_option (\<lambda>a. (PyArg a, None :: seconds option)) (m' k) = map_option (\<lambda>a. (PyArg a, None)) (m k)"
    using fun_cong [OF assms(3), of k] by (simp add: holds_live [OF assms(1)] holds_live [OF assms(2)])
  then show "m' k = m k" by (cases "m k"; cases "m' k") simp_all
qed

text \<open>An accepted write on a store that holds a map: what it leaves, and that its records in the log and
  for the replicas leave the same when they are replayed. A SET that wrote nothing leaves no record.\<close>

lemma accepted_write:
  assumes h: "holds m st" and cmd: "command \<noteq> []" "ok_command command" and free: "deadline_free (map Bytes command)"
    and wr: "is_write_command (server_name command)"
    and run: "dispatch c (map Bytes command) st = (Inr reply, st1)" and ok: "\<not> is_error reply"
    and aof: "to_aof_commands now (map Bytes command) = Inr cs"
  shows "\<exists>m'. holds m' st1 \<and>
    (if server_name command \<noteq> ascii_str ''SET'' \<or> writes st1 \<noteq> writes st
     then replays cs m m' \<and> replays [to_replication_command (map Bytes command)] m m' else m' = m)"
proof -
  obtain f args where fa: "command = f # args" using cmd(1) by (cases command) auto
  have name: "server_name command = str_upper (to_text (Bytes f))" using dispatch_write_name [OF wr] fa by simp
  have asc: "is_ascii f" using write_name_ascii [of f] wr fa by (simp add: server_name_def)
  have free': "deadline_free (Bytes f # map Bytes args)" using free fa by simp
  obtain r m' where eff: "effect (\<lambda>c. dispatch c (map Bytes command)) m r m'"
    using determined_dispatch [OF free', of m] wr name fa by (auto simp: determined_def)
  have m': "holds m' st1" and r: "r = Inr reply" using effectD [OF eff h, where c = c] run by simp_all
  show ?thesis
  proof (cases "server_name command = ascii_str ''SET''")
    case False
    have "cs = [map Bytes command]"
      using aof free False name fa by (auto simp: to_aof_commands_def deadline_free_def Let_def)
    moreover have "to_replication_command (map Bytes command) = map Bytes command"
      using is_set_word_name [OF asc] False name fa by (simp add: to_replication_command_def)
    moreover have "replays [map Bytes command] m m'"
      using replays_one [of "map Bytes command" m reply m'] eff r cmd by (simp add: record_ok_wire)
    ultimately show ?thesis using m' False by auto
  next
    case True
    have named: "named (Bytes f) ''SET''" using True name by (simp add: named_def)
    obtain opts where opts: "parse_set (map Bytes args) = Inr opts" "ottl opts = None"
    proof (cases "parse_set (map Bytes args)")
      case (Inl e)
      have "failed (fst (dispatch c (map Bytes command) st))"
        using dispatch_named [OF named, of cmd_set c "map Bytes args" st] Inl fa
        by (auto simp: COMMANDS_def cmd_set_def failed_def reply_or_raise_def guarded_def require_min_def
            split: exc.split)
      then show ?thesis using run ok by (simp add: failed_is_error)
    qed (use free True name fa in \<open>auto simp: deadline_free_def Let_def\<close>)
    have wire: "list_all wire_arg (map Bytes args)"
      using cmd(2) fa by (auto simp: ok_command_def list_all_iff wire_arg_def)
    note w = set_options_wire [OF opts(1) wire]
    note set = dispatch_set [OF holdsD(1) [OF h] named opts(1) refl order_refl refl refl, of c]
    have recs: "cs = [[word_arg ''SET'', okey opts, oval opts]]"
      "to_replication_command (map Bytes command) = [word_arg ''SET'', okey opts, oval opts]"
      using aof True name fa opts is_set_word_name [OF asc]
      by (auto simp: to_aof_commands_def to_replication_command_def Let_def)
    show ?thesis
    proof (cases "set_blocked (mono c) opts st")
      case True
      with set run fa have "live (mono c) st1 = live (mono c) st" "writes st1 = writes st" by simp_all
      with holds_same_view [OF h m'] m' \<open>server_name command = ascii_str ''SET''\<close> show ?thesis by auto
    next
      case False
      have probe: "st1 = store_set (mono c) (mono c) (okey opts) (PyArg (oval opts)) None (set_probe (mono c) opts st)"
        using dispatch_named [OF named, of cmd_set c "map Bytes args" st] run fa opts(2)
          cmd_set_run [OF holdsD(1) [OF h] opts(1), of c] False
        by (simp add: COMMANDS_def Let_def)
      have "holds (m(okey opts \<mapsto> oval opts)) st1"
        unfolding probe by (rule holds_set [OF holds_set_probe [OF h]])
      moreover have "writes st1 \<noteq> writes st" using set run fa False by simp
      ultimately show ?thesis
        using replays_set [OF w(1,2), of m] recs by auto
    qed
  qed
qed


section \<open>A server and its records\<close>

text \<open>A command that the replica executes when it arrives: neither a heartbeat nor an error.\<close>

definition streamable :: "arg list \<Rightarrow> bool" where
  "streamable command \<longleftrightarrow> plain_command (wire_form command)"

lemma streamable_set: "wire_arg k \<Longrightarrow> wire_arg v \<Longrightarrow> streamable [word_arg ''SET'', k, v]"
  using record_ok_set [of k v]
  by (simp add: streamable_def plain_command_def record_ok_def starts_with_def bytes_upper_def)

lemma write_word:
  assumes "is_write_command (str_upper (ascii_decode b))"
  shows "\<not> starts_with b CHR ''-''" "bytes_upper b \<noteq> ''PING''"
proof -
  note asc = write_name_ascii [OF assms]
  note name = ascii_decode_ascii [OF asc] bytes_upper_ascii [OF asc]
  show "bytes_upper b \<noteq> ''PING''"
  proof
    assume "bytes_upper b = ''PING''"
    with assms name have "is_write_command (ascii_str ''PING'')" by simp
    moreover have "\<not> is_write_command (ascii_str ''PING'')" by code_simp
    ultimately show False by simp
  qed
  show "\<not> starts_with b CHR ''-''"
  proof
    assume "starts_with b CHR ''-''"
    then obtain cs where "b = CHR ''-'' # cs" by (cases b) (auto simp: starts_with_def)
    then have "\<exists>rest. str_upper (str_upper (ascii_decode b)) = 45 # rest"
      by (auto simp: ascii_decode_def str_upper_def upper_cp_def)
    moreover have "list_all (\<lambda>w. hd (ascii_str w) \<noteq> 45) WRITE_COMMANDS" by code_simp
    ultimately show False using assms by (auto simp: is_write_command_def list_all_iff) (metis list.sel(1))
  qed
qed

lemma streamable_replication:
  assumes "is_write_command (server_name command)" and "command \<noteq> []" and "ok_command command"
  shows "streamable (to_replication_command (map Bytes command))"
proof -
  have ok: "ok_command (wire_form (to_replication_command (map Bytes command)))"
    using to_replication_record_ok [OF assms(2,3)] by (simp add: record_ok_def)
  have "wire_form (to_replication_command (map Bytes command)) = command \<or>
      (\<exists>rest. wire_form (to_replication_command (map Bytes command)) = ''SET'' # rest)"
    by (auto simp: to_replication_command_def split: sum.split)
  with ok write_word [of "hd command"] assms(1,2) show ?thesis
    by (auto simp: streamable_def plain_command_def server_name_def starts_with_def bytes_upper_def)
qed

text \<open>The commands of all clients, in the order in which the server handles them, each with the state of
  its client's authentication.\<close>

fun serve_all :: "(clock \<times> bool \<times> bytes list) list \<Rightarrow> server \<Rightarrow> server" where
  "serve_all [] s = s"
| "serve_all ((c, authed, command) # rest) s = serve_all rest (snd (snd (handle_command c authed command s)))"

definition log_contents :: "server \<Rightarrow> bytes option" where
  "log_contents s = map_option contents (aof s)"

text \<open>The commands of all clients: what each must satisfy, at non-decreasing clocks, and the clock of the last.\<close>

definition request :: "(clock \<Rightarrow> bytes list \<Rightarrow> bool) \<Rightarrow> clock \<times> bool \<times> bytes list \<Rightarrow> bool" where
  "request allowed = (\<lambda>(c, authed, command). clock_ok c \<and> command \<noteq> [] \<and> ok_command command \<and>
     is_ascii (hd command) \<and> allowed c command)"

fun in_order :: "(clock \<Rightarrow> clock \<Rightarrow> bool) \<Rightarrow> clock \<Rightarrow> (clock \<times> bool \<times> bytes list) list \<Rightarrow> bool" where
  "in_order before c [] = True"
| "in_order before c ((c', _) # rest) = (before c c' \<and> in_order before c' rest)"

fun last_clock :: "clock \<Rightarrow> (clock \<times> bool \<times> bytes list) list \<Rightarrow> clock" where
  "last_clock c [] = c"
| "last_clock c ((c', _) # rest) = last_clock c' rest"

definition shows_map :: "(clock \<Rightarrow> 'm \<Rightarrow> store \<Rightarrow> bool) \<Rightarrow> clock \<Rightarrow> 'm \<Rightarrow> server \<Rightarrow> bool" where
  "shows_map R c m s \<longleftrightarrow> R c m (sstore s) \<and> wire_inv (sstore s) \<and> evicted (sstore s) = []"

text \<open>
  What a run of the server needs of an abstract view of its store. \<open>R c m st\<close> says that \<open>m\<close> is what \<open>st\<close> shows from the
  clock \<open>c\<close> on; an \<open>allowed\<close> command that is accepted leaves records from which the new view can be had again, in the
  log (\<open>rec\<close>) and on the links to the replicas (\<open>stream\<close>); everything else leaves the view alone.
\<close>

locale recorded =
  fixes R :: "clock \<Rightarrow> 'm \<Rightarrow> store \<Rightarrow> bool" and allowed :: "clock \<Rightarrow> bytes list \<Rightarrow> bool" and order :: "clock \<Rightarrow> clock \<Rightarrow> bool"
    and rec :: "arg list list \<Rightarrow> 'm \<Rightarrow> 'm \<Rightarrow> bool" and stream :: "arg list list \<Rightarrow> 'm \<Rightarrow> 'm \<Rightarrow> bool"
  assumes quiet_law: "R c m st \<Longrightarrow> cmd_inv st \<and> no_evict st"
    and later_law: "R c m st \<Longrightarrow> order c c' \<Longrightarrow> R c' m st"
    and write_law: "R c m st \<Longrightarrow> clock_ok c \<Longrightarrow> command \<noteq> [] \<Longrightarrow> ok_command command \<Longrightarrow> allowed c command \<Longrightarrow>
      is_write_command (server_name command) \<Longrightarrow> dispatch c (map Bytes command) st = (Inr reply, st1) \<Longrightarrow> \<not> is_error reply \<Longrightarrow>
      to_aof_commands (wall c) (map Bytes command) = Inr cs \<Longrightarrow>
      \<exists>m'. R c m' st1 \<and> (if server_name command \<noteq> ascii_str ''SET'' \<or> writes st1 \<noteq> writes st
        then rec cs m m' \<and> stream [to_replication_command (map Bytes command)] m m' else m' = m)"
    and other_law: "R c m st \<Longrightarrow> command \<noteq> [] \<Longrightarrow> is_ascii (hd command) \<Longrightarrow> allowed c command \<Longrightarrow>
      dispatch c (map Bytes command) st = (r, st1) \<Longrightarrow> failed r \<or> \<not> is_write_command (server_name command) \<Longrightarrow> R c m st1"
    and sweep_law: "R c m st \<Longrightarrow> R c m (snd (sweep_expired (mono c) st))"
    and rec_Nil: "rec [] m m" and rec_append: "rec cs m m' \<Longrightarrow> rec ds m' m'' \<Longrightarrow> rec (cs @ ds) m m''"
    and stream_Nil: "stream [] m m" and stream_append: "stream cs m m' \<Longrightarrow> stream ds m' m'' \<Longrightarrow> stream (cs @ ds) m m''"
begin

lemma execute_step:
  assumes s: "shows_map R c m s" and c: "clock_ok c" and cmd: "command \<noteq> []" "ok_command command" "is_ascii (hd command)"
    and free: "allowed c command" and run: "execute c command s = (a, s')"
  shows "\<exists>m' recs reps. shows_map R c m' s' \<and> rec recs m m' \<and> stream reps m m' \<and> list_all streamable reps \<and>
    log_contents s' = map_option (\<lambda>b. b @ log_bytes (map wire_form recs)) (log_contents s) \<and>
    replicas s' = fed reps (replicas s)"
proof -
  have h: "R c m (sstore s)" and w: "wire_inv (sstore s)" and ev: "evicted (sstore s) = []"
    using s by (simp_all add: shows_map_def)
  obtain r st1 where d: "dispatch c (map Bytes command) (sstore s) = (r, st1)" by fastforce
  have w1: "wire_inv st1" using wire_dispatch [OF w cmd(2), of c] d by simp
  have "quiet (sstore s)" using quiet_law [OF h] w ev by (simp add: quiet_def wire_inv_def)
  from quiet.I_dispatch [OF this, of "map Bytes command" c] d have ev1: "evicted st1 = []"
    by (simp add: quiet_def list_all_iff)
  show ?thesis
  proof (cases "\<not> failed r \<and> is_write_command (server_name command)")
    case True
    let ?ch = "server_name command \<noteq> ascii_str ''SET'' \<or> writes st1 \<noteq> writes (sstore s)"
    let ?reps = "if ?ch then [to_replication_command (map Bytes command)] else []"
    obtain reply cs where ok: "r = Inr reply" "\<not> is_error reply"
      "to_aof_commands (wall c) (map Bytes command) = Inr cs"
      and ex: "execute c command s =
      (Send reply, s\<lparr>sstore := st1\<lparr>evicted := []\<rparr>,
         aof := map_option aof_commit (logged ((if ?ch then cs else []) @ map del_command (evicted st1)) (aof s)),
         replicas := fed (?reps @ map del_command (evicted st1)) (replicas s)\<rparr>)"
      using execute_write [OF w c cmd(1,2) _ d _ refl refl] True by blast
    let ?recs = "if ?ch then cs else []"
    obtain m' where m': "R c m' st1" "if ?ch
       then rec cs m m' \<and> stream [to_replication_command (map Bytes command)] m m' else m' = m"
      using write_law [OF h c cmd(1,2) free _ d [unfolded ok(1)] ok(2,3)] True by blast
    then have rep: "rec ?recs m m'" "stream ?reps m m'" using rec_Nil [of m] stream_Nil [of m] by auto
    have st1: "st1\<lparr>evicted := []\<rparr> = st1" using ev1 by simp
    have s': "s' = s\<lparr>sstore := st1, aof := map_option aof_commit (logged ?recs (aof s)), replicas := fed ?reps (replicas s)\<rparr>"
      using run ex ev1 st1 by simp
    have "log_contents s' = map_option (\<lambda>b. b @ log_bytes (map wire_form ?recs)) (log_contents s)"
      using contents_logged [of ?recs "aof s"] by (simp add: s' log_contents_def option.map_comp comp_def)
    moreover have "list_all streamable ?reps" using streamable_replication [of command] True cmd(1,2) by simp
    ultimately show ?thesis using m'(1) w1 ev1 rep
      by (intro exI [of _ m'] exI [of _ ?recs] exI [of _ ?reps]) (simp add: s' shows_map_def)
  next
    case False
    then have s': "s' = s\<lparr>sstore := st1\<rparr>"
      using run d by (auto simp: execute_def Let_def failed_is_error split: sum.splits)
    have "R c m st1" using other_law [OF h cmd(1,3) free d] False by blast
    with w1 ev1 rec_Nil [of m] stream_Nil [of m] show ?thesis
      by (intro exI [of _ m] exI [of _ "[]"]) (simp add: s' shows_map_def log_contents_def option.map_ident)
  qed
qed

lemma command_step:
  assumes s: "shows_map R c m s" and req: "request allowed (c, authed, command)"
    and run: "handle_command c authed command s = (a, authed', s')"
  shows "\<exists>m' recs reps. shows_map R c m' s' \<and> rec recs m m' \<and> stream reps m m' \<and> list_all streamable reps \<and>
    log_contents s' = map_option (\<lambda>b. b @ log_bytes (map wire_form recs)) (log_contents s) \<and>
    replicas s' = fed reps (replicas s)"
proof -
  have unchanged: "?thesis" if "shows_map R c m s'" "log_contents s' = log_contents s" "replicas s' = replicas s"
    using that rec_Nil [of m] stream_Nil [of m] by (intro exI [of _ m] exI [of _ "[]"]) (simp add: option.map_ident)
  have counted: "shows_map R c m (counted s)" using s by (simp add: shows_map_def)
  from run show ?thesis
  proof (cases rule: handle_command_cases)
    case (info body)
    then have s': "s' = (counted s)\<lparr>sstore := snd (store_len (mono c) (sstore s))\<rparr>"
      by (auto simp: build_info_def info_lines_def Let_def split: prod.splits)
    have st: "snd (store_len (mono c) (sstore s)) = snd (sweep_expired (mono c) (sstore s))"
      by (simp add: store_len_def Let_def)
    show ?thesis
      using s sweep_law [of c m "sstore s"] wire.I_sweep [of "sstore s"] evicted_sweep [of "sstore s"]
      by (intro unchanged) (auto simp: shows_map_def s' st log_contents_def wire_inv_def)
  next
    case run
    from execute_step [OF counted _ _ _ _ _ run(1)] req show ?thesis
      by (simp add: request_def log_contents_def)
  qed (use s in \<open>intro unchanged; auto simp: shows_map_def log_contents_def start_rewrite_def\<close>)+
qed

lemma run_steps:
  assumes "shows_map R c m s" and "list_all (request allowed) reqs" and "in_order order c reqs"
  shows "\<exists>m' recs reps. shows_map R (last_clock c reqs) m' (serve_all reqs s) \<and> rec recs m m' \<and> stream reps m m' \<and>
    list_all streamable reps \<and>
    log_contents (serve_all reqs s) = map_option (\<lambda>b. b @ log_bytes (map wire_form recs)) (log_contents s) \<and>
    replicas (serve_all reqs s) = fed reps (replicas s)"
  using assms
proof (induction reqs arbitrary: c m s)
  case Nil
  then show ?case
    using rec_Nil [of m] stream_Nil [of m] by (intro exI [of _ m] exI [of _ "[]"]) (simp add: option.map_ident)
next
  case (Cons req reqs)
  obtain c' authed command where req: "req = (c', authed, command)" by (cases req)
  obtain a authed' s1 where run: "handle_command c' authed command s = (a, authed', s1)" by (metis prod_cases3)
  have s: "shows_map R c' m s" using Cons.prems(1,3) later_law [of c m "sstore s" c'] by (simp add: shows_map_def req)
  obtain m1 recs1 reps1 where 1: "shows_map R c' m1 s1" "rec recs1 m m1" "stream reps1 m m1" "list_all streamable reps1"
    "log_contents s1 = map_option (\<lambda>b. b @ log_bytes (map wire_form recs1)) (log_contents s)"
    "replicas s1 = fed reps1 (replicas s)"
    using command_step [OF s _ run] Cons.prems(2) req by auto
  obtain m2 recs2 reps2 where 2: "shows_map R (last_clock c' reqs) m2 (serve_all reqs s1)" "rec recs2 m1 m2" "stream reps2 m1 m2"
    "list_all streamable reps2"
    "log_contents (serve_all reqs s1) = map_option (\<lambda>b. b @ log_bytes (map wire_form recs2)) (log_contents s1)"
    "replicas (serve_all reqs s1) = fed reps2 (replicas s1)"
    using Cons.IH [OF 1(1)] Cons.prems(2,3) req by auto
  have "log_contents (serve_all reqs s1) = map_option (\<lambda>b. b @ log_bytes (map wire_form (recs1 @ recs2))) (log_contents s)"
    using 1(5) 2(5) by (simp add: option.map_comp comp_def)
  with 1 2 rec_append [OF 1(2) 2(2)] stream_append [OF 1(3) 2(3)] run req show ?case
    by (intro exI [of _ m2] exI [of _ "recs1 @ recs2"] exI [of _ "reps1 @ reps2"]) auto
qed

end


section \<open>Data without deadlines\<close>

definition plain_request :: "clock \<times> bool \<times> bytes list \<Rightarrow> bool" where
  "plain_request = (\<lambda>(c, authed, command). clock_ok c \<and> command \<noteq> [] \<and> ok_command command \<and>
     is_ascii (hd command) \<and> deadline_free (map Bytes command))"

definition plain_server :: "(arg \<rightharpoonup> arg) \<Rightarrow> server \<Rightarrow> bool" where
  "plain_server m s \<longleftrightarrow> holds m (sstore s) \<and> wire_inv (sstore s) \<and> evicted (sstore s) = []"

lemma plain_other:
  assumes h: "holds m st" and cmd: "command \<noteq> []" "is_ascii (hd command)" and free: "deadline_free (map Bytes command)"
    and d: "dispatch c (map Bytes command) st = (r, st1)" and f: "failed r \<or> \<not> is_write_command (server_name command)"
  shows "holds m st1"
proof (cases "is_write_command (server_name command)")
  case True
  with f have f: "failed r" by simp
  obtain f' args where fa: "command = f' # args" using cmd(1) by (cases command) auto
  obtain r' m' where "effect (\<lambda>c. dispatch c (map Bytes command)) m r' m'"
    using determined_dispatch [of "Bytes f'" "map Bytes args" m] free True dispatch_write_name [OF True] fa
    by (auto simp: determined_def)
  from effectD(2) [OF this h, where c = c] d have m': "holds m' st1" by simp
  have "live (mono c) st1 = live (mono c) st"
    using dispatch_failed [OF holdsD(1) [OF h] order_refl, of c "map Bytes command"] d f by simp
  from holds_same_view [OF h m' this] m' show ?thesis by simp
next
  case False
  then have "\<not> is_write_command (str_upper (to_text (Bytes (hd command))))"
    using server_name_ascii [OF cmd(2)] by simp
  from holds_dispatch_read [OF h this, of c "map Bytes (tl command)"] d cmd(1) show ?thesis
    by (cases command) simp_all
qed

interpretation plain: recorded "\<lambda>_. holds" "\<lambda>_ command. deadline_free (map Bytes command)" "\<lambda>_ _. True" replays replays
proof unfold_locales
  show "\<exists>m'. holds m' st1 \<and> (if server_name command \<noteq> ascii_str ''SET'' \<or> writes st1 \<noteq> writes st
      then replays cs m m' \<and> replays [to_replication_command (map Bytes command)] m m' else m' = m)"
    if "holds m st" "command \<noteq> []" "ok_command command" "deadline_free (map Bytes command)"
      "is_write_command (server_name command)" "dispatch c (map Bytes command) st = (Inr reply, st1)" "\<not> is_error reply"
      "to_aof_commands (wall c) (map Bytes command) = Inr cs" for m st c command reply st1 cs
    using that by (rule accepted_write)
next
  show "cmd_inv st \<and> no_evict st" if "holds m st" for m st
    using that by (simp add: holds_def)
next
  show "holds m st1" if "holds m st" "command \<noteq> []" "is_ascii (hd command)" "deadline_free (map Bytes command)"
    "dispatch c (map Bytes command) st = (r, st1)" "failed r \<or> \<not> is_write_command (server_name command)" for m st command c r st1
    using that by (rule plain_other)
next
  show "holds m (snd (sweep_expired (mono c) st))" if "holds m st" for m st c
    using that by (rule holds_sweep)
next
  show "replays (cs @ ds) m m''" if "replays cs m m'" "replays ds m' m''" for cs ds m m' m''
    using that by (rule replays_append)
qed (simp_all add: replays_Nil)

lemma plain_execute:
  assumes "plain_server m s" and "clock_ok c" and "command \<noteq> []" "ok_command command" "is_ascii (hd command)"
    and "deadline_free (map Bytes command)" and "execute c command s = (a, s')"
  shows "\<exists>m' recs reps. plain_server m' s' \<and> replays recs m m' \<and> replays reps m m' \<and> list_all streamable reps \<and>
    log_contents s' = map_option (\<lambda>b. b @ log_bytes (map wire_form recs)) (log_contents s) \<and>
    replicas s' = fed reps (replicas s)"
  using plain.execute_step [of c m s command a s'] assms by (simp add: plain_server_def shows_map_def)

lemma plain_run:
  assumes "plain_server m s" and "list_all plain_request reqs"
  shows "\<exists>m' recs reps. plain_server m' (serve_all reqs s) \<and> replays recs m m' \<and> replays reps m m' \<and> list_all streamable reps \<and>
    log_contents (serve_all reqs s) = map_option (\<lambda>b. b @ log_bytes (map wire_form recs)) (log_contents s) \<and>
    replicas (serve_all reqs s) = fed reps (replicas s)"
proof -
  have "in_order (\<lambda>_ _. True) c reqs" for c by (induction reqs arbitrary: c) auto
  with plain.run_steps [of undefined m s reqs] assms show ?thesis
    by (simp add: plain_server_def shows_map_def plain_request_def request_def)
qed


section \<open>After a restart\<close>

text \<open>The server's log, replayed into an empty store at any later time, gives the map the server has.\<close>

lemma restart_same:
  assumes s: "plain_server m s" "log_contents s = Some []" "m = Map.empty" and reqs: "list_all plain_request reqs"
    and l: "log_contents (serve_all reqs s) = Some (contents l)" and fresh: "holds Map.empty st0"
  shows "\<exists>n st'. replay clk l st0 = Inr (n, None, l, st') \<and> (\<forall>t. live t st' = live t (sstore (serve_all reqs s)))"
proof -
  obtain m' recs where m': "plain_server m' (serve_all reqs s)" and rep: "replays recs m m'"
    and log: "contents l = log_bytes (map wire_form recs)"
    using plain_run [OF s(1) reqs] s(2) l by auto
  have ok: "list_all ok_command (map wire_form recs)"
    using rep by (auto simp: replays_def list_all_iff record_ok_def)
  obtain n st' where run: "run_commands clk 0 (map wire_form recs) st0 = Inr (n, st')" and st': "holds m' st'"
    using rep fresh s(3) unfolding replays_def by blast
  have same: "live t st' = live t (sstore (serve_all reqs s))" for t
    using holds_live [OF st'] m' holds_live [of m'] by (simp add: plain_server_def)
  show ?thesis
  proof (cases "recs = []")
    case True
    then show ?thesis using log run same by (auto simp: replay_def)
  next
    case False
    with replay_intact [OF ok log run] same show ?thesis by auto
  qed
qed

end
