(* ===== verification/Cluster_Net.thy ===== *)
theory Cluster_Net
  imports Cluster_Shards Restart
begin

text \<open>
  The client and the servers together: the round trip of the model, over the bytes of the protocol and
  the pool of connections, keeps the contract that the client relies on. So a cluster of servers without
  deadlines and without a memory limit behaves, through the client, as one map.
\<close>

section \<open>A server of the cluster\<close>

definition open_server :: "pystr option \<Rightarrow> server \<Rightarrow> bool" where
  "open_server pw s \<longleftrightarrow>
     (\<exists>m. plain_server m s) \<and> requirepass s = pw \<and> replica_of s = None \<and> maxmemory (sstore s) = 0"

definition shard_data :: "server \<Rightarrow> bytes \<rightharpoonup> bytes" where
  "shard_data s b = map_option val_bytes (od_get (data (sstore s)) (Bytes b))"

lemma shard_data_map: "plain_server m s \<Longrightarrow> shard_data s b = map_option bytes_of (m (Bytes b))"
proof -
  assume "plain_server m s"
  then have "map_option val (od_get (data (sstore s)) (Bytes b)) = map_option PyArg (m (Bytes b))"
    by (simp add: plain_server_def holds_def)
  then show ?thesis
    by (cases "od_get (data (sstore s)) (Bytes b)"; cases "m (Bytes b)") (auto simp: shard_data_def val_bytes_def)
qed

lemma shard_data_fun: "plain_server m s \<Longrightarrow> shard_data s = (\<lambda>b. map_option bytes_of (m (Bytes b)))"
  by (simp add: fun_eq_iff shard_data_map)

lemma plain_values: "plain_server m s \<Longrightarrow> m k = Some a \<Longrightarrow> wire_arg k \<and> wire_arg a"
proof -
  assume s: "plain_server m s" and k: "m k = Some a"
  then have "map_option val (od_get (data (sstore s)) k) = Some (PyArg a)" by (simp add: plain_server_def holds_def)
  then obtain e where "od_get (data (sstore s)) k = Some e" "val e = PyArg a" by auto
  then have "(k, e) \<in> set (data (sstore s))" "val e = PyArg a" by (auto simp: od_get_def dest: map_of_SomeD)
  moreover have "list_all wire_entry (data (sstore s))"
    using s by (simp add: plain_server_def wire_inv_def wire_store_entries)
  ultimately show ?thesis by (auto simp: list_all_iff wire_entry_def wire_val_def)
qed

lemma plain_reply:
  assumes "plain_server m s"
  shows "reply_of (live t (sstore s) (Bytes b)) = bytes_reply (shard_data s b)" "ok_reply (bytes_reply (shard_data s b))"
proof -
  have h: "live t (sstore s) = (\<lambda>k. map_option (\<lambda>a. (PyArg a, None)) (m k))"
    using assms by (simp add: plain_server_def holds_live)
  show "reply_of (live t (sstore s) (Bytes b)) = bytes_reply (shard_data s b)" "ok_reply (bytes_reply (shard_data s b))"
    using plain_values [OF assms, of "Bytes b"]
    by (cases "m (Bytes b)";
        auto simp: h shard_data_map [OF assms] reply_of_def bytes_reply_def wire_arg_def arg_bytes_def split: arg.splits)+
qed

definition data_words :: "string list" where
  "data_words = [''GET'', ''MGET'', ''SET'', ''MSET'', ''DEL'', ''INCRBY'']"

lemma data_word:
  assumes "List.member data_words f"
  shows "named (Bytes f) f" "is_ascii f" "server_name (f # args) = ascii_str f"
    "f \<noteq> ''QUIT''" "f \<noteq> ''AUTH''" "f \<noteq> ''SYNC''" "f \<noteq> ''INFO''" "f \<noteq> ''BGREWRITEAOF''"
proof -
  have "list_all (\<lambda>f. named (Bytes f) f \<and> is_ascii f \<and> f \<notin> {''QUIT'', ''AUTH'', ''SYNC'', ''INFO'', ''BGREWRITEAOF''}) data_words"
    by code_simp
  then have f: "named (Bytes f) f" "is_ascii f" "f \<notin> {''QUIT'', ''AUTH'', ''SYNC'', ''INFO'', ''BGREWRITEAOF''}"
    using assms by (auto simp: list_all_iff List.member_iff)
  then show "named (Bytes f) f" "is_ascii f" "server_name (f # args) = ascii_str f"
    "f \<noteq> ''QUIT''" "f \<noteq> ''AUTH''" "f \<noteq> ''SYNC''" "f \<noteq> ''INFO''" "f \<noteq> ''BGREWRITEAOF''"
    using server_name_ascii [of "f # args"] by (auto simp: named_def)
qed

lemma map_view_inj:
  "(\<lambda>k. map_option (\<lambda>a. (PyArg a, None :: seconds option)) (m k)) = (\<lambda>k. map_option (\<lambda>a. (PyArg a, None)) (m' k)) \<Longrightarrow> m = m'"
proof
  fix k
  assume "(\<lambda>k. map_option (\<lambda>a. (PyArg a, None :: seconds option)) (m k)) = (\<lambda>k. map_option (\<lambda>a. (PyArg a, None)) (m' k))"
  from fun_cong [OF this, of k] show "m k = m' k" by (cases "m k"; cases "m' k") simp_all
qed

text \<open>The answer of a server to a command on data that its store accepts.\<close>

lemma data_answer:
  assumes s: "open_server pw s" and c: "clock_ok c" and f: "List.member data_words f" and cmd: "ok_command (f # args)"
    and free: "f = ''SET'' \<Longrightarrow> length args = 2"
    and run: "dispatch c (Bytes f # map Bytes args) (sstore s) = (Inr reply, st1)"
    and view: "live (mono c) st1 = (\<lambda>k. map_option (\<lambda>a. (PyArg a, None)) (m' k))"
  shows "\<exists>s1. handle_command c True (f # args) s = (Send reply, True, s1) \<and> open_server pw s1 \<and> plain_server m' s1"
proof -
  obtain m where m: "plain_server m s" using s by (auto simp: open_server_def)
  have pc: "plain_server m (counted s)" using m by (simp add: plain_server_def)
  have w: "wire_inv (sstore (counted s))" using m by (simp add: plain_server_def)
  obtain a s1 where ex: "execute c (f # args) (counted s) = (a, s1)" by fastforce
  have handle: "handle_command c True (f # args) s = (a, True, s1)"
    using data_word [OF f] s ex
    by (simp add: handle_command_def Let_def ascii_str_inj open_server_def denied_oom_def over_limit_def counted_def [symmetric])
  have free': "deadline_free (map Bytes (f # args))"
  proof -
    have "ottl opts = None" if set: "f = ''SET''" and opts: "parse_set (map Bytes args) = Inr opts" for opts
    proof -
      obtain k v where "args = [k, v]" using free [OF set] by (auto simp: numeral_2_eq_2 length_Suc_conv)
      with opts show ?thesis by (auto simp: parse_set_def Let_def)
    qed
    moreover have "f \<noteq> ''EXPIRE''" "f \<noteq> ''PEXPIRE''" "f \<noteq> ''PEXPIREAT''"
      using f by (auto simp: data_words_def List.member_iff)
    ultimately show ?thesis
      using data_word(1) [OF f] by (auto simp: deadline_free_def named_def Let_def ascii_str_inj split: sum.split)
  qed
  obtain m1 where m1: "plain_server m1 s1"
    using plain_execute [OF pc c _ cmd _ free' ex] data_word(2) [OF f] by auto
  have s1: "a = Send reply \<and> sstore s1 = st1\<lparr>evicted := evicted (sstore s1)\<rparr> \<and> requirepass s1 = requirepass s \<and> replica_of s1 = replica_of s"
  proof (cases "is_write_command (server_name (f # args)) \<and> \<not> is_error reply")
    case True
    have d: "dispatch c (map Bytes (f # args)) (sstore (counted s)) = (Inr reply, st1)" using run by simp
    have nf: "\<not> failed (Inr reply)" using True by (simp add: failed_is_error)
    show ?thesis
      by (rule execute_write [OF w c _ cmd conjunct1 [OF True] d nf refl refl]) (use ex in simp_all)
  next
    case False
    with ex run show ?thesis by (auto simp: execute_def Let_def)
  qed
  have "live (mono c) (sstore s1) = live (mono c) st1" using arg_cong [where f = "live (mono c)", OF conjunct1 [OF conjunct2 [OF s1]]] by simp
  with m1 view have "m1 = m'"
    using holds_live [of m1 "sstore s1" "mono c"] map_view_inj [of m1 m'] by (simp add: plain_server_def)
  moreover have "maxmemory (sstore s1) = 0"
  proof -
    have "maxmemory st1 = maxmemory (sstore s)"
      using conf.I_dispatch [of "maxmemory (sstore s)" "policy (sstore s)" "sstore s" "Bytes f # map Bytes args" c] run m
      by (simp add: configured_def list_all_iff plain_server_def wire_inv_def)
    moreover have "maxmemory (sstore s1) = maxmemory st1" using arg_cong [where f = maxmemory, OF conjunct1 [OF conjunct2 [OF s1]]] by simp
    ultimately show ?thesis using s by (simp add: open_server_def)
  qed
  ultimately show ?thesis using handle s1 m1 s by (auto simp: open_server_def)
qed


section \<open>Connections\<close>

text \<open>A connection on which every reply has been read.\<close>

definition good_conn :: "conn \<Rightarrow> bool" where
  "good_conn cn \<longleftrightarrow> cauthed cn \<and> unread cn = [] \<and> copen cn"

text \<open>The replies of a server to commands that arrive together, one for each.\<close>

fun run_each :: "(nat \<Rightarrow> clock) \<Rightarrow> nat \<Rightarrow> bytes list list \<Rightarrow> server \<Rightarrow> (pyobj list \<times> server) option" where
  "run_each clk n [] s = Some ([], s)"
| "run_each clk n (cmd # cmds) s =
     (case handle_command (clk n) True cmd s of
        (Send v, True, s1) \<Rightarrow> map_option (map_prod (Cons v) id) (run_each clk (Suc n) cmds s1)
      | _ \<Rightarrow> None)"

lemma run_each_Cons:
  assumes "run_each clk n (cmd # cmds) s = Some (vs, s2)"
  obtains v vs' s1 where "handle_command (clk n) True cmd s = (Send v, True, s1)" "vs = v # vs'"
    "run_each clk (Suc n) cmds s1 = Some (vs', s2)"
  using assms by (auto split: prod.splits action.splits bool.splits)

lemma run_each_length: "run_each clk n cmds s = Some (vs, s') \<Longrightarrow> length vs = length cmds"
proof (induction cmds arbitrary: n s vs)
  case (Cons cmd cmds)
  from Cons.prems show ?case by (rule run_each_Cons) (use Cons.IH in auto)
qed simp

lemma client_loop_many:
  assumes "list_all (\<lambda>cmd. ok_command cmd \<and> cmd \<noteq> []) cmds" and "run_each clk n cmds s = Some (vs, s')" and "encode_all vs = Inr b"
  shows "client_loop clk (\<lambda>_. 0) n True out (concat (map encode_command cmds)) s = (Peer_closed, out @ b, True, s')"
  using assms
proof (induction cmds arbitrary: n s vs b out)
  case Nil
  then show ?case
    by (subst client_loop.simps) (simp add: read_command_def read_line_end)
next
  case (Cons cmd cmds)
  obtain v vs' s1 where v: "handle_command (clk n) True cmd s = (Send v, True, s1)" "vs = v # vs'"
    "run_each clk (Suc n) cmds s1 = Some (vs', s')"
    using Cons.prems(2) by (rule run_each_Cons)
  obtain b1 b2 where b: "encode v = Inr b1" "encode_all vs' = Inr b2" "b = b1 @ b2"
    using Cons.prems(3) v(2) by (auto simp: sum_bind_eq_Inr map_sum_eq_Inr)
  have no: "\<not> output_overflow 0 s1" by (simp add: output_overflow_def)
  have read: "read_command (encode_command cmd @ rest) = Inr (Some cmd, rest)" for rest
    using Cons.prems(1) by (simp add: read_command_encode)
  note rest = Cons.IH [OF _ v(3) b(2), of "out @ b1"]
  show ?case
    by (subst client_loop.simps) (use Cons.prems(1) rest in \<open>simp add: read v b no\<close>)
qed

lemma encode_each_commands:
  "list_all2 (\<lambda>parts cmd. those (map arg_bytes parts) = Some cmd) partss cmds \<Longrightarrow>
   encode_each (map command_obj partss) = Inr (map encode_command cmds)"
  by (induction rule: list_all2_induct) (simp_all add: encode_command_obj)

text \<open>Commands sent together on such a connection get their own replies, in order, and leave the connection
  as it was.\<close>

lemma conn_op_many:
  assumes cn: "good_conn cn" and s: "od_get (servers w) node = Some s"
    and cmds: "list_all2 (\<lambda>parts cmd. those (map arg_bytes parts) = Some cmd) partss cmds"
      "list_all (\<lambda>cmd. ok_command cmd \<and> cmd \<noteq> []) cmds"
    and run: "run_each clk (tick w) cmds s = Some (vs, s1)"
    and vs: "encode_all vs = Inr b" "list_all ok_reply vs" "\<forall>v \<in> set vs. nesting v \<le> depth"
  shows "conn_op clk depth node partss cn w =
    (Inr (map wire_value vs), cn, w\<lparr>servers := od_set node s1 (servers w), tick := tick w + length partss\<rparr>)"
proof -
  have shift: "run_each (\<lambda>i. clk (k + i)) n cs s0 = run_each clk (k + n) cs s0" for k n cs s0
    by (induction cs arbitrary: n s0) (auto split: prod.split action.split bool.split)
  have loop: "client_loop (\<lambda>i. clk (tick w + i)) (\<lambda>_. 0) 0 True [] (concat (map encode_command cmds)) s = (Peer_closed, b, True, s1)"
    using client_loop_many [OF cmds(2), of "\<lambda>i. clk (tick w + i)" 0 s vs s1 b "[]"] run vs(1) by (simp add: shift)
  have len: "length vs = length partss"
    using run_each_length [OF run] cmds(1) by (simp add: list_all2_lengthD)
  have replies: "read_n (read_reply depth) (length partss) b = Inr (map wire_value vs, [])"
    using read_replies_encode [OF vs, of "[]"] len by simp
  have cn': "cn = \<lparr>cauthed = True, unread = [], copen = True\<rparr>"
    using cn by (cases cn) (simp add: good_conn_def)
  show ?thesis
    using encode_each_commands [OF cmds(1)] by (simp add: conn_op_def s cn' loop replies)
qed

lemma conn_op_one:
  assumes cn: "good_conn cn" and s: "od_get (servers w) node = Some s"
    and cmd: "those (map arg_bytes parts) = Some cmd" "cmd \<noteq> []" "ok_command cmd"
    and run: "handle_command (clk (tick w)) True cmd s = (Send v, True, s1)"
    and v: "encode v = Inr b" "ok_reply v" "nesting v \<le> depth"
  shows "conn_op clk depth node [parts] cn w =
    (Inr [wire_value v], cn, w\<lparr>servers := od_set node s1 (servers w), tick := Suc (tick w)\<rparr>)"
  using conn_op_many [where clk = clk and partss = "[parts]" and cmds = "[cmd]" and vs = "[v]", OF cn s] cmd run v by simp


section \<open>Replies\<close>

text \<open>What the connection can carry back.\<close>

definition good_reply :: "pyobj \<Rightarrow> bool" where
  "good_reply v \<longleftrightarrow> (\<exists>b. encode v = Inr b) \<and> ok_reply v \<and> nesting v \<le> 2 \<and> \<not> is_error v"

text \<open>The same for a reply that may be an error.\<close>

definition carried :: "pyobj \<Rightarrow> bool" where
  "carried v \<longleftrightarrow> (\<exists>b. encode v = Inr b) \<and> ok_reply v \<and> nesting v \<le> 2"

lemma good_carried: "good_reply v \<Longrightarrow> carried v"
  by (simp add: good_reply_def carried_def)

lemma carried_int: "INT64_MIN \<le> n \<Longrightarrow> n \<le> INT64_MAX \<Longrightarrow> carried (PyInt n)"
proof -
  assume "INT64_MIN \<le> n" "n \<le> INT64_MAX"
  then have h: "header_int n" by (rule header_int64)
  then have "length (dec_nat (nat \<bar>n\<bar>)) \<le> 20" unfolding header_int_def by (intro length_dec_nat) simp_all
  with h show ?thesis by (simp add: carried_def int_max_str_digits_def)
qed

lemma carried_error:
  assumes "is_ascii msg" and "LF \<notin> set msg" and "Suc (length msg) < STREAM_LIMIT"
  shows "carried (Error (ascii_str msg))"
  using assms by (simp add: carried_def line_text_def utf8_encode_ascii)

lemma wire_bytes [simp]: "wire_value (bytes_reply x) = bytes_reply x"
  by (simp add: bytes_reply_def split: option.split)

lemma good_bytes: "ok_reply (bytes_reply x) \<Longrightarrow> good_reply (bytes_reply x)"
  by (auto simp: good_reply_def bytes_reply_def is_error_def arg_bytes_def split: option.splits)

lemma good_OK: "good_reply OK" "wire_value OK = PyArg (word_arg ''OK'')"
proof -
  have "ok_reply OK \<and> \<not> isl (encode OK) \<and> nesting OK \<le> 2 \<and> \<not> is_error OK" by code_simp
  then show "good_reply OK" by (cases "encode OK") (auto simp: good_reply_def)
qed (simp add: OK_def)

lemma good_bit: "good_reply (PyInt 0)" "good_reply (PyInt 1)"
proof -
  have "\<not> isl (encode (PyInt 0))" "\<not> isl (encode (PyInt 1))" by code_simp+
  then show "good_reply (PyInt 0)" "good_reply (PyInt 1)"
    by (cases "encode (PyInt 0)"; cases "encode (PyInt 1)"; simp add: good_reply_def is_error_def)+
qed

lemma good_list:
  assumes "list_all ok_reply (map bytes_reply xs)" and "int (length xs) \<le> MAX_ARRAY_LENGTH"
  shows "good_reply (PyList (map bytes_reply xs))"
proof -
  have "\<exists>b. encode_all (map bytes_reply xs) = Inr b"
    using assms(1)
  proof (induction xs)
    case (Cons x xs)
    then obtain b b' where "encode_all (map bytes_reply xs) = Inr b" "encode (bytes_reply x) = Inr b'"
      using good_bytes [of x] by (auto simp: good_reply_def)
    then show ?case by simp
  qed simp
  moreover have "\<forall>v \<in> set (map bytes_reply xs). nesting v \<le> 1"
    by (auto simp: bytes_reply_def split: option.split)
  then have "nesting (PyList (map bytes_reply xs)) \<le> 2" using fold_max_le [of nesting "map bytes_reply xs" 0 1] by simp
  ultimately show ?thesis using assms by (auto simp: good_reply_def is_error_def)
qed


section \<open>Authentication\<close>

lemma encode_OK: "encode OK = Inr (''+OK'' @ CRLF)"
  by code_simp

text \<open>AUTH with the password of the server, on a new connection.\<close>

lemma auth_word: "server_name (''AUTH'' # args) = ascii_str ''AUTH''" "ascii_str ''AUTH'' \<noteq> ascii_str ''QUIT''"
  by (simp_all add: server_name_def) code_simp+

lemma auth_accepted:
  assumes "requirepass s = Some p" and "utf8_encode p = Some raw"
  shows "handle_command c False [''AUTH'', raw] s = (Send OK, True, counted s)"
  using assms by (simp add: handle_command_def auth_word Let_def check_auth_def counted_def)

lemma auth_loop:
  assumes "requirepass s = Some p" and "utf8_encode p = Some raw" and "ok_command [''AUTH'', raw]"
  shows "client_loop clk (\<lambda>_. 0) n False [] (encode_command [''AUTH'', raw]) s = (Peer_closed, ''+OK'' @ CRLF, True, counted s)"
proof -
  have read: "read_command (encode_command [''AUTH'', raw]) = Inr (Some [''AUTH'', raw], [])"
    using read_command_encode [OF assms(3), of "[]"] by simp
  have "\<not> output_overflow 0 (counted s)" by (simp add: output_overflow_def)
  then show ?thesis
    using client_loop_many [of "[]" clk "Suc n" "counted s" "[]" "counted s" "[]" "''+OK'' @ CRLF"]
    by (subst client_loop.simps) (simp add: read auth_accepted [OF assms(1,2)] encode_OK)
qed

lemma connect_auth:
  assumes "od_get (servers w) n = Some s" and "requirepass s = Some p" and "utf8_encode p = Some raw"
    and "ok_command [''AUTH'', raw]" and "2 \<le> depth"
  shows "conn_connect clk depth (Some p) n w = (Inr \<lparr>cauthed = True, unread = [], copen = True\<rparr>,
    w\<lparr>servers := od_set n (counted s) (servers w), tick := Suc (tick w)\<rparr>)"
proof -
  have parts: "those (map arg_bytes [word_arg ''AUTH'', Str p]) = Some [''AUTH'', raw]"
  proof -
    have "arg_bytes (word_arg ''AUTH'') = Some ''AUTH''" by code_simp
    then show ?thesis using assms(3) by (simp add: arg_bytes_def)
  qed
  have payload: "encode_each (map command_obj [[word_arg ''AUTH'', Str p]]) = Inr [encode_command [''AUTH'', raw]]"
    using encode_each_commands [of "[[word_arg ''AUTH'', Str p]]" "[[''AUTH'', raw]]"] parts by simp
  have reply: "read_n (read_reply depth) 1 (''+OK'' @ CRLF) = Inr ([wire_value OK], [])"
    using read_replies_encode [of "[OK]" "''+OK'' @ CRLF" depth "[]"] good_OK encode_OK assms(5)
    by (simp add: good_reply_def)
  have "conn_op clk depth n [[word_arg ''AUTH'', Str p]] \<lparr>cauthed = False, unread = [], copen = True\<rparr> w =
    (Inr [wire_value OK], \<lparr>cauthed = True, unread = [], copen = True\<rparr>,
     w\<lparr>servers := od_set n (counted s) (servers w), tick := Suc (tick w)\<rparr>)"
    using payload reply by (simp add: conn_op_def assms(1) auth_loop [OF assms(2-4)])
  then show ?thesis by (simp add: conn_connect_def assms(1,2) good_OK(2))
qed


section \<open>The network\<close>

text \<open>The servers and the client have the same password or none, and no connection in a pool is out of step.\<close>

definition sendable_password :: "pystr option \<Rightarrow> bool" where
  "sendable_password pw \<longleftrightarrow> (case pw of None \<Rightarrow> True | Some p \<Rightarrow>
     (case utf8_encode p of None \<Rightarrow> False | Some raw \<Rightarrow> ok_bulk raw))"

definition net_ok :: "(nat \<Rightarrow> clock) \<Rightarrow> nat \<Rightarrow> cluster \<Rightarrow> net \<Rightarrow> bool" where
  "net_ok clk depth cl w \<longleftrightarrow> (\<forall>i. clock_ok (clk i)) \<and> 2 \<le> depth \<and> sendable_password (password cl) \<and>
     (\<forall>n s. od_get (servers w) n = Some s \<longrightarrow> open_server (password cl) s) \<and> (\<forall>n. list_all good_conn (pools w n))"

definition net_up :: "net \<Rightarrow> pystr \<Rightarrow> bool" where
  "net_up w n \<longleftrightarrow> od_get (servers w) n \<noteq> None"

definition net_shard :: "net \<Rightarrow> pystr \<Rightarrow> bytes \<rightharpoonup> bytes" where
  "net_shard w n = (case od_get (servers w) n of None \<Rightarrow> Map.empty | Some s \<Rightarrow> shard_data s)"

lemma open_counted: "open_server pw s \<Longrightarrow> open_server pw (counted s)" "shard_data (counted s) = shard_data s"
  by (auto simp: open_server_def plain_server_def shard_data_def)

text \<open>The connection a request gets: the one used last, or a new one, authenticated if need be.\<close>

lemma connect_open:
  assumes ok: "net_ok clk depth cl w" and s: "od_get (servers w) n = Some s"
  shows "\<exists>w0 s0. conn_connect clk depth (password cl) n w = (Inr \<lparr>cauthed = True, unread = [], copen = True\<rparr>, w0) \<and>
    pools w0 = pools w \<and> od_get (servers w0) = (od_get (servers w))(n \<mapsto> s0) \<and>
    open_server (password cl) s0 \<and> shard_data s0 = shard_data s"
proof (cases "password cl")
  case None
  have "requirepass s = None" using ok s None by (auto simp: net_ok_def open_server_def)
  with None ok s show ?thesis
    by (intro exI [of _ w] exI [of _ s]) (auto simp: conn_connect_def net_ok_def fun_eq_iff)
next
  case (Some p)
  have os: "open_server (Some p) s" using ok s Some by (auto simp: net_ok_def)
  obtain raw where raw: "utf8_encode p = Some raw" "ok_bulk raw"
    using ok Some by (auto simp: net_ok_def sendable_password_def split: option.splits)
  have "ok_command [''AUTH'', raw]"
    using raw(2) by (simp add: ok_command_def ok_bulk_def MAX_ARRAY_LENGTH_def MAX_BULK_LENGTH_def)
  from connect_auth [where depth = depth and clk = clk, OF s _ raw(1) this] os ok Some open_counted(1) [of "Some p" s] open_counted(2) [of s] show ?thesis
    by (auto simp: open_server_def net_ok_def fun_eq_iff)
qed

text \<open>A batch of commands on a shard, from what the server answers whatever its counters and the time are.\<close>

lemma batch_answer:
  assumes ok: "net_ok clk depth cl w" and s: "od_get (servers w) n = Some s"
    and cmds: "list_all2 (\<lambda>parts cmd. those (map arg_bytes parts) = Some cmd) partss cmds"
      "list_all (\<lambda>cmd. ok_command cmd \<and> cmd \<noteq> []) cmds"
    and run: "\<And>k s0. open_server (password cl) s0 \<Longrightarrow> shard_data s0 = shard_data s \<Longrightarrow>
      \<exists>s1. run_each clk k cmds s0 = Some (vs, s1) \<and> open_server (password cl) s1 \<and> shard_data s1 = sh"
    and vs: "encode_all vs = Inr b" "list_all ok_reply vs" "\<forall>v \<in> set vs. nesting v \<le> 2"
  shows "\<exists>w'. shard_batch clk depth cl n partss w = (Inr (map wire_value vs), w') \<and>
    net_ok clk depth cl w' \<and> net_up w' = net_up w \<and> net_shard w' = (net_shard w)(n := sh)"
proof -
  let ?idle = "pools w n" and ?fresh = "\<lparr>cauthed = True, unread = [], copen = True\<rparr>"
  let ?cn = "if ?idle = [] then ?fresh else hd ?idle"
  have good: "list_all good_conn ?idle" using ok by (simp add: net_ok_def)
  then have cn: "good_conn ?cn" by (cases ?idle) (auto simp: good_conn_def)
  obtain w0 s0 where new: "?idle = [] \<Longrightarrow> conn_connect clk depth (password cl) n w = (Inr ?fresh, w0)"
    and same: "?idle \<noteq> [] \<Longrightarrow> w0 = w" and pools: "pools w0 = pools w"
    and servers: "od_get (servers w0) = (od_get (servers w))(n \<mapsto> s0)" and s0: "open_server (password cl) s0" "shard_data s0 = shard_data s"
  proof (cases "?idle = []")
    case True
    with connect_open [OF ok s] that show ?thesis by blast
  next
    case False
    have "open_server (password cl) s" using ok s by (auto simp: net_ok_def)
    then show ?thesis using that [of w s] s False by (simp add: fun_eq_iff)
  qed
  obtain s1 where s1: "run_each clk (tick w0) cmds s0 = Some (vs, s1)" "open_server (password cl) s1" "shard_data s1 = sh"
    using run [OF s0] by blast
  let ?w1 = "w0\<lparr>servers := od_set n s1 (servers w0), tick := tick w0 + length partss\<rparr>"
  have "\<forall>v \<in> set vs. nesting v \<le> depth" using vs(3) ok by (auto simp: net_ok_def)
  then have op: "conn_op clk depth n partss ?cn w0 = (Inr (map wire_value vs), ?cn, ?w1)"
    using conn_op_many [OF cn _ cmds s1(1) vs(1,2)] servers by simp
  have pool: "pool_run (conn_connect clk depth (password cl) n) (conn_op clk depth n partss) n False ?idle w =
      (Inr (map wire_value vs), ?cn # tl ?idle, ?w1)"
    using new same op by (cases ?idle) simp_all
  let ?w' = "?w1\<lparr>pools := (pools w)(n := ?cn # tl ?idle)\<rparr>"
  have batch: "shard_batch clk depth cl n partss w = (Inr (map wire_value vs), ?w')"
    using pool pools by (simp add: shard_batch_def)
  have "list_all good_conn (?cn # tl ?idle)" using good cn by (cases ?idle) auto
  with ok s1(2) servers have "net_ok clk depth cl ?w'" by (auto simp: net_ok_def)
  moreover have "net_up ?w' = net_up w" "net_shard ?w' = (net_shard w)(n := sh)"
    using s s1(3) servers by (auto simp: net_up_def net_shard_def fun_eq_iff)
  ultimately show ?thesis using batch by blast
qed

lemma roundtrip_answer:
  assumes ok: "net_ok clk depth cl w" and s: "od_get (servers w) n = Some s"
    and cmd: "those (map arg_bytes parts) = Some cmd" "cmd \<noteq> []" "ok_command cmd"
    and run: "\<And>c s0. clock_ok c \<Longrightarrow> open_server (password cl) s0 \<Longrightarrow> shard_data s0 = shard_data s \<Longrightarrow>
      \<exists>s1. handle_command c True cmd s0 = (Send v, True, s1) \<and> open_server (password cl) s1 \<and> shard_data s1 = sh"
    and v: "good_reply v"
  shows "\<exists>w'. shard_roundtrip clk depth cl n parts w = (Inr (wire_value v), w') \<and>
    net_ok clk depth cl w' \<and> net_up w' = net_up w \<and> net_shard w' = (net_shard w)(n := sh)"
proof -
  have clock: "clock_ok (clk k)" for k using ok by (simp add: net_ok_def)
  obtain b where "encode v = Inr b" "ok_reply v" "nesting v \<le> 2" "\<not> is_error v" using v by (auto simp: good_reply_def)
  moreover have "\<exists>s1. run_each clk k [cmd] s0 = Some ([v], s1) \<and> open_server (password cl) s1 \<and> shard_data s1 = sh"
    if "open_server (password cl) s0" "shard_data s0 = shard_data s" for k s0
    using run [OF clock that, of k] by auto
  ultimately obtain w' where w': "shard_batch clk depth cl n [parts] w = (Inr [wire_value v], w')" "net_ok clk depth cl w'"
    "net_up w' = net_up w" "net_shard w' = (net_shard w)(n := sh)"
    using batch_answer [OF ok s, of "[parts]" "[cmd]" "[v]" sh b] cmd by auto
  have "shard_roundtrip clk depth cl n parts w = (Inr (wire_value v), w')"
    using \<open>\<not> is_error v\<close> by (cases v rule: wire_value.cases) (simp_all add: shard_roundtrip_def w'(1) is_error_def)
  with w' show ?thesis by blast
qed


section \<open>Commands on data\<close>

text \<open>A command on data, from what the dispatcher of the server does with it: at the server, and as a round trip.\<close>

lemma data_step:
  assumes os: "open_server pw s" and c: "clock_ok c" and f: "List.member data_words f" and cmd: "ok_command (f # args)"
    and free: "f = ''SET'' \<Longrightarrow> length args = 2" and m: "plain_server m s"
    and run: "fst (dispatch c (Bytes f # map Bytes args) (sstore s)) = Inr reply"
      "live (mono c) (snd (dispatch c (Bytes f # map Bytes args) (sstore s))) = (\<lambda>k. map_option (\<lambda>a. (PyArg a, None)) (m' k))"
  shows "\<exists>s1. handle_command c True (f # args) s = (Send reply, True, s1) \<and> open_server pw s1 \<and> plain_server m' s1"
proof -
  obtain st1 where d: "dispatch c (Bytes f # map Bytes args) (sstore s) = (Inr reply, st1)" using run(1) by (metis prod.collapse)
  with data_answer [OF os c f cmd free d, of m'] run(2) show ?thesis by simp
qed

lemma data_run:
  assumes os: "open_server pw s" and c: "clock_ok c" and f: "List.member data_words f" and cmd: "ok_command (f # args)"
    and free: "f = ''SET'' \<Longrightarrow> length args = 2"
    and run: "\<And>m. plain_server m s \<Longrightarrow> named (Bytes f) f \<Longrightarrow>
      fst (dispatch c (Bytes f # map Bytes args) (sstore s)) = Inr reply \<and>
      live (mono c) (snd (dispatch c (Bytes f # map Bytes args) (sstore s))) = (\<lambda>k. map_option (\<lambda>a. (PyArg a, None)) (upd m k)) \<and>
      good_reply reply"
    and upd: "\<And>m s1. plain_server m s \<Longrightarrow> plain_server (upd m) s1 \<Longrightarrow> shard_data s1 = sh"
  shows "\<exists>s1. handle_command c True (f # args) s = (Send reply, True, s1) \<and> open_server pw s1 \<and> shard_data s1 = sh \<and>
    good_reply reply"
proof -
  obtain m where m: "plain_server m s" using os by (auto simp: open_server_def)
  note r = run [OF m data_word(1) [OF f]]
  obtain s1 where "handle_command c True (f # args) s = (Send reply, True, s1)" "open_server pw s1" "plain_server (upd m) s1"
    using data_step [OF os c f cmd free m, of reply "upd m"] r by blast
  with upd [OF m] r show ?thesis by blast
qed

lemma data_roundtrip:
  assumes ok: "net_ok clk depth cl w" and up: "net_up w n" and f: "List.member data_words f"
    and parts: "those (map arg_bytes parts) = Some args" and cmd: "ok_command (f # args)"
    and run: "\<And>c s. clock_ok c \<Longrightarrow> open_server (password cl) s \<Longrightarrow> shard_data s = net_shard w n \<Longrightarrow>
      \<exists>s1. handle_command c True (f # args) s = (Send reply, True, s1) \<and> open_server (password cl) s1 \<and> shard_data s1 = sh \<and>
        good_reply reply"
  shows "\<exists>w'. shard_roundtrip clk depth cl n (word_arg f # parts) w = (Inr (wire_value reply), w') \<and>
    net_ok clk depth cl w' \<and> net_up w' = net_up w \<and> net_shard w' = (net_shard w)(n := sh)"
proof -
  obtain s where s: "od_get (servers w) n = Some s" using up by (auto simp: net_up_def)
  have os: "open_server (password cl) s" and clock: "clock_ok (clk 0)" using ok s by (auto simp: net_ok_def)
  have sh: "net_shard w n = shard_data s" using s by (simp add: net_shard_def)
  have "arg_bytes (word_arg f) = Some f"
    using data_word(2) [OF f] by (simp add: arg_bytes_def utf8_encode_ascii)
  then have those: "those (map arg_bytes (word_arg f # parts)) = Some (f # args)" using parts by simp
  have "good_reply reply" using run [OF clock os] sh by auto
  with roundtrip_answer [OF ok s those _ cmd _ this, of sh] run sh show ?thesis by fastforce
qed

lemma plain_view: "plain_server m s \<Longrightarrow> live t (sstore s) = (\<lambda>k. map_option (\<lambda>a. (PyArg a, None)) (m k))"
  by (simp add: plain_server_def holds_live)

lemma plain_cmd: "plain_server m s \<Longrightarrow> cmd_inv (sstore s)"
  by (simp add: plain_server_def holds_def)

lemma plain_live: "plain_server m s \<Longrightarrow> live t (sstore s) (Bytes b) \<noteq> None \<longleftrightarrow> shard_data s b \<noteq> None"
  by (simp add: plain_view shard_data_map)

section \<open>Each command\<close>

lemma ok_command_small: "List.member data_words f \<Longrightarrow> list_all ok_bulk bs \<Longrightarrow> length bs \<le> 2 \<Longrightarrow> ok_command (f # bs)"
proof -
  assume "List.member data_words f" and bs: "list_all ok_bulk bs" "length bs \<le> 2"
  moreover have "list_all ok_bulk data_words" by code_simp
  ultimately show "ok_command (f # bs)"
    by (auto simp: ok_command_def MAX_ARRAY_LENGTH_def list_all_iff List.member_iff)
qed

lemma get_run:
  assumes "open_server pw s" and "clock_ok c" and "ok_bulk b"
  shows "\<exists>s1. handle_command c True [''GET'', b] s = (Send (bytes_reply (shard_data s b)), True, s1) \<and> open_server pw s1 \<and>
    shard_data s1 = shard_data s \<and> good_reply (bytes_reply (shard_data s b))"
proof (rule data_run [where upd = id, OF assms(1,2)])
  fix m
  assume m: "plain_server m s" and f: "named (Bytes ''GET'') ''GET''"
  from dispatch_get [OF plain_cmd [OF m] f, of c "Bytes b"] plain_reply(1) [OF m, of "mono c" b]
    plain_reply(2) [OF m, of b] plain_view [OF m] good_bytes
  show "fst (dispatch c (Bytes ''GET'' # map Bytes [b]) (sstore s)) = Inr (bytes_reply (shard_data s b)) \<and>
    live (mono c) (snd (dispatch c (Bytes ''GET'' # map Bytes [b]) (sstore s))) =
      (\<lambda>k. map_option (\<lambda>a. (PyArg a, None)) (id m k)) \<and> good_reply (bytes_reply (shard_data s b))"
    by simp
next
  show "shard_data s1 = shard_data s" if "plain_server m s" "plain_server (id m) s1" for m s1
    using that by (simp add: shard_data_map fun_eq_iff)
qed (use assms(3) in \<open>auto simp: data_words_def List.member_iff intro: ok_command_small\<close>)

lemma set_run:
  assumes "open_server pw s" and "clock_ok c" and "ok_bulk b" and "ok_bulk x"
  shows "\<exists>s1. handle_command c True [''SET'', b, x] s = (Send OK, True, s1) \<and> open_server pw s1 \<and>
    shard_data s1 = (shard_data s)(b \<mapsto> x) \<and> good_reply OK"
proof (rule data_run [where upd = "\<lambda>m. m(Bytes b \<mapsto> Bytes x)", OF assms(1,2)])
  fix m
  assume m: "plain_server m s" and f: "named (Bytes ''SET'') ''SET''"
  have "no_evict (sstore s)" using m by (simp add: plain_server_def holds_def)
  note set = dispatch_set_plain [OF plain_cmd [OF m] this, where c = c and k = "Bytes b" and v = "Bytes x"]
  show "fst (dispatch c (Bytes ''SET'' # map Bytes [b, x]) (sstore s)) = Inr OK \<and>
    live (mono c) (snd (dispatch c (Bytes ''SET'' # map Bytes [b, x]) (sstore s))) =
      (\<lambda>k. map_option (\<lambda>a. (PyArg a, None)) ((m(Bytes b \<mapsto> Bytes x)) k)) \<and> good_reply OK"
    using set(1) set(2) [OF order_refl] good_OK(1) plain_view [OF m] by (auto simp: fun_eq_iff)
next
  show "shard_data s1 = (shard_data s)(b \<mapsto> x)" if "plain_server m s" "plain_server (m(Bytes b \<mapsto> Bytes x)) s1" for m s1
    using that by (auto simp: shard_data_map fun_eq_iff)
qed (use assms(3,4) in \<open>auto simp: data_words_def List.member_iff intro: ok_command_small\<close>)

lemma del_run:
  assumes "open_server pw s" and "clock_ok c" and "ok_bulk b"
  shows "\<exists>s1. handle_command c True [''DEL'', b] s = (Send (PyInt (if shard_data s b = None then 0 else 1)), True, s1) \<and>
    open_server pw s1 \<and> shard_data s1 = (shard_data s)(b := None) \<and> good_reply (PyInt (if shard_data s b = None then 0 else 1))"
proof (rule data_run [where upd = "\<lambda>m. m(Bytes b := None)", OF assms(1,2)])
  fix m
  assume m: "plain_server m s" and f: "named (Bytes ''DEL'') ''DEL''"
  have "int (card ({Bytes b} \<inter> dom (live (mono c) (sstore s)))) = (if shard_data s b = None then 0 else 1)"
    using plain_live [OF m, of "mono c" b] by (auto simp: Int_insert_left)
  then show "fst (dispatch c (Bytes ''DEL'' # map Bytes [b]) (sstore s)) = Inr (PyInt (if shard_data s b = None then 0 else 1)) \<and>
    live (mono c) (snd (dispatch c (Bytes ''DEL'' # map Bytes [b]) (sstore s))) =
      (\<lambda>k. map_option (\<lambda>a. (PyArg a, None)) ((m(Bytes b := None)) k)) \<and>
    good_reply (PyInt (if shard_data s b = None then 0 else 1))"
    using dispatch_del [OF plain_cmd [OF m] f, of "[Bytes b]" c] plain_view [OF m, of "mono c"] good_bit
    by (auto simp: fun_eq_iff restrict_map_def)
next
  show "shard_data s1 = (shard_data s)(b := None)" if "plain_server m s" "plain_server (m(Bytes b := None)) s1" for m s1
    using that by (auto simp: shard_data_map fun_eq_iff)
qed (use assms(3) in \<open>auto simp: data_words_def List.member_iff intro: ok_command_small\<close>)

lemma mget_run:
  assumes "open_server pw s" and "clock_ok c" and "bs \<noteq> []" and "ok_command (''MGET'' # bs)"
  shows "\<exists>s1. handle_command c True (''MGET'' # bs) s = (Send (PyList (map bytes_reply (map (shard_data s) bs))), True, s1) \<and>
    open_server pw s1 \<and> shard_data s1 = shard_data s \<and> good_reply (PyList (map bytes_reply (map (shard_data s) bs)))"
proof (rule data_run [where upd = id, OF assms(1,2) _ assms(4)])
  fix m
  assume m: "plain_server m s" and f: "named (Bytes ''MGET'') ''MGET''"
  have "int (length bs) \<le> MAX_ARRAY_LENGTH" using assms(4) by (simp add: ok_command_def)
  then have "good_reply (PyList (map bytes_reply (map (shard_data s) bs)))"
    using plain_reply(2) [OF m] by (intro good_list) (simp_all add: list_all_iff)
  then show "fst (dispatch c (Bytes ''MGET'' # map Bytes bs) (sstore s)) = Inr (PyList (map bytes_reply (map (shard_data s) bs))) \<and>
    live (mono c) (snd (dispatch c (Bytes ''MGET'' # map Bytes bs) (sstore s))) =
      (\<lambda>k. map_option (\<lambda>a. (PyArg a, None)) (id m k)) \<and> good_reply (PyList (map bytes_reply (map (shard_data s) bs)))"
    using dispatch_mget [OF plain_cmd [OF m] f, of "map Bytes bs" c] plain_view [OF m, of "mono c"]
      plain_reply(1) [OF m, of "mono c"] assms(3)
    by (simp add: comp_def)
next
  show "shard_data s1 = shard_data s" if "plain_server m s" "plain_server (id m) s1" for m s1
    using that by (simp add: shard_data_map fun_eq_iff)
qed (simp_all add: data_words_def List.member_iff)

lemma assign_pairs:
  "assign_all (arg_pairs (map Bytes bs)) (\<lambda>k. map_option (\<lambda>a. (PyArg a, None)) (m k)) =
   (\<lambda>k. map_option (\<lambda>a. (PyArg a, None)) (fold (\<lambda>(k, v) m. m(Bytes k \<mapsto> Bytes v)) (byte_pairs bs) m k))"
proof (induction bs arbitrary: m rule: byte_pairs.induct)
  case (1 k v rest)
  have "(\<lambda>ka. map_option (\<lambda>a. (PyArg a, None :: seconds option)) (m ka))(Bytes k \<mapsto> (PyArg (Bytes v), None)) =
      (\<lambda>ka. map_option (\<lambda>a. (PyArg a, None)) ((m(Bytes k \<mapsto> Bytes v)) ka))" by auto
  then show ?case using 1 [of "m(Bytes k \<mapsto> Bytes v)"] by simp
qed (simp_all add: assign_all_def)

lemma put_pairs:
  "(\<lambda>b. map_option bytes_of (fold (\<lambda>(k, v) m. m(Bytes k \<mapsto> Bytes v)) ps m (Bytes b))) = put_all ps (\<lambda>b. map_option bytes_of (m (Bytes b)))"
proof (induction ps arbitrary: m)
  case (Cons p ps)
  obtain k v where p: "p = (k, v)" by (cases p)
  have "(\<lambda>b. map_option bytes_of (m (Bytes b)))(k \<mapsto> v) = (\<lambda>b. map_option bytes_of ((m(Bytes k \<mapsto> Bytes v)) (Bytes b)))"
    by (auto simp: fun_eq_iff)
  then show ?case using Cons [of "m(Bytes k \<mapsto> Bytes v)"] p by simp
qed simp

lemma mset_run:
  assumes "open_server pw s" and "clock_ok c" and "bs \<noteq> []" and "even (length bs)" and "ok_command (''MSET'' # bs)"
  shows "\<exists>s1. handle_command c True (''MSET'' # bs) s = (Send OK, True, s1) \<and> open_server pw s1 \<and>
    shard_data s1 = put_all (byte_pairs bs) (shard_data s) \<and> good_reply OK"
proof (rule data_run [where upd = "\<lambda>m. fold (\<lambda>(k, v) m. m(Bytes k \<mapsto> Bytes v)) (byte_pairs bs) m", OF assms(1,2) _ assms(5)])
  let ?upd = "\<lambda>m. fold (\<lambda>(k, v) m. m(Bytes k \<mapsto> Bytes v)) (byte_pairs bs) m"
  fix m
  assume m: "plain_server m s" and f: "named (Bytes ''MSET'') ''MSET''"
  let ?st = "snd (dispatch c (Bytes ''MSET'' # map Bytes bs) (sstore s))"
  have "quiet (sstore s)" using m by (simp add: plain_server_def quiet_def holds_def wire_inv_def)
  from quiet.I_dispatch [OF this, of "Bytes ''MSET'' # map Bytes bs" c] m
  have "evicted ?st = evicted (sstore s)" by (simp add: quiet_def list_all_iff plain_server_def)
  with dispatch_mset [OF plain_cmd [OF m] f order_refl _ _ refl, of "map Bytes bs" c] assms(3,4) good_OK(1)
  show "fst (dispatch c (Bytes ''MSET'' # map Bytes bs) (sstore s)) = Inr OK \<and>
    live (mono c) ?st = (\<lambda>k. map_option (\<lambda>a. (PyArg a, None)) (?upd m k)) \<and> good_reply OK"
    by (simp add: plain_view [OF m] assign_pairs)
next
  show "shard_data s1 = put_all (byte_pairs bs) (shard_data s)"
    if "plain_server m s" "plain_server (fold (\<lambda>(k, v) m. m(Bytes k \<mapsto> Bytes v)) (byte_pairs bs) m) s1" for m s1
    unfolding shard_data_fun [OF that(1)] shard_data_fun [OF that(2)] by (rule put_pairs)
qed (simp_all add: data_words_def List.member_iff)


section \<open>The contract holds\<close>

lemma net_get:
  assumes "net_ok clk depth cl w" and "net_up w n" and "arg_bytes k = Some b" and "ok_bulk b"
  shows "\<exists>w'. shard_roundtrip clk depth cl n [word_arg ''GET'', k] w = (Inr (bytes_reply (net_shard w n b)), w') \<and>
    net_ok clk depth cl w' \<and> net_up w' = net_up w \<and> net_shard w' = net_shard w"
  using data_roundtrip [OF assms(1,2), of "''GET''" "[k]" "[b]" "bytes_reply (net_shard w n b)" "net_shard w n"]
    get_run [where b = b, OF _ _ assms(4)] assms(3,4) ok_command_small [of "''GET''" "[b]"]
  by (force simp: data_words_def List.member_iff)

lemma net_set:
  assumes "net_ok clk depth cl w" and "net_up w n" and "arg_bytes k = Some b" and "arg_bytes v = Some x"
    and "ok_bulk b" and "ok_bulk x"
  shows "\<exists>w'. shard_roundtrip clk depth cl n [word_arg ''SET'', k, v] w = (Inr (PyArg (word_arg ''OK'')), w') \<and>
    net_ok clk depth cl w' \<and> net_up w' = net_up w \<and> net_shard w' = (net_shard w)(n := (net_shard w n)(b \<mapsto> x))"
  using data_roundtrip [OF assms(1,2), of "''SET''" "[k, v]" "[b, x]" OK "(net_shard w n)(b \<mapsto> x)"]
    set_run [where b = b and x = x, OF _ _ assms(5,6)] assms(3-6) ok_command_small [of "''SET''" "[b, x]"]
  by (force simp: data_words_def List.member_iff good_OK(2))

lemma net_del:
  assumes "net_ok clk depth cl w" and "net_up w n" and "arg_bytes k = Some b" and "ok_bulk b"
  shows "\<exists>w'. shard_roundtrip clk depth cl n [word_arg ''DEL'', k] w =
      (Inr (PyInt (if net_shard w n b = None then 0 else 1)), w') \<and>
    net_ok clk depth cl w' \<and> net_up w' = net_up w \<and> net_shard w' = (net_shard w)(n := (net_shard w n)(b := None))"
  using data_roundtrip [OF assms(1,2), of "''DEL''" "[k]" "[b]" "PyInt (if net_shard w n b = None then 0 else 1)"
      "(net_shard w n)(b := None)"]
    del_run [where b = b, OF _ _ assms(4)] assms(3,4) ok_command_small [of "''DEL''" "[b]"]
  by (force simp: data_words_def List.member_iff)

lemma net_mget:
  assumes "net_ok clk depth cl w" and "net_up w n" and "those (map arg_bytes ks) = Some bs" and "bs \<noteq> []"
    and "ok_command (''MGET'' # bs)"
  shows "\<exists>w'. shard_roundtrip clk depth cl n (word_arg ''MGET'' # ks) w =
      (Inr (PyList (map (\<lambda>b. bytes_reply (net_shard w n b)) bs)), w') \<and>
    net_ok clk depth cl w' \<and> net_up w' = net_up w \<and> net_shard w' = net_shard w"
  using data_roundtrip [OF assms(1,2) _ assms(3,5), of "PyList (map bytes_reply (map (net_shard w n) bs))" "net_shard w n"]
    mget_run [where bs = bs, OF _ _ assms(4,5)]
  by (force simp: data_words_def List.member_iff comp_def)

lemma net_mset:
  assumes "net_ok clk depth cl w" and "net_up w n" and "those (map arg_bytes flat) = Some bs" and "bs \<noteq> []"
    and "even (length bs)" and "ok_command (''MSET'' # bs)"
  shows "\<exists>w'. shard_roundtrip clk depth cl n (word_arg ''MSET'' # flat) w = (Inr (PyArg (word_arg ''OK'')), w') \<and>
    net_ok clk depth cl w' \<and> net_up w' = net_up w \<and> net_shard w' = (net_shard w)(n := put_all (byte_pairs bs) (net_shard w n))"
  using data_roundtrip [OF assms(1,2) _ assms(3,6), of OK "put_all (byte_pairs bs) (net_shard w n)"]
    mset_run [where bs = bs, OF _ _ assms(4-6)]
  by (force simp: data_words_def List.member_iff good_OK(2))

text \<open>The contract, for the servers and connections of the model.\<close>

interpretation net: shard_service "shard_roundtrip clk depth cl" "net_ok clk depth cl" net_up net_shard
  for clk depth cl
  by unfold_locales (fact net_get net_mget net_set net_mset net_del)+

end
