(* ===== verification/Cluster_Pipeline.thy ===== *)
theory Cluster_Pipeline
  imports Cluster_Net
begin

text \<open>
  Pipelines over several shards. The client splits the commands by key, sends each shard its part, and puts the
  replies together. The specification runs the commands one after the other on one map; that the parts run on their
  own, in any order of the shards, makes no difference, because a command sees and changes its own key only.
\<close>

section \<open>The specification\<close>

datatype data_op = Read bytes | Write bytes bytes | Erase bytes | Count bytes int

text \<open>A counter: the number it holds after the increment, or what is wrong with it.\<close>

definition counted_up :: "bytes option \<Rightarrow> int \<Rightarrow> string + int" where
  "counted_up v n =
     (case (case v of None \<Rightarrow> Inr 0 | Some x \<Rightarrow> stored_int (PyArg (Bytes x))) of
        Inl msg \<Rightarrow> Inl msg
      | Inr k \<Rightarrow> if INT64_MIN \<le> k + n \<and> k + n \<le> INT64_MAX then Inr (k + n) else Inl overflow_msg)"

fun op_key :: "data_op \<Rightarrow> bytes" where
  "op_key (Read b) = b"
| "op_key (Write b x) = b"
| "op_key (Erase b) = b"
| "op_key (Count b n) = b"

fun op_cmd :: "data_op \<Rightarrow> bytes list" where
  "op_cmd (Read b) = [''GET'', b]"
| "op_cmd (Write b x) = [''SET'', b, x]"
| "op_cmd (Erase b) = [''DEL'', b]"
| "op_cmd (Count b n) = [''INCRBY'', b, str_int n]"

fun op_ok :: "data_op \<Rightarrow> bool" where
  "op_ok (Read b) = ok_bulk b"
| "op_ok (Write b x) = (ok_bulk b \<and> ok_bulk x)"
| "op_ok (Erase b) = ok_bulk b"
| "op_ok (Count b n) = (ok_bulk b \<and> INT64_MIN \<le> n \<and> n \<le> INT64_MAX)"

fun op_reply :: "data_op \<Rightarrow> (bytes \<rightharpoonup> bytes) \<Rightarrow> pyobj" where
  "op_reply (Read b) m = bytes_reply (m b)"
| "op_reply (Write b x) m = OK"
| "op_reply (Erase b) m = PyInt (if m b = None then 0 else 1)"
| "op_reply (Count b n) m =
     (case counted_up (m b) n of Inl msg \<Rightarrow> Error (ascii_str (''ERR '' @ msg)) | Inr x \<Rightarrow> PyInt x)"

fun op_map :: "data_op \<Rightarrow> (bytes \<rightharpoonup> bytes) \<Rightarrow> bytes \<rightharpoonup> bytes" where
  "op_map (Read b) m = m"
| "op_map (Write b x) m = m(b \<mapsto> x)"
| "op_map (Erase b) m = m(b := None)"
| "op_map (Count b n) m = (case counted_up (m b) n of Inl _ \<Rightarrow> m | Inr x \<Rightarrow> m(b \<mapsto> str_int x))"

fun run_ops :: "data_op list \<Rightarrow> (bytes \<rightharpoonup> bytes) \<Rightarrow> pyobj list \<times> (bytes \<rightharpoonup> bytes)" where
  "run_ops [] m = ([], m)"
| "run_ops (op # ops) m = map_prod (Cons (op_reply op m)) id (run_ops ops (op_map op m))"

lemma run_ops_length [simp]: "length (fst (run_ops ops m)) = length ops"
  by (induction ops arbitrary: m) simp_all

text \<open>The commands on some of the keys, on a map that agrees on these keys: the same replies, the same changes.\<close>

lemma op_local:
  assumes "m (op_key op) = m' (op_key op)"
  shows "op_reply op m = op_reply op m'" and "m b = m' b \<Longrightarrow> op_map op m b = op_map op m' b"
  using assms by (cases op; auto split: sum.split)+

lemma op_other: "b \<noteq> op_key op \<Longrightarrow> op_map op m b = m b"
  by (cases op) (auto split: sum.split)

lemma run_ops_filter:
  assumes "\<And>b. P b \<Longrightarrow> m' b = m b"
  shows "fst (run_ops (filter (\<lambda>op. P (op_key op)) ops) m') =
      map snd (filter (\<lambda>(op, r). P (op_key op)) (zip ops (fst (run_ops ops m)))) \<and>
    (\<forall>b. P b \<longrightarrow> snd (run_ops (filter (\<lambda>op. P (op_key op)) ops) m') b = snd (run_ops ops m) b)"
  using assms
proof (induction ops arbitrary: m m')
  case (Cons op ops)
  show ?case
  proof (cases "P (op_key op)")
    case True
    then have key: "m' (op_key op) = m (op_key op)" by (rule Cons.prems)
    have "op_map op m' b = op_map op m b" if "P b" for b
      using op_local(2) [of m' op m b] key Cons.prems [OF that] by simp
    from Cons.IH [OF this] True op_local(1) [of m' op m] key show ?thesis by simp
  next
    case False
    have "m' b = op_map op m b" if "P b" for b
      using op_other [of b op m] Cons.prems [OF that] that False by metis
    from Cons.IH [OF this] False show ?thesis by simp
  qed
qed simp

text \<open>The same by positions.\<close>

lemma filter_positions: "filter P xs = map ((!) xs) (filter (\<lambda>i. P (xs ! i)) [0..<length xs])"
proof -
  have "filter P (map ((!) xs) [0..<length xs]) = map ((!) xs) (filter (P \<circ> (!) xs) [0..<length xs])" by (rule filter_map)
  then show ?thesis by (simp add: map_nth comp_def)
qed

lemma run_ops_positions:
  assumes "\<And>b. P b \<Longrightarrow> m' b = m b" and "ix = filter (\<lambda>i. P (op_key (ops ! i))) [0..<length ops]"
  shows "fst (run_ops (map ((!) ops) ix) m') = map ((!) (fst (run_ops ops m))) ix"
    and "P b \<Longrightarrow> snd (run_ops (map ((!) ops) ix) m') b = snd (run_ops ops m) b"
proof -
  let ?rs = "fst (run_ops ops m)"
  have ops: "map ((!) ops) ix = filter (\<lambda>op. P (op_key op)) ops"
    using filter_positions [of "\<lambda>op. P (op_key op)" ops] assms(2) by simp
  have "filter (\<lambda>i. case zip ops ?rs ! i of (op, r) \<Rightarrow> P (op_key op)) [0..<length ops] = ix"
    unfolding assms(2) by (rule filter_cong) auto
  then have "filter (\<lambda>(op, r). P (op_key op)) (zip ops ?rs) = map ((!) (zip ops ?rs)) ix"
    using filter_positions [of "\<lambda>(op, r). P (op_key op)" "zip ops ?rs"] by simp
  moreover have "map snd (map ((!) (zip ops ?rs)) ix) = map ((!) ?rs) ix" by (auto simp: assms(2))
  ultimately show "fst (run_ops (map ((!) ops) ix) m') = map ((!) ?rs) ix"
    using run_ops_filter [of P m' m ops, OF assms(1)] by (simp add: ops)
  show "P b \<Longrightarrow> snd (run_ops (map ((!) ops) ix) m') b = snd (run_ops ops m) b"
    using run_ops_filter [of P m' m ops, OF assms(1)] by (simp add: ops)
qed


section \<open>The client\<close>

definition asks :: "arg list \<Rightarrow> data_op \<Rightarrow> bool" where
  "asks parts op \<longleftrightarrow> op_ok op \<and> those (map arg_bytes parts) = Some (op_cmd op)"

lemma asks_key: "asks parts op \<Longrightarrow> arg_bytes (parts ! 1) = Some (op_key op)"
proof -
  assume a: "asks parts op"
  then have "length parts = length (op_cmd op)" using length_those [of "map arg_bytes parts"] by (auto simp: asks_def)
  then have "1 < length parts" by (cases op) auto
  with a those_map_nth [of arg_bytes parts "op_cmd op" 1] show "arg_bytes (parts ! 1) = Some (op_key op)"
    by (cases op) (auto simp: asks_def)
qed

locale batch_service =
  fixes brt :: "'w batch_roundtrip" and ok :: "'w \<Rightarrow> bool" and up :: "'w \<Rightarrow> pystr \<Rightarrow> bool"
    and shard :: "'w \<Rightarrow> pystr \<Rightarrow> bytes \<rightharpoonup> bytes"
  assumes batch_law: "ok w \<Longrightarrow> up w n \<Longrightarrow> list_all2 asks partss ops \<Longrightarrow>
      \<exists>w'. brt n partss w = (Inr (map wire_value (fst (run_ops ops (shard w n)))), w') \<and>
        ok w' \<and> up w' = up w \<and> shard w' = (shard w)(n := snd (run_ops ops (shard w n)))"
begin

lemma execute_map:
  assumes ok: "ok w" and r: "routes digest cl (up w)" and asks: "list_all2 asks partss ops"
  shows "\<exists>w'. execute_many digest brt cl partss raise_on_error w =
      (let replies = map wire_value (fst (run_ops ops (cluster_map digest cl (shard w))))
       in case first_error replies of
            Some m \<Rightarrow> if raise_on_error then Inl (ClusterError m) else Inr replies
          | None \<Rightarrow> Inr replies, w') \<and>
    ok w' \<and> up w' = up w \<and> cluster_map digest cl (shard w') = snd (run_ops ops (cluster_map digest cl (shard w)))"
proof -
  let ?m = "cluster_map digest cl (shard w)"
  let ?rs = "fst (run_ops ops ?m)" and ?rn = "\<lambda>i. route digest cl (op_key (ops ! i))"
  have len: "length ops = length partss" using asks by (simp add: list_all2_lengthD)
  have nf: "node_for digest cl (partss ! i ! 1) = Inr (?rn i)" if "i < length partss" for i
    using node_for_route [OF r] asks_key list_all2_nthD [OF asks that] by blast
  have "\<exists>n. node_for digest cl key = Inr n" if "(key, xs) \<in> set (indexed (\<lambda>parts. parts ! 1) partss)" for key xs
    using that nf by (auto simp: indexed_def)
  then obtain groups where g: "group_loop (node_for digest cl) (indexed (\<lambda>parts. parts ! 1) partss) [] = Inr groups"
    using group_loop_total by blast
  have routed: "routed ?rn (length ops) groups" using group_indexes [OF g nf] by (simp add: len)
  define mine where "mine n = filter (\<lambda>i. ?rn i = n) [0..<length ops]" for n
  have local: "fst (run_ops (map ((!) ops) (mine n)) (shard w n)) = map ((!) ?rs) (mine n)"
    "route digest cl b = n \<Longrightarrow> snd (run_ops (map ((!) ops) (mine n)) (shard w n)) b = snd (run_ops ops ?m) b" for n b
    using run_ops_positions [of "\<lambda>b. route digest cl b = n" "shard w n" ?m "mine n" ops]
    by (auto simp: cluster_map_def mine_def)
  define same where "same w' \<longleftrightarrow> ok w' \<and> up w' = up w" for w'
  let ?upd = "\<lambda>n m. snd (run_ops (map ((!) ops) (mine n)) m)"
  let ?g = "\<lambda>(n, ix) m. zip ix (map wire_value (fst (run_ops (map ((!) ops) (mine n)) m)))"
  have step: "\<exists>w2. run_batch brt partss x w1 = (Inr (?g x (shard w1 (fst x))), w2) \<and> same w2 \<and>
      shard w2 = (shard w1)(fst x := ?upd (fst x) (shard w1 (fst x)))"
    if x: "x \<in> set groups" and w1: "same w1" for x w1
  proof -
    obtain n ix where nx: "x = (n, ix)" by (cases x)
    have ix: "ix = mine n" and n: "n \<in> ?rn ` {..<length ops}"
      using routed_group [OF routed] x by (auto simp: nx mine_def)
    have "up w1 n" using r n w1 by (auto simp: routes_def same_def)
    moreover have "list_all2 asks (map (\<lambda>i. partss ! i) ix) (map ((!) ops) ix)"
      using list_all2_nthD [OF asks] len by (auto simp: list.rel_map list_all2_same ix mine_def)
    ultimately show ?thesis
      using batch_law [of w1 n "map (\<lambda>i. partss ! i) ix" "map ((!) ops) ix"] w1
      by (auto simp: run_batch_def nx ix same_def)
  qed
  obtain w' where w': "gather (run_batch brt partss) groups w = (Inr (map (\<lambda>x. ?g x (shard w (fst x))) groups), w')" "same w'"
    and sh: "\<And>n. shard w' n = (if n \<in> fst ` set groups then ?upd n (shard w n) else shard w n)"
  proof -
    have "distinct (map fst groups)" using routed by (simp add: routed_def)
    from gather_keyed [where view = shard and upd = ?upd and ok = same and f = "run_batch brt partss" and g = ?g, OF step this] ok
    show ?thesis using that by (auto simp: same_def)
  qed
  have groups: "map (\<lambda>x. ?g x (shard w (fst x))) groups = map (\<lambda>(n, ix). map (\<lambda>i. (i, wire_value (?rs ! i))) ix) groups"
  proof (rule map_cong [OF refl])
    fix x
    assume x: "x \<in> set groups"
    obtain n ix where nx: "x = (n, ix)" by (cases x)
    with x have "ix = mine n" using routed_group(1) [OF routed] by (simp add: mine_def)
    then show "?g x (shard w (fst x)) = (case x of (n, ix) \<Rightarrow> map (\<lambda>i. (i, wire_value (?rs ! i))) ix)"
      by (simp add: nx local(1) zip_map2 zip_same_conv_map comp_def)
  qed
  have "fill (replicate (length partss) PyNone) (concat (map (\<lambda>x. ?g x (shard w (fst x))) groups)) = map wire_value ?rs"
    unfolding groups using fill_routed [OF routed, of "replicate (length partss) PyNone" "\<lambda>n i. wire_value (?rs ! i)"]
    by (auto simp: len intro: nth_equalityI)
  moreover have "cluster_map digest cl (shard w') = snd (run_ops ops ?m)"
  proof
    fix b
    let ?n = "route digest cl b"
    show "cluster_map digest cl (shard w') b = snd (run_ops ops ?m) b"
    proof (cases "?n \<in> fst ` set groups")
      case True
      then show ?thesis using local(2) [OF refl] by (simp add: cluster_map_def sh)
    next
      case False
      then have "?rn i \<noteq> ?n" if "i < length ops" for i using that routed by (auto simp: routed_def) (metis image_eqI lessThan_iff)
      then have "mine ?n = []" by (auto simp: mine_def filter_empty_conv)
      with local(2) [of b ?n] False show ?thesis by (simp add: cluster_map_def sh)
    qed
  qed
  ultimately show ?thesis
    using w' by (intro exI [of _ w']) (simp add: execute_many_def g [simplified] Let_def same_def split: option.split)
qed

end


section \<open>The servers of the model\<close>

text \<open>What is wrong with a counter fits into one line of a reply.\<close>

lemma length_int_digits: "int_digits s = Some ds \<Longrightarrow> length ds \<le> length s"
proof (induction s arbitrary: ds rule: int_digits.induct)
  case (3 c d cs)
  then show ?case by (cases "d = CHR ''_''") (fastforce split: if_splits)+
qed (auto split: if_splits)

lemma length_py_strip: "length (py_strip s) \<le> length s"
  using length_dropWhile_le [of is_space_byte "rev (dropWhile is_space_byte s)"] length_dropWhile_le [of is_space_byte s]
  by (simp add: py_strip_def)

lemma too_many_digits: "py_int_bytes s = Inl (Too_many_digits n) \<Longrightarrow> n \<le> length s"
  using length_py_strip [of s]
  by (auto simp: py_int_bytes_def unsigned_int_def map_sum_eq_Inl split: list.splits if_splits option.splits dest!: length_int_digits)

lemma counter_message:
  assumes "ok_bulk x" and "stored_int (PyArg (Bytes x)) = Inl msg"
  shows "carried (Error (ascii_str (''ERR '' @ msg)))"
proof -
  have plain: "is_ascii (''ERR '' @ msg') \<and> LF \<notin> set (''ERR '' @ msg') \<and> Suc (length (''ERR '' @ msg')) < STREAM_LIMIT"
    if "msg' = not_integer_msg \<or> msg' = int_error_msg Invalid_literal" for msg'
  proof -
    have "list_all (\<lambda>m. is_ascii (''ERR '' @ m) \<and> LF \<notin> set (''ERR '' @ m) \<and> Suc (length (''ERR '' @ m)) < STREAM_LIMIT)
        [not_integer_msg, int_error_msg Invalid_literal]" by code_simp
    with that show ?thesis by auto
  qed
  have digits: "is_ascii (''ERR '' @ int_error_msg (Too_many_digits n)) \<and> LF \<notin> set (''ERR '' @ int_error_msg (Too_many_digits n)) \<and>
      Suc (length (''ERR '' @ int_error_msg (Too_many_digits n))) < STREAM_LIMIT" if "n \<le> length x" for n
  proof -
    have h: "header_int (int n)" using assms(1) that by (simp add: ok_bulk_def MAX_BULK_LENGTH_def header_int_def)
    have "\<not> is_digit LF" by code_simp
    then have "LF \<notin> set (str_int (int n))" using dec_nat_digits [of n] by (auto simp: str_int_def list_all_iff)
    with length_str_int [OF h] is_ascii_str_int [of "int n"] show ?thesis
      by (simp add: int_error_msg_def STREAM_LIMIT_def LF_def)
  qed
  have "msg = not_integer_msg \<or> (\<exists>e. msg = int_error_msg e \<and> py_int_str (ascii_decode x) = Inl e)"
    using assms(2) by (auto simp: stored_int_def stored_text_def split: if_splits sum.splits)
  then have "is_ascii (''ERR '' @ msg) \<and> LF \<notin> set (''ERR '' @ msg) \<and> Suc (length (''ERR '' @ msg)) < STREAM_LIMIT"
  proof (elim disjE exE conjE)
    fix e
    assume e: "msg = int_error_msg e" "py_int_str (ascii_decode x) = Inl e"
    show ?thesis
    proof (cases e)
      case (Too_many_digits n)
      then have "n \<le> length x" using too_many_digits [of _ n] e(2) by (force simp: py_int_str_def ascii_decode_def)
      then show ?thesis unfolding e(1) Too_many_digits by (rule digits)
    qed (use plain [of msg] e(1) in blast)
  qed (use plain [of msg] in blast)
  then show ?thesis by (intro carried_error) blast+
qed

lemma bulk_str_int: "INT64_MIN \<le> n \<Longrightarrow> n \<le> INT64_MAX \<Longrightarrow> ok_bulk (str_int n)"
  using length_str_int [OF header_int64, of n] by (simp add: ok_bulk_def MAX_BULK_LENGTH_def)

lemma count_run:
  assumes "open_server pw s" and "clock_ok c" and "op_ok (Count b n)"
  shows "\<exists>s1. handle_command c True [''INCRBY'', b, str_int n] s = (Send (op_reply (Count b n) (shard_data s)), True, s1) \<and>
    open_server pw s1 \<and> shard_data s1 = op_map (Count b n) (shard_data s) \<and> carried (op_reply (Count b n) (shard_data s))"
proof -
  obtain m where m: "plain_server m s" using assms(1) by (auto simp: open_server_def)
  have word: "List.member data_words ''INCRBY''" by code_simp
  have ok: "ok_command [''INCRBY'', b, str_int n]"
    using assms(3) bulk_str_int [of n] by (intro ok_command_small [OF word]) simp_all
  have "counter_delta ''INCRBY'' [Bytes (str_int n)] = Some n"
    using assms(3) cmd_parse_int_str_int [of n "Bytes (str_int n)"] by (simp add: counter_delta_def)
  note run = counter_commands [OF data_word(1) [OF word] this, of c "Bytes b" "sstore s"]
  let ?r = "map_counter (Bytes b) n m"
  have h: "holds m (sstore s)" using m by (simp add: plain_server_def)
  note eff = effectD [OF effect_incr h, where c = c and k1 = "Bytes b" and delta1 = n]
  have held: "shard_data s b = map_option bytes_of (m (Bytes b))" using m by (rule shard_data_map)
  have bytes: "a = Bytes (bytes_of a) \<and> ok_bulk (bytes_of a)" if "m (Bytes b) = Some a" for a
    using plain_values [OF m that] by (auto simp: wire_arg_def split: arg.splits)
  have counter: "fst ?r = counted_up (shard_data s b) n \<and>
      (\<forall>k. map_option bytes_of (snd ?r (Bytes k)) = op_map (Count b n) (shard_data s) k)"
    using bytes by (cases "m (Bytes b)")
      (auto simp: map_counter_def counted_up_def held shard_data_map [OF m] Let_def split: sum.split arg.split)
  have reply: "fst (dispatch c (Bytes ''INCRBY'' # map Bytes [b, str_int n]) (sstore s)) = Inr (op_reply (Count b n) (shard_data s))"
    using run eff(1) counter by (simp add: incr_by_def reply_or_raise_def split: sum.split)
  have "snd (dispatch c (Bytes ''INCRBY'' # map Bytes [b, str_int n]) (sstore s)) =
      snd (store_incr (mono c) (mono c) (Bytes b) n (sstore s))" using run by (simp add: incr_by_def)
  with holds_live [OF eff(2)] have view: "live (mono c) (snd (dispatch c (Bytes ''INCRBY'' # map Bytes [b, str_int n]) (sstore s))) =
      (\<lambda>k. map_option (\<lambda>a. (PyArg a, None)) (snd ?r k))" by simp
  obtain s1 where s1: "handle_command c True [''INCRBY'', b, str_int n] s = (Send (op_reply (Count b n) (shard_data s)), True, s1)"
    "open_server pw s1" "plain_server (snd ?r) s1"
    using data_step [OF assms(1,2) word ok _ m reply view] by auto
  have "shard_data s1 = op_map (Count b n) (shard_data s)"
    using counter shard_data_map [OF s1(3)] by (auto simp: fun_eq_iff)
  moreover have "carried (op_reply (Count b n) (shard_data s))"
  proof (cases "counted_up (shard_data s b) n")
    case (Inl msg)
    show ?thesis
    proof (cases "\<exists>x. shard_data s b = Some x \<and> stored_int (PyArg (Bytes x)) = Inl msg")
      case True
      then obtain x where x: "shard_data s b = Some x" "stored_int (PyArg (Bytes x)) = Inl msg" by blast
      then have "ok_bulk x" using bytes held by auto
      from counter_message [OF this x(2)] Inl show ?thesis by simp
    next
      case False
      with Inl have "msg = overflow_msg" by (auto simp: counted_up_def split: option.splits sum.splits if_splits)
      moreover have "is_ascii (''ERR '' @ overflow_msg) \<and> LF \<notin> set (''ERR '' @ overflow_msg) \<and>
          Suc (length (''ERR '' @ overflow_msg)) < STREAM_LIMIT" by code_simp
      ultimately show ?thesis using Inl carried_error [of "''ERR '' @ overflow_msg"] by simp
    qed
  next
    case (Inr x)
    then have "INT64_MIN \<le> x \<and> x \<le> INT64_MAX" by (auto simp: counted_up_def split: option.splits sum.splits if_splits)
    with Inr carried_int show ?thesis by simp
  qed
  ultimately show ?thesis using s1(1,2) by blast
qed

lemma op_run:
  assumes "op_ok op" and "open_server pw s" and "clock_ok c"
  shows "\<exists>s1. handle_command c True (op_cmd op) s = (Send (op_reply op (shard_data s)), True, s1) \<and> open_server pw s1 \<and>
    shard_data s1 = op_map op (shard_data s) \<and> carried (op_reply op (shard_data s))"
proof (cases op)
  case (Count b n)
  with count_run [OF assms(2,3), of b n] assms(1) show ?thesis by simp
qed (use assms get_run [OF assms(2,3)] set_run [OF assms(2,3)] del_run [OF assms(2,3)] good_carried in \<open>fastforce+\<close>)

lemma ops_run:
  assumes "list_all op_ok ops" and "open_server pw s" and "\<And>k. clock_ok (clk k)"
  shows "\<exists>s1. run_each clk k (map op_cmd ops) s = Some (fst (run_ops ops (shard_data s)), s1) \<and> open_server pw s1 \<and>
    shard_data s1 = snd (run_ops ops (shard_data s)) \<and> list_all carried (fst (run_ops ops (shard_data s)))"
  using assms(1,2)
proof (induction ops arbitrary: k s)
  case (Cons op ops)
  obtain s1 where s1: "handle_command (clk k) True (op_cmd op) s = (Send (op_reply op (shard_data s)), True, s1)"
    "open_server pw s1" "shard_data s1 = op_map op (shard_data s)" "carried (op_reply op (shard_data s))"
    using op_run [OF _ Cons.prems(2) assms(3), of op k] Cons.prems(1) by auto
  with Cons.IH [OF _ s1(2), of "Suc k"] Cons.prems(1) show ?case by auto
qed simp

lemma encode_all_good: "list_all carried vs \<Longrightarrow> \<exists>b. encode_all vs = Inr b"
  by (induction vs) (auto simp: carried_def simp del: encode.simps)

lemma ops_commands: "list_all op_ok ops \<Longrightarrow> list_all (\<lambda>cmd. ok_command cmd \<and> cmd \<noteq> []) (map op_cmd ops)"
proof (induction ops)
  case (Cons op ops)
  have "ok_command (op_cmd op) \<and> op_cmd op \<noteq> []"
    using Cons.prems by (cases op) (auto simp: data_words_def List.member_iff bulk_str_int intro!: ok_command_small)
  with Cons show ?case by simp
qed simp

lemma net_batch:
  assumes "net_ok clk depth cl w" and "net_up w n" and "list_all2 asks partss ops"
  shows "\<exists>w'. shard_batch clk depth cl n partss w = (Inr (map wire_value (fst (run_ops ops (net_shard w n)))), w') \<and>
    net_ok clk depth cl w' \<and> net_up w' = net_up w \<and> net_shard w' = (net_shard w)(n := snd (run_ops ops (net_shard w n)))"
proof -
  obtain s where s: "od_get (servers w) n = Some s" using assms(2) by (auto simp: net_up_def)
  have sh: "net_shard w n = shard_data s" using s by (simp add: net_shard_def)
  have os: "open_server (password cl) s" and clock: "\<And>k. clock_ok (clk k)" using assms(1) s by (auto simp: net_ok_def)
  have ok: "list_all op_ok ops" and cmds: "list_all2 (\<lambda>parts cmd. those (map arg_bytes parts) = Some cmd) partss (map op_cmd ops)"
    using assms(3) by (induction rule: list_all2_induct) (auto simp: asks_def)
  have good: "list_all carried (fst (run_ops ops (shard_data s)))" using ops_run [OF ok os clock] by blast
  obtain b where b: "encode_all (fst (run_ops ops (shard_data s))) = Inr b" using encode_all_good [OF good] by blast
  have run: "\<exists>s1. run_each clk k (map op_cmd ops) s0 = Some (fst (run_ops ops (shard_data s)), s1) \<and>
      open_server (password cl) s1 \<and> shard_data s1 = snd (run_ops ops (shard_data s))"
    if "open_server (password cl) s0" "shard_data s0 = shard_data s" for k s0
    using ops_run [where clk = clk and k = k, OF ok that(1) clock] that(2) by auto
  show ?thesis
    using batch_answer [OF assms(1) s cmds ops_commands [OF ok] run b] good sh by (auto simp: carried_def list_all_iff)
qed

interpretation net_batch: batch_service "shard_batch clk depth cl" "net_ok clk depth cl" net_up net_shard
  for clk depth cl
  by unfold_locales (fact net_batch)

end
