(* ===== verification/Reply_Types.thy ===== *)
theory Reply_Types
  imports Server_Access Server_Record Aof_Rewrite
begin

text \<open>
  The types of replies. Every command has the types of its replies; a reply has one of them or is an error. A store whose
  data came over the wire stays one, and a reply of the right type can be encoded, so that no command the server executes
  fails because of what it answers.
\<close>

section \<open>Types\<close>

datatype reply_type =
    Status
  | Nil
  | Value
  | Values nat
  | Key_list
  | Int64
  | Count_upto int
  | Natural
  | Flag
  | Seconds_left

definition is_value :: "pyobj \<Rightarrow> bool" where
  "is_value v \<longleftrightarrow> v = PyNone \<or> wire_val v"

fun has_type :: "pyobj \<Rightarrow> reply_type \<Rightarrow> bool" where
  "has_type v Status = (v = OK \<or> v = SimpleString (ascii_str ''PONG''))"
| "has_type v Nil = (v = PyNone)"
| "has_type v Value = is_value v"
| "has_type v (Values n) = (case v of PyList xs \<Rightarrow> length xs = n \<and> list_all is_value xs | _ \<Rightarrow> False)"
| "has_type v Key_list = (case v of PyList xs \<Rightarrow> list_all wire_val xs | _ \<Rightarrow> False)"
| "has_type v Int64 = (case v of PyInt n \<Rightarrow> INT64_MIN \<le> n \<and> n \<le> INT64_MAX | _ \<Rightarrow> False)"
| "has_type v (Count_upto m) = (case v of PyInt n \<Rightarrow> 0 \<le> n \<and> n \<le> m | _ \<Rightarrow> False)"
| "has_type v Natural = (case v of PyInt n \<Rightarrow> 0 \<le> n \<and> n \<le> INT64_MAX | _ \<Rightarrow> False)"
| "has_type v Flag = (case v of PyBool _ \<Rightarrow> True | _ \<Rightarrow> False)"
| "has_type v Seconds_left = (case v of PyInt n \<Rightarrow> -2 \<le> n \<and> n \<le> MAX_FLOAT_MS | _ \<Rightarrow> False)"

text \<open>What a command may answer when it does not fail.\<close>

definition reply_types :: "string \<Rightarrow> arg list \<Rightarrow> reply_type list" where
  "reply_types n args =
     (if n = ''PING'' then (if args = [] then [Status] else [Value])
      else if n = ''SET'' then
        (case parse_set args of Inr opts \<Rightarrow> if oget opts then [Value] else [Status, Nil] | Inl _ \<Rightarrow> [])
      else if n = ''MGET'' then [Values (length args)]
      else if n = ''KEYS'' then [Key_list]
      else if n = ''DBSIZE'' then [Natural]
      else if n = ''TTL'' then [Seconds_left]
      else if n = ''DEL'' \<or> n = ''EXISTS'' then [Count_upto (int (length args))]
      else if List.member [''INCR'', ''DECR'', ''INCRBY'', ''DECRBY''] n then [Int64]
      else if List.member [''EXPIRE'', ''PEXPIRE'', ''PEXPIREAT'', ''PERSIST''] n then [Flag]
      else if List.member [''GET'', ''ECHO''] n then [Value]
      else [Status])"

definition typed :: "string \<Rightarrow> arg list \<Rightarrow> pyobj \<Rightarrow> bool" where
  "typed n args v \<longleftrightarrow> list_ex (has_type v) (reply_types n args)"


section \<open>Handlers answer with their type\<close>

lemma live_wire: "wire_inv st \<Longrightarrow> live t st k = Some (v, d) \<Longrightarrow> wire_val v"
  using all_vals_get [of "\<lambda>k v. wire_arg k \<and> wire_val v" st k]
  by (auto simp: wire_inv_def wire_store_def live_def split: option.splits if_splits)

lemma value_reply: "wire_inv st \<Longrightarrow> is_value (reply_of (live t st k))"
  by (auto simp: is_value_def reply_of_def dest: live_wire split: option.splits)

lemma value_lookup: "wire_inv st \<Longrightarrow> is_value (fst (lookup c k st))"
  using value_reply [of st "mono c" k] store_get_reply [of "mono c" k st] by (simp add: lookup_def case_prod_beta)

lemma values_lookup: "wire_inv st \<Longrightarrow> list_all is_value (fst (map_loop (lookup c) ks st)) \<and> length (fst (map_loop (lookup c) ks st)) = length ks"
  by (induction ks arbitrary: st) (simp_all add: value_lookup wire.I_lookup)

lemma count_upto: "0 \<le> fst (count_loop f ks st)" "fst (count_loop f ks st) \<le> int (length ks)"
proof -
  have "0 \<le> fst (count_loop f ks st) \<and> fst (count_loop f ks st) \<le> int (length ks)"
  proof (induction ks arbitrary: st)
    case (Cons k ks)
    from Cons [of "snd (f k st)"] show ?case by simp
  qed simp
  then show "0 \<le> fst (count_loop f ks st)" "fst (count_loop f ks st) \<le> int (length ks)" by simp_all
qed

lemma incr_range: "fst (incr_by c k n st) = Inr v \<Longrightarrow> has_type v Int64"
  by (auto simp: incr_by_def store_incr_def Let_def split: prod.splits option.splits sum.splits if_splits)

lemma stored_keys_wire: "wire_inv st \<Longrightarrow> list_all wire_arg (od_keys (data st))"
  by (auto simp: wire_inv_def wire_store_def all_vals_iff list_all_iff od_keys_def)

lemma keys_wire: "wire_inv st \<Longrightarrow> list_all wire_arg (fst (store_keys now st))"
  using stored_keys_wire [OF wire.I_sweep] by (simp add: store_keys_def Let_def)

lemma wire_val_PyArg [simp]: "wire_val (PyArg a) \<longleftrightarrow> wire_arg a"
  by (simp add: wire_val_def)

text \<open>The store is not larger than a machine holds, and its deadlines are ones that a float in milliseconds can express.\<close>

definition store_fits :: "clock \<Rightarrow> store \<Rightarrow> bool" where
  "store_fits c st \<longleftrightarrow> clock_ok c \<and> deadlines_ok c st \<and> int (length (data st)) \<le> INT64_MAX"

lemma deadline_bound:
  assumes "clock_ok c" and "\<bar>deadline_ms (wall c) x\<bar> < MAX_FLOAT_MS"
  shows "\<lceil>x\<rceil> \<le> MAX_FLOAT_MS"
proof -
  have "(of_int (deadline_ms (wall c) x) :: rat) \<le> of_int MAX_FLOAT_MS" using assms(2) by simp
  then have "(wall c + x) * 1000 \<le> of_int MAX_FLOAT_MS + 1"
    using py_round_bounds [of "(wall c + x) * 1000"] by (simp add: deadline_ms_def)
  moreover have "- (10 ^ 18) \<le> wall c" using assms(1) by (simp add: clock_ok_def abs_le_iff)
  moreover have "(10 ^ 22 :: rat) \<le> of_int MAX_FLOAT_MS" by (simp add: MAX_FLOAT_MS_def)
  ultimately have "x \<le> of_int MAX_FLOAT_MS" by simp
  then show ?thesis by (simp add: ceiling_le_iff)
qed

lemma live_fits:
  assumes "store_fits c st" and "live (mono c) st k = Some (v, Some d)"
  shows "\<lceil>d - mono c\<rceil> \<le> MAX_FLOAT_MS"
proof -
  obtain e where "od_get (data st) k = Some e" "expire_at e = Some d"
    using assms(2) by (auto simp: live_def split: option.splits if_splits)
  then have "\<bar>deadline_ms (wall c) (d - mono c)\<bar> < MAX_FLOAT_MS"
    using assms(1) by (fastforce simp: store_fits_def deadlines_ok_def entry_ms_def list_all_iff od_get_def dest!: map_of_SomeD)
  with assms(1) show ?thesis by (intro deadline_bound) (auto simp: store_fits_def)
qed

lemma ttl_typed:
  assumes "store_fits c st"
  shows "has_type (ttl_reply (fst (store_ttl (mono c) (mono c) k st))) Seconds_left"
proof -
  have "0 \<le> \<lceil>d - mono c\<rceil>" if "live (mono c) st k = Some (v, Some d)" for v d
    using that by (auto simp: live_def is_expired_def split: option.splits if_splits)
  moreover have "1 \<le> MAX_FLOAT_MS" by (simp add: MAX_FLOAT_MS_def)
  moreover have "mono c < d" if "live (mono c) st k = Some (v, Some d)" for v d
    using that by (auto simp: live_def is_expired_def split: option.splits if_splits)
  ultimately show ?thesis
    using live_fits [OF assms]
    by (fastforce simp: store_ttl_refines ttl_reply_def math_ceil_def max_def split: option.splits)
qed

lemma len_typed:
  assumes "store_inv st" and "store_fits c st"
  shows "int (fst (store_len (mono c) st)) \<le> INT64_MAX"
proof -
  have "fst (store_len (mono c) st) \<le> length (data st)"
    using sweep_expired_facts(2,6) [OF assms(1), of "mono c"] by (simp add: store_len_def Let_def)
  with assms(2) show ?thesis by (simp add: store_fits_def)
qed

lemma guarded_Inr: "fst (guarded m f st) = Inr v \<longleftrightarrow> (\<exists>x. m = Inr x \<and> fst (f x st) = Inr v)"
  by (cases m) (simp_all add: guarded_def)

lemma set_typed:
  assumes "wire_inv st" and "fst (cmd_set c args st) = Inr v"
  shows "typed ''SET'' args v"
proof -
  obtain opts where opts: "parse_set args = Inr opts" using assms(2) by (auto simp: cmd_set_def guarded_Inr)
  from cmd_set_run [OF wire_inv_cmd [OF assms(1)] opts, of c] assms(2) value_reply [OF assms(1), of "mono c" "okey opts"]
  show ?thesis by (auto simp: typed_def reply_types_def opts Let_def split: if_splits)
qed

lemma keys_typed:
  assumes "wire_inv st" and "fst (cmd_keys c args st) = Inr v"
  shows "has_type v Key_list"
  using assms(2) keys_wire [OF assms(1), of "mono c"]
  by (auto simp: cmd_keys_def case_prod_beta list_all_iff map_sum_eq_Inr dest!: match_keys_Inr split: if_splits list.splits)

lemma typed_handlers:
  assumes w: "wire_inv st" and fits: "store_fits c st" and args: "list_all wire_arg args"
  shows "list_all (\<lambda>(n, h). \<forall>v. fst (h c args st) = Inr v \<longrightarrow> typed n args v) COMMANDS"
proof -
  note unf = cmd_ping_def cmd_echo_def cmd_get_def cmd_mset_def cmd_mget_def cmd_incr_def cmd_decr_def cmd_incrby_def
    cmd_decrby_def cmd_del_def cmd_exists_def cmd_expire_def cmd_pexpire_def cmd_pexpireat_def cmd_ttl_def
    cmd_persist_def cmd_flushdb_def cmd_dbsize_def
  show ?thesis
    unfolding COMMANDS_def list.pred_inject
    using w args keys_typed [OF w] value_lookup [OF w] values_lookup [OF w] ttl_typed [OF fits] len_typed [OF wire_invD(1) [OF w] fits] incr_range set_typed [OF w]
    by (simp; intro conjI allI impI;
        auto simp: unf typed_def reply_types_def guarded_Inr require_def require_min_def returning_def is_value_def
          length_Suc_conv case_prod_beta list_all_iff count_upto
          split: list.splits sum.splits if_splits dest: incr_range)
qed


section \<open>Replies can be sent\<close>

lemma scalar_ascii: "list_all scalar (ascii_str s)"
proof -
  have "scalar (of_char c)" for c :: char using nat_of_char_less_256 [of c] unfolding scalar_def by linarith
  then show ?thesis by (simp add: ascii_str_def list_all_iff)
qed

lemma second_scalar:
  assumes "second_ok b0 b1" and "is_cont b2" and "0xE0 \<le> b0" "b0 \<le> 0xEF"
  shows "scalar ((b0 - 0xE0) * 4096 + (b1 - 0x80) * 64 + (b2 - 0x80))"
proof -
  have b: "b1 \<le> 0xBF" "0x80 \<le> b1" "b2 \<le> 0xBF" "0x80 \<le> b2" "b0 = 0xED \<longrightarrow> b1 \<le> 0x9F"
    using assms by (auto simp: second_ok_def is_cont_def)
  show ?thesis
  proof (cases "b0 < 0xED")
    case True
    then have "(b0 - 0xE0) * 4096 \<le> 12 * 4096" "(b1 - 0x80) * 64 \<le> 63 * 64" "b2 - 0x80 \<le> 63" using b by auto
    then show ?thesis unfolding scalar_def by linarith
  next
    case False
    then consider "b0 = 0xED" | "b0 = 0xEE" | "b0 = 0xEF" using assms(4) by linarith
    then show ?thesis using b by cases (auto simp: scalar_def)
  qed
qed

lemma third_scalar:
  assumes "second_ok b0 b1" and "is_cont b2" "is_cont b3" and "0xF0 \<le> b0" "b0 \<le> 0xF4"
  shows "scalar ((b0 - 0xF0) * 262144 + (b1 - 0x80) * 4096 + (b2 - 0x80) * 64 + (b3 - 0x80))"
proof -
  have b: "b1 \<le> 0xBF" "0x80 \<le> b1" "b2 \<le> 0xBF" "0x80 \<le> b2" "b3 \<le> 0xBF" "0x80 \<le> b3"
    "b0 = 0xF4 \<longrightarrow> b1 \<le> 0x8F" "b0 = 0xF0 \<longrightarrow> 0x90 \<le> b1"
    using assms by (auto simp: second_ok_def is_cont_def)
  consider "b0 = 0xF0" | "b0 = 0xF1" | "b0 = 0xF2" | "b0 = 0xF3" | "b0 = 0xF4" using assms(4,5) by linarith
  then show ?thesis using b by cases (auto simp: scalar_def)
qed

lemma scalar_decode_nats: "list_all scalar (utf8_decode_nats bs)"
proof (induction bs rule: utf8_decode_nats.induct)
  case (2 b0 bs)
  have r: "scalar REPLACEMENT" by (simp add: REPLACEMENT_def scalar_def)
  have one: "b0 < 0x80 \<Longrightarrow> scalar b0" by (simp add: scalar_def)
  have two: "scalar ((b0 - 0xC0) * 64 + (b1 - 0x80))" if "b0 \<le> 0xDF" "is_cont b1" for b1
    using that by (auto simp: scalar_def is_cont_def)
  from 2 r one two second_scalar third_scalar show ?case
    by (auto split: list.splits)
qed simp

lemma scalar_text: "list_all scalar (to_text (Bytes b))"
  by (simp add: to_text_def utf8_decode_def scalar_decode_nats)

lemma encode_wire_val: "wire_val v \<Longrightarrow> \<exists>b. encode v = Inr b"
  by (auto simp: wire_val_def wire_arg_def split: pyobj.splits arg.splits)

lemma encode_all_runs: "list_all (\<lambda>v. \<exists>b. encode v = Inr b) vs \<Longrightarrow> \<exists>b. encode_all vs = Inr b"
  by (induction vs) auto

lemma encode_values:
  assumes "list_all is_value vs"
  shows "\<exists>b. encode_all vs = Inr b"
  by (rule encode_all_runs) (use assms encode_wire_val in \<open>auto simp: list_all_iff is_value_def\<close>)

lemma encode_int:
  assumes "\<bar>n\<bar> \<le> MAX_FLOAT_MS"
  shows "\<exists>b. encode (PyInt n) = Inr b"
proof -
  have "MAX_FLOAT_MS < 10 ^ 400" by (simp add: MAX_FLOAT_MS_def)
  with assms have "nat \<bar>n\<bar> < 10 ^ 400" by (simp add: nat_less_iff)
  from length_dec_nat [OF _ this] show ?thesis by (auto simp: int_max_str_digits_def)
qed

lemma encode_text: "list_all scalar m \<Longrightarrow> \<exists>b. encode (SimpleString m) = Inr b" "list_all scalar m \<Longrightarrow> \<exists>b. encode (Error m) = Inr b"
  using utf8_encode_scalar [of m] by auto

lemma has_type_encode:
  assumes t: "has_type v ty" and m: "\<And>m. ty = Count_upto m \<Longrightarrow> m \<le> INT64_MAX"
  shows "\<exists>b. encode v = Inr b"
proof (cases v)
  case (PyInt n)
  have "INT64_MAX \<le> MAX_FLOAT_MS" "- INT64_MIN \<le> MAX_FLOAT_MS" "2 \<le> MAX_FLOAT_MS"
    by (simp_all add: INT64_MAX_def INT64_MIN_def MAX_FLOAT_MS_def)
  with t m have "\<bar>n\<bar> \<le> MAX_FLOAT_MS"
    unfolding PyInt by (cases ty) (auto simp: is_value_def wire_val_def OK_def abs_le_iff)
  then show ?thesis unfolding PyInt by (rule encode_int)
next
  case (PyList vs)
  have "list_all is_value vs"
    using t unfolding PyList by (cases ty) (auto simp: is_value_def wire_val_def OK_def list_all_iff)
  from encode_values [OF this] show ?thesis unfolding PyList by auto
next
  case (PyArg a)
  have "wire_val v" using t unfolding PyArg by (cases ty) (auto simp: is_value_def OK_def)
  then show ?thesis by (rule encode_wire_val)
next
  case (SimpleString m)
  have "m = ascii_str ''OK'' \<or> m = ascii_str ''PONG''"
    using t unfolding SimpleString by (cases ty) (auto simp: is_value_def wire_val_def OK_def)
  then show ?thesis unfolding SimpleString using encode_text(1) [OF scalar_ascii] by blast
qed (use t in \<open>(cases ty; simp add: is_value_def wire_val_def OK_def)+\<close>)

text \<open>Whatever is dispatched: the store stays typed, and what is returned has the type of the command, or is an error.\<close>

lemma dispatch_typed:
  assumes w: "wire_inv st" and fits: "store_fits c st" and cmd: "ok_command command" "command \<noteq> []"
    and run: "dispatch c (map Bytes command) st = (Inr v, st')"
  shows "wire_inv st'" and "(\<exists>m. v = Error m) \<or>
      (\<exists>n. named (Bytes (hd command)) n \<and> n \<in> fst ` set COMMANDS \<and> typed n (map Bytes (tl command)) v)"
    and "\<exists>b. encode v = Inr b"
proof -
  obtain f args where fa: "command = f # args" using cmd(2) by (cases command) auto
  have wire: "list_all wire_arg (map Bytes args)"
    using cmd(1) fa by (auto simp: ok_command_def list_all_iff wire_arg_def)
  show "wire_inv st'"
    using wire.I_dispatch [OF w, of "map Bytes command" c] cmd(1) run by (auto simp: ok_command_def list_all_iff wire_arg_def)
  have "(\<exists>m. v = Error m \<and> list_all scalar m) \<or>
      (\<exists>n. named (Bytes f) n \<and> n \<in> fst ` set COMMANDS \<and> typed n (map Bytes args) v)"
  proof (cases "command_handler (str_upper (to_text (Bytes f)))")
    case None
    with run fa scalar_ascii scalar_text [of f] show ?thesis by (auto simp: dispatch_def scalar_def)
  next
    case (Some h)
    obtain n where n: "(n, h) \<in> set COMMANDS" "str_upper (to_text (Bytes f)) = ascii_str n"
      using command_handler_in [OF Some] by blast
    have typed: "typed n (map Bytes args) x" if "fst (h c (map Bytes args) st) = Inr x" for x
      using typed_handlers [OF w fits wire] n(1) that by (auto simp: list_all_iff)
    have r: "reply_or_raise (ascii_str n) (fst (h c (map Bytes args) st)) = Inr v"
      using run fa Some n(2) by (cases "h c (map Bytes args) st") (simp add: dispatch_def)
    show ?thesis
    proof (cases "fst (h c (map Bytes args) st)")
      case (Inl e)
      with r scalar_ascii show ?thesis by (cases e) (auto simp: reply_or_raise_def scalar_def)
    next
      case (Inr x)
      with r typed [OF Inr] n show ?thesis by (force simp: named_def)
    qed
  qed
  moreover have "\<exists>b. encode v = Inr b" if t: "typed n (map Bytes args) v" for n
  proof -
    have "int (length args) \<le> INT64_MAX" using cmd(1) fa by (auto simp: ok_command_def MAX_ARRAY_LENGTH_def INT64_MAX_def)
    moreover obtain ty where "ty \<in> set (reply_types n (map Bytes args))" "has_type v ty"
      using t by (auto simp: typed_def list_ex_iff)
    moreover have "ty = Count_upto m \<longrightarrow> m = int (length args)" if "ty \<in> set (reply_types n (map Bytes args))" for ty m
      using that by (auto simp: reply_types_def split: if_splits sum.splits)
    ultimately show ?thesis by (intro has_type_encode [of v ty]) auto
  qed
  ultimately show "(\<exists>m. v = Error m) \<or>
      (\<exists>n. named (Bytes (hd command)) n \<and> n \<in> fst ` set COMMANDS \<and> typed n (map Bytes (tl command)) v)"
    and "\<exists>b. encode v = Inr b"
    using fa encode_text(2) by auto
qed

end
