(* ===== verification/Data_Properties.thy ===== *)
theory Data_Properties
  imports Reply_Types
begin

text \<open>
  What the protocol, the store and the commands guarantee, each with an instance on concrete data.
\<close>

section \<open>Data for the instances\<close>

definition noon :: clock where
  "noon = \<lparr>mono = 100, wall = 1000000\<rparr>"

text \<open>Two keys, the second with a deadline; three keys on a store that has room for two of them.\<close>

definition two_keys :: store where
  "two_keys =
     store_set 10 10 (Bytes ''b'') (PyArg (Bytes ''2'')) (Some 300)
       (store_set 5 5 (Bytes ''a'') (PyArg (Bytes ''1'')) None (fresh_store 0 ''allkeys-lru''))"



section \<open>The store\<close>

text \<open>C7: whatever methods of the store are called, at whatever readings of the clock, its accounting is exact, its heap
  holds every deadline, and under the eviction policy it respects its memory limit.\<close>

theorem store_always_ok: "store_reachable st \<Longrightarrow> store_inv st \<and> within_limit st"
  by (rule store_reachable_inv)

theorem store_always_ok_witness: "store_inv (fresh_store 10 ''noeviction'') \<and> within_limit (fresh_store 10 ''noeviction'')"
proof (rule store_always_ok)
  have "store_init 10 ''noeviction'' = Inr (fresh_store 10 ''noeviction'')" by code_simp
  then show "store_reachable (fresh_store 10 ''noeviction'')" by (rule reach_init)
qed

text \<open>C8: set refines an update of the visible map: the key has the new value and deadline, the keys that were evicted to
  make room are gone, never the key itself, and nothing else changes.\<close>

theorem set_refines:
  assumes "store_inv st" and "now' \<le> t"
  shows "let st' = store_set now now' k v ttl st; E = drop (length (evicted st)) (evicted st')
    in evicted st' = evicted st @ E \<and> k \<notin> set E \<and>
       live t st' = ((live t st)(k := view_entry t v (map_option (\<lambda>x. now + x) ttl))) |` (- set E)"
  unfolding Let_def by (rule store_set_refines [OF assms refl refl])

theorem set_refines_witness:
  "let st' = store_set 100 100 (Bytes ''a'') (PyArg (Bytes ''9'')) (Some 5) two_keys;
       E = drop (length (evicted two_keys)) (evicted st')
   in evicted st' = evicted two_keys @ E \<and> Bytes ''a'' \<notin> set E \<and>
      live 100 st' = ((live 100 two_keys)(Bytes ''a'' :=
        view_entry 100 (PyArg (Bytes ''9'')) (map_option (\<lambda>x. 100 + x) (Some 5)))) |` (- set E)"
proof (rule set_refines)
  show "store_inv two_keys" by code_simp
qed simp



text \<open>C10: a sweep removes exactly the entries whose deadline has passed, keeps the order of the others and the invariant,
  and returns and counts the number it removed.\<close>

theorem sweep_exact:
  assumes "store_inv st"
  shows "case sweep_expired now st of (n, st') \<Rightarrow>
    store_inv st' \<and> data st' = filter (\<lambda>(k, e). \<not> is_expired now e) (data st) \<and> n + length (data st') = length (data st) \<and>
    expired_keys st' = expired_keys st + n \<and> evicted st' = evicted st"
  using sweep_expired_facts [OF assms, of now] by (simp add: case_prod_beta)

theorem sweep_exact_witness:
  "case sweep_expired 1000 two_keys of (n, st') \<Rightarrow>
    store_inv st' \<and> data st' = filter (\<lambda>(k, e). \<not> is_expired 1000 e) (data two_keys) \<and> n + length (data st') = length (data two_keys) \<and>
    expired_keys st' = expired_keys two_keys + n \<and> evicted st' = evicted two_keys"
proof (rule sweep_exact)
  show "store_inv two_keys" by code_simp
qed


section \<open>Commands\<close>



text \<open>C12: SET with any options. NX and XX block it as they say and then nothing changes; otherwise it writes once, the key
  gets the value and the deadline, and the reply is OK, or with GET the value before.\<close>

theorem set_command_effect:
  assumes "cmd_inv st" and "named f ''SET''" and "parse_set args = Inr opts" and "mono c \<le> t"
  shows "let st' = snd (dispatch c (f # args) st); E = drop (length (evicted st)) (evicted st');
      old = (if oget opts then reply_of (live (mono c) st (okey opts)) else PyNone)
    in if set_blocked (mono c) opts st
       then fst (dispatch c (f # args) st) = Inr old \<and> live t st' = live t st \<and> writes st' = writes st
       else fst (dispatch c (f # args) st) = Inr (if oget opts then old else OK) \<and>
         writes st' = Suc (writes st) \<and> evicted st' = evicted st @ E \<and> okey opts \<notin> set E \<and>
         live t st' = ((live t st)(okey opts :=
            view_entry t (PyArg (oval opts)) (map_option (\<lambda>x. mono c + x) (ottl opts)))) |` (- set E)"
  unfolding Let_def by (rule dispatch_set [OF assms(1-3) refl assms(4) refl refl])

theorem set_command_effect_witness:
  "let st' = snd (dispatch noon (Bytes ''set'' # [Bytes ''a'', Bytes ''9'', Bytes ''GET'']) two_keys);
       E = drop (length (evicted two_keys)) (evicted st');
       opts = \<lparr>okey = Bytes ''a'', oval = Bytes ''9'', nx = False, xx = False, oget = True, ottl = None\<rparr>;
       old = (if oget opts then reply_of (live (mono noon) two_keys (okey opts)) else PyNone)
   in if set_blocked (mono noon) opts two_keys
      then fst (dispatch noon (Bytes ''set'' # [Bytes ''a'', Bytes ''9'', Bytes ''GET'']) two_keys) = Inr old \<and>
        live 100 st' = live 100 two_keys \<and> writes st' = writes two_keys
      else fst (dispatch noon (Bytes ''set'' # [Bytes ''a'', Bytes ''9'', Bytes ''GET'']) two_keys) = Inr (if oget opts then old else OK) \<and>
        writes st' = Suc (writes two_keys) \<and> evicted st' = evicted two_keys @ E \<and> okey opts \<notin> set E \<and>
        live 100 st' = ((live 100 two_keys)(okey opts :=
           view_entry 100 (PyArg (oval opts)) (map_option (\<lambda>x. mono noon + x) (ottl opts)))) |` (- set E)"
proof -
  have "cmd_inv two_keys" by code_simp
  moreover have "named (Bytes ''set'') ''SET''" by code_simp
  moreover have "parse_set [Bytes ''a'', Bytes ''9'', Bytes ''GET''] =
      Inr \<lparr>okey = Bytes ''a'', oval = Bytes ''9'', nx = False, xx = False, oget = True, ottl = None\<rparr>" by code_simp
  moreover have "mono noon \<le> 100" by code_simp
  ultimately show ?thesis unfolding Let_def by (rule set_command_effect [unfolded Let_def])
qed

text \<open>C13: EXPIRE, PEXPIRE and PEXPIREAT: the reply says whether the key was there, and then its deadline is the requested
  one; a deadline that is not in the future makes the key disappear at once.\<close>

theorem expire_command_effect:
  assumes "named f n" and "n = ''EXPIRE'' \<or> n = ''PEXPIRE'' \<or> n = ''PEXPIREAT''" and "expire_number n a = Some x"
    and "mono c \<le> t"
  shows "fst (dispatch c [f, k, a] st) = Inr (PyBool (live (mono c) st k \<noteq> None)) \<and>
     live t (snd (dispatch c [f, k, a] st)) =
       (case live (mono c) st k of
          None \<Rightarrow> live t st
        | Some (v, _) \<Rightarrow> (live t st)(k := view_entry t v (Some (mono c + requested_ttl c n x))))"
  using assms by (rule dispatch_expire)

theorem expire_command_effect_witness:
  "fst (dispatch noon [Bytes ''PEXPIREAT'', Bytes ''a'', Bytes ''1000005000''] two_keys) =
     Inr (PyBool (live (mono noon) two_keys (Bytes ''a'') \<noteq> None)) \<and>
   live 100 (snd (dispatch noon [Bytes ''PEXPIREAT'', Bytes ''a'', Bytes ''1000005000''] two_keys)) =
     (case live (mono noon) two_keys (Bytes ''a'') of
        None \<Rightarrow> live 100 two_keys
      | Some (v, _) \<Rightarrow> (live 100 two_keys)(Bytes ''a'' :=
          view_entry 100 v (Some (mono noon + requested_ttl noon ''PEXPIREAT'' 1000005000))))"
proof (rule expire_command_effect)
  show "named (Bytes ''PEXPIREAT'') ''PEXPIREAT''" by code_simp
  show "expire_number ''PEXPIREAT'' (Bytes ''1000005000'') = Some 1000005000" by code_simp
qed (simp_all add: noon_def)

text \<open>C14: TTL answers -2 for a key that is not there, -1 for one without a deadline, and otherwise the seconds left,
  rounded up, so never less than 1 for a key that is still there.\<close>

theorem ttl_command_reply:
  assumes "named f ''TTL''"
  shows "fst (dispatch c [f, k] st) = Inr (PyInt
     (case live (mono c) st k of None \<Rightarrow> -2 | Some (_, None) \<Rightarrow> -1 | Some (_, Some d) \<Rightarrow> \<lceil>d - mono c\<rceil>)) \<and>
     (\<forall>v d. live (mono c) st k = Some (v, Some d) \<longrightarrow> 1 \<le> \<lceil>d - mono c\<rceil>) \<and>
     live (mono c) (snd (dispatch c [f, k] st)) = live (mono c) st"
  using assms by (rule dispatch_ttl)

theorem ttl_command_reply_witness:
  "fst (dispatch noon [Bytes ''ttl'', Bytes ''b''] two_keys) = Inr (PyInt 210) \<and>
   live (mono noon) (snd (dispatch noon [Bytes ''ttl'', Bytes ''b''] two_keys)) = live (mono noon) two_keys"
proof -
  have "named (Bytes ''ttl'') ''TTL''" by code_simp
  note ttl = ttl_command_reply [OF this, of noon "Bytes ''b''" two_keys]
  have "live (mono noon) two_keys (Bytes ''b'') = Some (PyArg (Bytes ''2''), Some 310)" by code_simp
  with ttl show ?thesis by (simp add: noon_def)
qed

text \<open>C15: KEYS answers with the keys that are visible and match the pattern, each once, and changes nothing that is
  visible.\<close>

theorem keys_command_reply:
  assumes "cmd_inv st" and "named f ''KEYS''" and "list_all (\<lambda>k. \<exists>b. k = Bytes b) (od_keys (data st))"
  shows "\<exists>ks. fst (dispatch c [f, Bytes pat] st) = Inr (PyList (map PyArg ks)) \<and> distinct ks \<and>
     set ks = {k \<in> dom (live (mono c) st). fnmatchcase (glob_chars k) (map of_char pat)} \<and>
     live (mono c) (snd (dispatch c [f, Bytes pat] st)) = live (mono c) st"
  using assms by (rule dispatch_keys)

theorem keys_command_reply_witness:
  "\<exists>ks. fst (dispatch noon [Bytes ''KEYS'', Bytes ''[a-c]*''] two_keys) = Inr (PyList (map PyArg ks)) \<and> distinct ks \<and>
     set ks = {k \<in> dom (live (mono noon) two_keys). fnmatchcase (glob_chars k) (map of_char ''[a-c]*'')} \<and>
     live (mono noon) (snd (dispatch noon [Bytes ''KEYS'', Bytes ''[a-c]*''] two_keys)) = live (mono noon) two_keys"
proof (rule keys_command_reply)
  show "cmd_inv two_keys" by code_simp
  show "named (Bytes ''KEYS'') ''KEYS''" by code_simp
  have "od_keys (data two_keys) = [Bytes ''a'', Bytes ''b'']" by code_simp
  then show "list_all (\<lambda>k. \<exists>b. k = Bytes b) (od_keys (data two_keys))" by simp
qed

text \<open>C16: a command that is answered with an error, or whose handler raises, changes nothing that is visible.\<close>

theorem failed_command_harmless:
  assumes "cmd_inv st" and "mono c \<le> t" and "failed (fst (dispatch c command st))"
  shows "live t (snd (dispatch c command st)) = live t st"
  using assms by (rule dispatch_failed)

theorem failed_command_harmless_witness:
  "live 100 (snd (dispatch noon [Bytes ''SET'', Bytes ''a'', Bytes ''9'', Bytes ''EX'', Bytes ''0''] two_keys)) = live 100 two_keys"
proof (rule failed_command_harmless)
  show "cmd_inv two_keys" by code_simp
  show "failed (fst (dispatch noon [Bytes ''SET'', Bytes ''a'', Bytes ''9'', Bytes ''EX'', Bytes ''0''] two_keys))" by code_simp
qed (simp add: noon_def)


section \<open>The protocol\<close>

text \<open>C17: a command that is written by \<^verbatim>\<open>encode\<close> is read back by \<^verbatim>\<open>read_command\<close>, whatever bytes its arguments hold and
  whatever follows it.\<close>

theorem command_roundtrip:
  assumes "ok_command c"
  shows "\<exists>w. encode (command_obj (map Bytes c)) = Inr w \<and> read_command (w @ rest) = Inr (Some c, rest)"
  using read_command_encode [OF assms] by simp

theorem command_roundtrip_witness:
  "\<exists>w. encode (command_obj (map Bytes [''SET'', [CR, LF], []])) = Inr w \<and>
    read_command (w @ ''*1'') = Inr (Some [''SET'', [CR, LF], []], ''*1'')"
proof (rule command_roundtrip)
  show "ok_command [''SET'', [CR, LF], []]" by code_simp
qed

text \<open>C18: a command of which only a part arrives is refused, wherever it is cut: it is never read as another command.\<close>

theorem torn_command_refused:
  assumes "ok_command c" and "encode (command_obj (map Bytes c)) = Inr (p @ s)" and "p \<noteq> []" and "s \<noteq> []"
  shows "\<exists>e. read_command p = Inl e"
  using read_command_torn [OF assms(1) _ assms(3,4)] assms(2) by simp

theorem torn_command_refused_witness: "\<exists>e. read_command (''*1'' @ CRLF @ ''$4'' @ CRLF @ ''PI'') = Inl e"
proof (rule torn_command_refused)
  show "ok_command [''PING'']" by code_simp
  show "encode (command_obj (map Bytes [''PING''])) = Inr ((''*1'' @ CRLF @ ''$4'' @ CRLF @ ''PI'') @ (''NG'' @ CRLF))" by code_simp
qed simp_all

text \<open>C19: a reply that \<^verbatim>\<open>encode\<close> writes is read back by \<^verbatim>\<open>read_reply\<close>: status lines as text, booleans as integers, texts as
  their bytes, lists element by element.\<close>

theorem reply_roundtrip:
  assumes "encode v = Inr w" and "ok_reply v" and "nesting v \<le> d"
  shows "read_reply d (w @ rest) = Inr (wire_value v, rest)"
  using assms by (rule read_reply_encode)

theorem reply_roundtrip_witness:
  "read_reply 2 ((''*3'' @ CRLF @ '':1'' @ CRLF @ ''$-1'' @ CRLF @ ''+OK'' @ CRLF) @ '':7'') =
     Inr (wire_value (PyList [PyBool True, PyNone, OK]), '':7'')"
proof (rule reply_roundtrip)
  show "encode (PyList [PyBool True, PyNone, OK]) = Inr (''*3'' @ CRLF @ '':1'' @ CRLF @ ''$-1'' @ CRLF @ ''+OK'' @ CRLF)" by code_simp
  show "ok_reply (PyList [PyBool True, PyNone, OK])" by code_simp
  show "nesting (PyList [PyBool True, PyNone, OK]) \<le> 2" by code_simp
qed

text \<open>C20: whatever bytes arrive, a command that is read keeps the limits on its arguments; dispatched on a store whose data came
  over the wire it leaves such a store, and what it answers is an error or has the type of its name and arguments and can
  be sent.\<close>

theorem reply_typed:
  assumes "wire_inv st" and "store_fits c st" and "read_command r = Inr (Some command, rest)" and "command \<noteq> []"
    and "dispatch c (map Bytes command) st = (Inr v, st')"
  shows "ok_command command \<and> wire_inv st' \<and>
    ((\<exists>m. v = Error m) \<or> (\<exists>n. named (Bytes (hd command)) n \<and> n \<in> fst ` set COMMANDS \<and> typed n (map Bytes (tl command)) v)) \<and>
    (\<exists>b. encode v = Inr b)"
proof -
  have ok: "ok_command command" using assms(3) by (rule read_command_ok)
  from dispatch_typed [OF assms(1,2) ok assms(4,5)] ok show ?thesis by blast
qed

theorem reply_typed_witness:
  "ok_command [''TTL'', ''b''] \<and> wire_inv (snd (dispatch noon (map Bytes [''TTL'', ''b'']) two_keys)) \<and>
    ((\<exists>m. PyInt 210 = Error m) \<or>
     (\<exists>n. named (Bytes (hd [''TTL'', ''b''])) n \<and> n \<in> fst ` set COMMANDS \<and> typed n (map Bytes (tl [''TTL'', ''b''])) (PyInt 210))) \<and>
    (\<exists>b. encode (PyInt 210) = Inr b)"
proof (rule reply_typed)
  show "wire_inv two_keys" "store_fits noon two_keys" by code_simp+
  show "read_command (encode_command [''TTL'', ''b'']) = Inr (Some [''TTL'', ''b''], [])" by code_simp
  have "fst (dispatch noon (map Bytes [''TTL'', ''b'']) two_keys) = Inr (PyInt 210)" by code_simp
  then show "dispatch noon (map Bytes [''TTL'', ''b'']) two_keys =
      (Inr (PyInt 210), snd (dispatch noon (map Bytes [''TTL'', ''b'']) two_keys))" by (metis prod.collapse)
qed simp

text \<open>C21: reading a command consumes input, so the loops of the server, of the log replay and of the replica that read one
  command after the other end on every finite input.\<close>

theorem command_consumes_input: "read_command r = Inr (Some c, rest) \<Longrightarrow> length rest < length r"
  by (rule read_command_shorter)

theorem command_consumes_input_witness: "length ''tail'' < length ('' '' @ CRLF @ ''tail'')"
proof (rule command_consumes_input)
  show "read_command ('' '' @ CRLF @ ''tail'') = Inr (Some [], ''tail'')" by code_simp
qed

end
