(* ===== verification/Cluster_Properties.thy ===== *)
theory Cluster_Properties
  imports Cluster_Pipeline Data_Properties
begin

text \<open>
  What the ring, the pool and the sharding client guarantee, alone and together with the servers of the
  model, each with an instance on a small cluster.
\<close>

section \<open>A ring routes every key\<close>

lemma ring_init_run:
  assumes "collision_free digest vn (set ns)"
  shows "\<exists>r. ring_init digest ns vn = Inr r \<and> ring_of digest vn (set ns) r"
  using add_nodes_run [OF ring_of_empty, of digest vn ns] assms by (simp add: ring_init_def)

lemma cluster_routes:
  assumes cl: "cluster_init digest shs vn pw psize = Inr cl" and cf: "collision_free digest vn (set (map node_id shs))"
    and ne: "shs \<noteq> []" and vn: "0 < vn" and up: "list_all (\<lambda>sh. reachable (node_id sh)) shs"
  shows "routes digest cl reachable"
proof -
  obtain r where r: "ring_init digest (map node_id shs) vn = Inr r" "ring_of digest vn (set (map node_id shs)) r"
    using ring_init_run [OF cf] by blast
  have ring: "cring cl = r" using cl r(1) by (auto simp: cluster_init_def split: if_splits)
  show ?thesis
    unfolding routes_def
  proof
    fix b
    have key: "arg_bytes (Bytes b) = Some b" by simp
    obtain n where n: "n \<in> set (map node_id shs)" "get_node digest (Bytes b) r = Inr n"
      using get_node_run [OF r(2) _ vn key] ne by auto
    then have "node_for digest cl (Bytes b) = Inr n" by (simp add: node_for_def ring)
    with n up show "node_for digest cl (Bytes b) = Inr (route digest cl b) \<and> reachable (route digest cl b)"
      by (auto simp: route_def list_all_iff)
  qed
qed


section \<open>Data for the instances\<close>

definition byte_digest :: "bytes \<Rightarrow> nat" where
  "byte_digest b = fold (\<lambda>c h. (h * 31 + of_char c) mod 65521) b 7"

definition two_shards :: "(pystr \<times> int) list" where
  "two_shards = [(ascii_str ''a'', 1), (ascii_str ''b'', 2)]"

definition empty_server :: server where
  "empty_server = \<lparr>sstore = fresh_store 0 ''allkeys-lru'', aof = None, requirepass = Some (ascii_str ''pw''), masterauth = None,
     replica_of = None, link_up = False, replicas = [], maxclients = 0, client_output_limit = 0,
     aof_rewrite_min_size = 0, aof_rewrite_percentage = 100, aof_base_size = 0, rewrite_running = False,
     rewrite_payload = None, client_count = 0, connections_received = 0, rejected_connections = 0,
     commands_processed = 0, start_time = None, bound_port = 1\<rparr>"

definition small_net :: net where
  "small_net = \<lparr>servers = map (\<lambda>sh. (node_id sh, empty_server)) two_shards, pools = \<lambda>_. [], tick = 0\<rparr>"

definition small_cluster :: cluster where
  "small_cluster = projr (cluster_init byte_digest two_shards 2 (Some (ascii_str ''pw'')) 4)"

lemma small_cluster_init: "cluster_init byte_digest two_shards 2 (Some (ascii_str ''pw'')) 4 = Inr small_cluster"
proof -
  have "\<not> isl (cluster_init byte_digest two_shards 2 (Some (ascii_str ''pw'')) 4)" by code_simp
  then show ?thesis by (simp add: small_cluster_def)
qed

lemma small_collision_free: "collision_free byte_digest 2 (set (map node_id two_shards))"
proof (rule collision_free_list)
  show "distinct (map (\<lambda>(n, i). point byte_digest n i) (List.product (map node_id two_shards) [0..<2]))" by code_simp
  show "list_all encodable (map node_id two_shards)" by code_simp
qed

lemma empty_server_plain: "plain_server Map.empty empty_server"
  by (simp add: plain_server_def empty_server_def holds_fresh wire_inv_fresh) (simp add: fresh_store_def)

lemma small_net_ok: "net_ok (\<lambda>_. noon) 2 small_cluster small_net"
proof -
  have "open_server (Some (ascii_str ''pw'')) empty_server"
    unfolding open_server_def using empty_server_plain
    by (intro conjI exI [of _ Map.empty]) (simp_all add: empty_server_def fresh_store_def)
  moreover have "password small_cluster = Some (ascii_str ''pw'')" "sendable_password (Some (ascii_str ''pw''))" by code_simp+
  ultimately show ?thesis
    by (auto simp: net_ok_def small_net_def two_shards_def noon_def clock_ok_def od_get_def split: if_splits)
qed

lemma small_net_up: "list_all (\<lambda>sh. net_up small_net (node_id sh)) two_shards"
  by (simp add: net_up_def small_net_def two_shards_def od_get_def)


section \<open>The ring\<close>

text \<open>C29: the binary search for the node of a key gives what a scan of the ring gives, the first point after the hash of the
  key or else the first of all, on every ring that can be built, also when points collide.\<close>

theorem ring_lookup_scan:
  assumes "ring_init digest ns vn = Inr r" and "arg_bytes key = Some raw"
  shows "get_node digest key r =
    (if sorted_hashes r = [] then Inl No_nodes
     else case od_get (ring r) (scan_point (sorted_hashes r) (digest raw)) of
            None \<Rightarrow> Inl (Key_missing (scan_point (sorted_hashes r) (digest raw)))
          | Some node \<Rightarrow> Inr node)"
proof (cases "sorted_hashes r = []")
  case False
  then show ?thesis
    using bisect_scan [OF ring_init_sorted [OF assms(1)] False, of "digest raw"] assms(2)
    by (simp add: get_node_def ring_hash_def Let_def split del: if_split split: option.split)
qed (simp add: get_node_def)

theorem ring_lookup_scan_witness:
  "get_node byte_digest (Bytes ''k'') (projr (ring_init byte_digest (map node_id two_shards) 2)) =
    (if sorted_hashes (projr (ring_init byte_digest (map node_id two_shards) 2)) = [] then Inl No_nodes
     else case od_get (ring (projr (ring_init byte_digest (map node_id two_shards) 2)))
              (scan_point (sorted_hashes (projr (ring_init byte_digest (map node_id two_shards) 2))) (byte_digest ''k'')) of
            None \<Rightarrow> Inl (Key_missing (scan_point (sorted_hashes (projr (ring_init byte_digest (map node_id two_shards) 2))) (byte_digest ''k'')))
          | Some node \<Rightarrow> Inr node)"
proof (rule ring_lookup_scan)
  have "\<not> isl (ring_init byte_digest (map node_id two_shards) 2)" by code_simp
  then show "ring_init byte_digest (map node_id two_shards) 2 = Inr (projr (ring_init byte_digest (map node_id two_shards) 2))" by simp
qed simp

text \<open>On a ring built from a list of nodes without colliding points, a key belongs to the node that owns the next point
  clockwise from the hash of the key, around the end if there is none.\<close>

lemma ring_routes_successor:
  assumes "collision_free digest vn (set ns)" and "ns \<noteq> []" and "0 < vn" and "arg_bytes key = Some raw"
  shows "\<exists>r. ring_init digest ns vn = Inr r \<and>
    (\<exists>n \<in> set ns. \<exists>i < vn. get_node digest key r = Inr n \<and>
       point digest n i = successor (points digest vn (set ns)) (digest raw))"
proof -
  obtain r where r: "ring_init digest ns vn = Inr r" "ring_of digest vn (set ns) r"
    using ring_init_run [OF assms(1)] by blast
  have "set ns \<noteq> {}" using assms(2) by simp
  from get_node_run [OF r(2) this assms(3,4)] r(1) show ?thesis by blast
qed

text \<open>C31: adding a node moves a key only to the new node; every other key stays where it was.\<close>

theorem ring_add_moves:
  assumes "collision_free digest vn (set (n # ns))" and "ns \<noteq> []" and "0 < vn" and "arg_bytes key = Some raw"
    and "ring_init digest ns vn = Inr r"
  shows "\<exists>r'. add_node digest n r = Inr r' \<and>
    (get_node digest key r' = Inr n \<or> get_node digest key r' = get_node digest key r)"
proof -
  have "collision_free digest vn (set ns)" using assms(1) by (rule collision_free_mono) auto
  then have r: "ring_of digest vn (set ns) r" using ring_init_run [of digest vn ns] assms(5) by auto
  obtain r' where "add_node digest n r = Inr r'" "ring_of digest vn (insert n (set ns)) r'"
    using add_node_run [OF r] assms(1) by auto
  then show ?thesis using get_node_insert [OF r _ _ assms(3,4)] assms(2) by auto
qed

theorem ring_add_moves_witness:
  "\<exists>r'. add_node byte_digest (node_id (ascii_str ''a'', 1)) (projr (ring_init byte_digest [node_id (ascii_str ''b'', 2)] 2)) = Inr r' \<and>
    (get_node byte_digest (Bytes ''k'') r' = Inr (node_id (ascii_str ''a'', 1)) \<or>
     get_node byte_digest (Bytes ''k'') r' =
       get_node byte_digest (Bytes ''k'') (projr (ring_init byte_digest [node_id (ascii_str ''b'', 2)] 2)))"
proof (rule ring_add_moves)
  show "collision_free byte_digest 2 (set (node_id (ascii_str ''a'', 1) # [node_id (ascii_str ''b'', 2)]))"
    using small_collision_free by (simp add: two_shards_def)
  have "\<not> isl (ring_init byte_digest [node_id (ascii_str ''b'', 2)] 2)" by code_simp
  then show "ring_init byte_digest [node_id (ascii_str ''b'', 2)] 2 =
      Inr (projr (ring_init byte_digest [node_id (ascii_str ''b'', 2)] 2))" by simp
qed simp_all

text \<open>C32: removing a node moves only the keys it had; every other key stays where it was.\<close>

theorem ring_remove_moves:
  assumes "collision_free digest vn (set ns)" and "n \<in> set ns" and "set ns \<noteq> {n}" and "0 < vn" and "arg_bytes key = Some raw"
    and "ring_init digest ns vn = Inr r"
  shows "\<exists>r'. remove_node digest n r = Inr r' \<and>
    (get_node digest key r = Inr n \<or> get_node digest key r' = get_node digest key r)"
proof -
  have ins: "insert n (set ns) = set ns" "insert n (set ns - {n}) = set ns" using assms(2) by auto
  have r: "ring_of digest vn (set ns) r" using ring_init_run [OF assms(1)] assms(6) by auto
  obtain r' where r': "remove_node digest n r = Inr r'" "ring_of digest vn (set ns - {n}) r'"
    using remove_node_run [OF r, of n] assms(1) ins by auto
  have orig: "ring_of digest vn (insert n (set ns - {n})) r" using r ins by simp
  have ne: "set ns - {n} \<noteq> {}" using assms(2,3) by blast
  from get_node_insert [OF r'(2) orig ne assms(4,5)] r'(1) show ?thesis by auto
qed

theorem ring_remove_moves_witness:
  "\<exists>r'. remove_node byte_digest (node_id (ascii_str ''a'', 1)) (projr (ring_init byte_digest (map node_id two_shards) 2)) = Inr r' \<and>
    (get_node byte_digest (Bytes ''k'') (projr (ring_init byte_digest (map node_id two_shards) 2)) = Inr (node_id (ascii_str ''a'', 1)) \<or>
     get_node byte_digest (Bytes ''k'') r' =
       get_node byte_digest (Bytes ''k'') (projr (ring_init byte_digest (map node_id two_shards) 2)))"
proof (rule ring_remove_moves)
  show "collision_free byte_digest 2 (set (map node_id two_shards))" by (rule small_collision_free)
  have "\<not> isl (ring_init byte_digest (map node_id two_shards) 2)" by code_simp
  then show "ring_init byte_digest (map node_id two_shards) 2 =
      Inr (projr (ring_init byte_digest (map node_id two_shards) 2))" by simp
  have "node_id (ascii_str ''b'', 2) \<noteq> node_id (ascii_str ''a'', 1)" by code_simp
  then show "set (map node_id two_shards) \<noteq> {node_id (ascii_str ''a'', 1)}" by (simp add: two_shards_def)
qed (simp_all add: two_shards_def)


section \<open>Connections\<close>






section \<open>A cluster as one map\<close>

text \<open>C5: through the client, a cluster of servers behaves as one map: what is set is what is read, over the bytes of the
  protocol, the pools and the servers' stores, and setting one key changes no other, on whichever shard it is.\<close>

theorem cluster_set_get:
  assumes "cluster_init digest shs vn pw psize = Inr cl" and "collision_free digest vn (set (map node_id shs))"
    and "shs \<noteq> []" and "0 < vn"
    and "net_ok clk depth cl w" and "list_all (\<lambda>sh. net_up w (node_id sh)) shs"
    and "arg_bytes k = Some b" and "ok_bulk b" and "arg_bytes v = Some x" and "ok_bulk x"
    and "arg_bytes k' = Some b'" and "ok_bulk b'"
  shows "\<exists>w1 w2. cl_set digest (shard_roundtrip clk depth cl) cl k v None False False w = (Inr True, w1) \<and>
    cl_get digest (shard_roundtrip clk depth cl) cl k' w1 =
      (Inr (if b' = b then Some x else cluster_map digest cl (net_shard w) b'), w2) \<and>
    net_ok clk depth cl w2"
proof -
  have r: "routes digest cl (net_up w)" using assms(1-4,6) by (rule cluster_routes)
  obtain w1 where w1: "cl_set digest (shard_roundtrip clk depth cl) cl k v None False False w = (Inr True, w1)"
    "net_ok clk depth cl w1" "net_up w1 = net_up w"
    "cluster_map digest cl (net_shard w1) = (cluster_map digest cl (net_shard w))(b \<mapsto> x)"
    using net.set_map [OF assms(5) r assms(7-10)] by blast
  from net.get_map [OF w1(2) _ assms(11,12), of digest] r w1 show ?thesis by fastforce
qed

theorem cluster_set_get_witness:
  "\<exists>w1 w2. cl_set byte_digest (shard_roundtrip (\<lambda>_. noon) 2 small_cluster) small_cluster (Bytes ''k'') (Bytes ''v'') None False False
      small_net = (Inr True, w1) \<and>
    cl_get byte_digest (shard_roundtrip (\<lambda>_. noon) 2 small_cluster) small_cluster (word_arg ''k'') w1 =
      (Inr (if ''k'' = ''k'' then Some ''v'' else cluster_map byte_digest small_cluster (net_shard small_net) ''k''), w2) \<and>
    net_ok (\<lambda>_. noon) 2 small_cluster w2"
proof (rule cluster_set_get [OF small_cluster_init small_collision_free _ _ small_net_ok small_net_up])
  show "arg_bytes (word_arg ''k'') = Some ''k''" by code_simp
qed (simp_all add: two_shards_def ok_bulk_def MAX_BULK_LENGTH_def)

text \<open>C6: an MSET over the cluster followed by an MGET returns, in the order of the keys asked for, the last value the MSET
  gave each key, and the old value of the keys it did not mention.\<close>

theorem cluster_mset_mget:
  assumes "cluster_init digest shs vn pw psize = Inr cl" and "collision_free digest vn (set (map node_id shs))"
    and "shs \<noteq> []" and "0 < vn"
    and "net_ok clk depth cl w" and "list_all (\<lambda>sh. net_up w (node_id sh)) shs"
    and "list_all2 (\<lambda>(k, v) (b, x). arg_bytes k = Some b \<and> arg_bytes v = Some x) mapping ps"
    and "ok_command (''MSET'' # concat (map (\<lambda>(b, x). [b, x]) ps))"
    and "those (map arg_bytes keys) = Some bs" and "ok_command (''MGET'' # bs)"
  shows "\<exists>w1 w2. cl_mset digest (shard_roundtrip clk depth cl) cl mapping w = (Inr (), w1) \<and>
    cl_mget digest (shard_roundtrip clk depth cl) cl keys w1 =
      (Inr (map (\<lambda>b. case map_of (rev ps) b of Some x \<Rightarrow> Some x | None \<Rightarrow> cluster_map digest cl (net_shard w) b) bs), w2) \<and>
    net_ok clk depth cl w2"
proof -
  have r: "routes digest cl (net_up w)" using assms(1-4,6) by (rule cluster_routes)
  obtain w1 where w1: "cl_mset digest (shard_roundtrip clk depth cl) cl mapping w = (Inr (), w1)"
    "net_ok clk depth cl w1" "net_up w1 = net_up w"
    "cluster_map digest cl (net_shard w1) = put_all ps (cluster_map digest cl (net_shard w))"
    using net.mset_map [OF assms(5) r assms(7,8)] by blast
  have put: "put_all qs m b = (case map_of (rev qs) b of Some x \<Rightarrow> Some x | None \<Rightarrow> m b)" for qs m b
    by (induction qs arbitrary: m) (auto simp: map_add_def split: option.split)
  have view: "cluster_map digest cl (net_shard w1) =
      (\<lambda>b. case map_of (rev ps) b of Some x \<Rightarrow> Some x | None \<Rightarrow> cluster_map digest cl (net_shard w) b)"
    using w1(4) by (simp add: fun_eq_iff put)
  have "routes digest cl (net_up w1)" using r w1(3) by simp
  from net.mget_map [OF w1(2) this assms(9,10), unfolded view] w1(1) show ?thesis by blast
qed

theorem cluster_mset_mget_witness:
  "\<exists>w1 w2. cl_mset byte_digest (shard_roundtrip (\<lambda>_. noon) 2 small_cluster) small_cluster
      [(Bytes ''a'', Bytes ''1''), (Bytes ''b'', Bytes ''2''), (Bytes ''c'', Bytes ''3'')] small_net = (Inr (), w1) \<and>
    cl_mget byte_digest (shard_roundtrip (\<lambda>_. noon) 2 small_cluster) small_cluster [Bytes ''c'', Bytes ''x'', Bytes ''a''] w1 =
      (Inr (map (\<lambda>b. case map_of (rev [(''a'', ''1''), (''b'', ''2''), (''c'', ''3'')]) b of Some x \<Rightarrow> Some x
         | None \<Rightarrow> cluster_map byte_digest small_cluster (net_shard small_net) b) [''c'', ''x'', ''a'']), w2) \<and>
    net_ok (\<lambda>_. noon) 2 small_cluster w2"
proof (rule cluster_mset_mget [OF small_cluster_init small_collision_free _ _ small_net_ok small_net_up])
  show "ok_command (''MSET'' # concat (map (\<lambda>(b, x). [b, x]) [(''a'', ''1''), (''b'', ''2''), (''c'', ''3'')]))" by code_simp
  show "ok_command (''MGET'' # [''c'', ''x'', ''a''])" by code_simp
qed (simp_all add: two_shards_def)

text \<open>C36: a pipeline of reads, writes, deletions and increments, split over the shards and put together again, returns the
  replies, in order, and leaves the contents that running its commands one after the other on one map would. A reply may be an
  error, for an increment of what is no number or too large; if asked to, the client then raises the first one, after all
  commands have run.\<close>

theorem cluster_pipeline:
  assumes "cluster_init digest shs vn pw psize = Inr cl" and "collision_free digest vn (set (map node_id shs))"
    and "shs \<noteq> []" and "0 < vn"
    and "net_ok clk depth cl w" and "list_all (\<lambda>sh. net_up w (node_id sh)) shs"
    and "list_all2 asks pl ops"
  shows "\<exists>w'. pipe_execute digest (shard_batch clk depth cl) cl raise_on_error pl w =
      ((let replies = map wire_value (fst (run_ops ops (cluster_map digest cl (net_shard w))))
        in case first_error replies of
             Some m \<Rightarrow> if raise_on_error then Inl (ClusterError m) else Inr replies
           | None \<Rightarrow> Inr replies, w'), []) \<and>
    net_ok clk depth cl w' \<and>
    cluster_map digest cl (net_shard w') = snd (run_ops ops (cluster_map digest cl (net_shard w)))"
proof -
  have r: "routes digest cl (net_up w)" using assms(1-4,6) by (rule cluster_routes)
  from net_batch.execute_map [OF assms(5) r assms(7), of raise_on_error] show ?thesis by (auto simp: pipe_execute_def)
qed

theorem cluster_pipeline_witness:
  "\<exists>w'. pipe_execute byte_digest (shard_batch (\<lambda>_. noon) 2 small_cluster) small_cluster True
      [[word_arg ''SET'', Bytes ''a'', Bytes ''x''], [word_arg ''GET'', Bytes ''b''],
       [word_arg ''INCRBY'', Bytes ''a'', word_arg ''5''], [word_arg ''DEL'', Bytes ''b'']] small_net =
      ((let replies = map wire_value (fst (run_ops [Write ''a'' ''x'', Read ''b'', Count ''a'' 5, Erase ''b'']
            (cluster_map byte_digest small_cluster (net_shard small_net))))
        in case first_error replies of
             Some m \<Rightarrow> if True then Inl (ClusterError m) else Inr replies
           | None \<Rightarrow> Inr replies, w'), []) \<and>
    net_ok (\<lambda>_. noon) 2 small_cluster w' \<and>
    cluster_map byte_digest small_cluster (net_shard w') = snd (run_ops [Write ''a'' ''x'', Read ''b'', Count ''a'' 5, Erase ''b'']
      (cluster_map byte_digest small_cluster (net_shard small_net)))"
proof (rule cluster_pipeline [OF small_cluster_init small_collision_free _ _ small_net_ok small_net_up])
  have "arg_bytes (word_arg ''SET'') = Some ''SET''" "arg_bytes (word_arg ''GET'') = Some ''GET''"
    "arg_bytes (word_arg ''DEL'') = Some ''DEL''" "arg_bytes (word_arg ''INCRBY'') = Some ''INCRBY''"
    "arg_bytes (word_arg ''5'') = Some ''5''" "str_int 5 = ''5''" by code_simp+
  then show "list_all2 asks [[word_arg ''SET'', Bytes ''a'', Bytes ''x''], [word_arg ''GET'', Bytes ''b''],
      [word_arg ''INCRBY'', Bytes ''a'', word_arg ''5''], [word_arg ''DEL'', Bytes ''b'']]
      [Write ''a'' ''x'', Read ''b'', Count ''a'' 5, Erase ''b'']"
    by (simp add: asks_def ok_bulk_def MAX_BULK_LENGTH_def INT64_MIN_def INT64_MAX_def)
qed (simp_all add: two_shards_def)

end
