(* ===== verification/Log_Properties.thy ===== *)
theory Log_Properties
  imports Data_Properties Aof_Rewrite Repl_Stream Replica_Link
begin

text \<open>
  What the append-only log and the link to a replica guarantee, each with an
  instance on concrete data.
\<close>

section \<open>Data for the instances\<close>

definition dated_store :: store where
  "dated_store =
     snd (dispatch \<lparr>mono = 10, wall = 999910\<rparr> [Bytes ''SET'', Bytes ''b'', Bytes ''2'', Bytes ''EX'', Bytes ''300'']
       (snd (dispatch \<lparr>mono = 5, wall = 999905\<rparr> [Bytes ''SET'', Bytes ''a'', Bytes ''1'']
         (fresh_store 0 ''allkeys-lru''))))"

definition log_of :: "bytes \<Rightarrow> aof_log" where
  "log_of b = \<lparr>contents = b, on_disk = b, fsync = ''always'', rewrites_done = 0, dirty = False, seq = 0,
     durable_seq = 0, rewrite_buffer = None, closed = False\<rparr>"


section \<open>The log\<close>

text \<open>C22: a log whose last record was cut off anywhere by a crash is replayed up to that record; the tail is saved, the file
  is truncated to the complete records, and nothing else is lost.\<close>

theorem torn_log_repaired:
  assumes "list_all ok_command cmds" and "ok_command c" and "encode_command c = p @ s" and "p \<noteq> []" and "s \<noteq> []"
    and "contents l = log_bytes cmds @ p"
  shows "replay clk l st =
    (case run_commands clk 0 cmds st of
       Inl e \<Rightarrow> Inl e
     | Inr (n, st') \<Rightarrow> Inr (n, Some p,
         l\<lparr>contents := log_bytes cmds, on_disk := take (length (log_bytes cmds)) (on_disk l)\<rparr>, st'\<lparr>evicted := []\<rparr>))"
proof (cases "run_commands clk 0 cmds st")
  case (Inl e)
  then show ?thesis
    using replay_loop_commands [OF assms(1), of clk p 0 0 st] assms(4,6) by (simp add: replay_def)
next
  case (Inr r)
  then show ?thesis
    using replay_torn [OF assms, of clk st "fst r" "snd r"] by (simp add: case_prod_beta)
qed

theorem torn_log_repaired_witness:
  "replay (\<lambda>_. noon) (log_of (log_bytes [[''SET'', ''a'', ''1'']] @ (''*3'' @ CRLF @ ''$3'' @ CRLF @ ''SE''))) (fresh_store 0 ''noeviction'') =
    (case run_commands (\<lambda>_. noon) 0 [[''SET'', ''a'', ''1'']] (fresh_store 0 ''noeviction'') of
       Inl e \<Rightarrow> Inl e
     | Inr (n, st') \<Rightarrow> Inr (n, Some (''*3'' @ CRLF @ ''$3'' @ CRLF @ ''SE''),
         (log_of (log_bytes [[''SET'', ''a'', ''1'']] @ (''*3'' @ CRLF @ ''$3'' @ CRLF @ ''SE'')))
           \<lparr>contents := log_bytes [[''SET'', ''a'', ''1'']],
            on_disk := take (length (log_bytes [[''SET'', ''a'', ''1'']]))
              (on_disk (log_of (log_bytes [[''SET'', ''a'', ''1'']] @ (''*3'' @ CRLF @ ''$3'' @ CRLF @ ''SE''))))\<rparr>,
         st'\<lparr>evicted := []\<rparr>))"
proof (rule torn_log_repaired)
  show "list_all ok_command [[''SET'', ''a'', ''1'']]" by code_simp
  show "ok_command [''SET'', ''b'', ''2'']" by code_simp
  show "encode_command [''SET'', ''b'', ''2''] =
      (''*3'' @ CRLF @ ''$3'' @ CRLF @ ''SE'') @ (''T'' @ CRLF @ ''$1'' @ CRLF @ ''b'' @ CRLF @ ''$1'' @ CRLF @ ''2'' @ CRLF)" by code_simp
qed (simp_all add: log_of_def)

text \<open>C23: a rewritten log, replayed into an empty store at any later time on a machine whose clocks have the same skew all
  along, gives every key its value back, with the deadline the rewrite recorded.\<close>

theorem rewrite_preserves:
  assumes "cmd_inv st" and "wire_store st" and "deadlines_ok c st"
    and "fst (rewrite_begin c st l) = Inr (payload, n, l')" and "contents l2 = payload"
    and "cmd_inv st0" and "no_evict st0" and "data st0 = []"
    and "ticking clk t" and "\<And>i. wall (clk i) - mono (clk i) = skew"
  shows "\<exists>st'. replay clk l2 st0 = Inr (n, None, l2, st') \<and>
     (\<forall>k. live t st' k = Option.bind (live (mono c) st k) (restored c skew t))"
  using assms by (rule rewrite_roundtrip)

theorem rewrite_preserves_witness:
  "\<exists>st'. replay (\<lambda>_. noon) (log_of (fst (projr (fst (rewrite_begin noon dated_store (log_of [])))))) (fresh_store 0 ''noeviction'') =
      Inr (3, None, log_of (fst (projr (fst (rewrite_begin noon dated_store (log_of []))))), st') \<and>
    (\<forall>k. live 200 st' k = Option.bind (live (mono noon) dated_store k) (restored noon 999900 200))"
proof (rule rewrite_preserves)
  show "cmd_inv dated_store" by code_simp
  show "wire_store dated_store" by code_simp
  show "deadlines_ok noon dated_store" by code_simp
  have "fst (rewrite_begin noon dated_store (log_of [])) =
      Inr (log_bytes [[''SET'', ''a'', ''1''], [''SET'', ''b'', ''2''], [''PEXPIREAT'', ''b'', ''1000210000'']], 3,
        (log_of [])\<lparr>rewrite_buffer := Some []\<rparr>)" by code_simp
  then show "fst (rewrite_begin noon dated_store (log_of [])) =
      Inr (fst (projr (fst (rewrite_begin noon dated_store (log_of [])))), 3, (log_of [])\<lparr>rewrite_buffer := Some []\<rparr>)" by simp
  show "cmd_inv (fresh_store 0 ''noeviction'')" by (rule cmd_inv_fresh)
qed (simp_all add: log_of_def noon_def no_evict_def fresh_store_def ticking_def)




section \<open>Replication\<close>



text \<open>C28: a link that stays open drains: after as many turns of the pump as there are payloads in the queue, everything that
  was ever sent has been written, and nothing is pending.\<close>

theorem replica_link_drains:
  assumes "\<not> lclosed (fold link_apply evs (link_open n))"
  shows "case fold link_apply evs (link_open n) of l \<Rightarrow>
    (case fold link_apply (Drained # concat (replicate (length (queue l)) [Pump, Drained])) l of l' \<Rightarrow>
       written l' = concat (map payload_of evs) \<and> queue l' = [] \<and> pending l' = 0 \<and> \<not> lclosed l')"
proof -
  let ?l = "fold link_apply evs (link_open n)"
  let ?l1 = "pump_drained ?l"
  have inv: "link_inv (concat (map payload_of evs)) ?l" using link_run_inv [OF link_open_inv [of n], of evs] by simp
  have "link_inv (concat (map payload_of evs)) ?l1" using link_inv_step [OF inv, of Drained] by simp
  moreover have "\<not> lclosed ?l1" "in_flight ?l1 = None" "queue ?l1 = queue ?l"
    using assms by (auto simp: pump_drained_def split: option.split)
  ultimately show ?thesis using pump_all [of "concat (map payload_of evs)" ?l1] by simp
qed

theorem replica_link_drains_witness:
  "case fold link_apply [Hand True ''abc'', Hand False ''de'', Pump] (link_open 9) of l \<Rightarrow>
    (case fold link_apply (Drained # concat (replicate (length (queue l)) [Pump, Drained])) l of l' \<Rightarrow>
       written l' = concat (map payload_of [Hand True ''abc'', Hand False ''de'', Pump]) \<and> queue l' = [] \<and>
       pending l' = 0 \<and> \<not> lclosed l')"
proof (rule replica_link_drains)
  show "\<not> lclosed (fold link_apply [Hand True ''abc'', Hand False ''de'', Pump] (link_open 9))" by code_simp
qed

end
