(* ===== verification/Dated_Map.thy ===== *)
theory Dated_Map
  imports Restart
begin

text \<open>
  The cache with deadlines, as long as none of them passes. The view of a store is a map from keys to values and
  deadlines; a deadline is a point of wall-clock time, so that it means the same before and after a restart. Two stores
  show the same map when their values agree and their deadlines are within a millisecond of it, which is what the
  rounding in the log costs. The horizon \<open>T\<close> is a wall-clock time that no deadline comes before.
\<close>

section \<open>What a store shows\<close>

text \<open>A store at a wall-clock time, on a machine whose wall clock is \<open>\<sigma>\<close> ahead of its monotonic clock.\<close>

definition seen_at :: "seconds \<Rightarrow> seconds \<Rightarrow> store \<Rightarrow> arg \<Rightarrow> (pyobj \<times> seconds option) option" where
  "seen_at \<sigma> w st k = map_option (map_prod id (map_option (\<lambda>d. d + \<sigma>))) (live (w - \<sigma>) st k)"

definition close :: "seconds \<Rightarrow> (pyobj \<times> seconds option) option \<Rightarrow> (pyobj \<times> seconds option) option \<Rightarrow> bool" where
  "close \<epsilon> = rel_option (rel_prod (=) (rel_option (\<lambda>x y. \<bar>x - y\<bar> \<le> \<epsilon>)))"

type_synonym dated_map = "arg \<rightharpoonup> arg \<times> seconds option"

definition near :: "seconds \<Rightarrow> seconds \<Rightarrow> (pyobj \<times> seconds option) option \<Rightarrow> (arg \<times> seconds option) option \<Rightarrow> bool" where
  "near \<epsilon> \<sigma> e x =
     close \<epsilon> (map_option (map_prod id (map_option (\<lambda>d. d + \<sigma>))) e) (map_option (map_prod PyArg id) x)"

lemma near_simps [simp]:
  "near \<epsilon> \<sigma> None x \<longleftrightarrow> x = None" "near \<epsilon> \<sigma> e None \<longleftrightarrow> e = None"
  "near \<epsilon> \<sigma> (Some (v, None)) (Some (a, d')) \<longleftrightarrow> v = PyArg a \<and> d' = None"
  "near \<epsilon> \<sigma> (Some (v, d)) (Some (a, None)) \<longleftrightarrow> v = PyArg a \<and> d = None"
  "near \<epsilon> \<sigma> (Some (v, Some y)) (Some (a, Some Y)) \<longleftrightarrow> v = PyArg a \<and> \<bar>y + \<sigma> - Y\<bar> \<le> \<epsilon>"
  by (auto simp: near_def close_def option_rel_Some1 option_rel_Some2)

lemma near_value: "near \<epsilon> \<sigma> (Some (v, d)) (Some (a, D)) \<Longrightarrow> v = PyArg a"
  by (cases d; cases D) auto

lemma near_revalue: "near \<epsilon> \<sigma> (Some (v, d)) (Some (a, D)) \<Longrightarrow> near \<epsilon> \<sigma> (Some (PyArg b, d)) (Some (b, D))"
  by (cases d; cases D) auto

text \<open>From \<open>now\<close> to the horizon, the store shows the map.\<close>

definition tracks :: "seconds \<Rightarrow> seconds \<Rightarrow> seconds \<Rightarrow> seconds \<Rightarrow> dated_map \<Rightarrow> store \<Rightarrow> bool" where
  "tracks \<epsilon> \<sigma> T now m st \<longleftrightarrow> cmd_inv st \<and> quiet st \<and>
     (\<forall>t k. now \<le> t + \<sigma> \<and> t + \<sigma> \<le> T \<longrightarrow> near \<epsilon> \<sigma> (live t st k) (m k))"

definition clock_in :: "seconds \<Rightarrow> seconds \<Rightarrow> clock \<Rightarrow> bool" where
  "clock_in \<sigma> T c \<longleftrightarrow> wall c = mono c + \<sigma> \<and> wall c \<le> T"

lemma tracksD: "tracks \<epsilon> \<sigma> T now m st \<Longrightarrow> cmd_inv st" "tracks \<epsilon> \<sigma> T now m st \<Longrightarrow> quiet st"
  by (simp_all add: tracks_def)

lemma tracks_later: "tracks \<epsilon> \<sigma> T now m st \<Longrightarrow> now \<le> now' \<Longrightarrow> tracks \<epsilon> \<sigma> T now' m st"
  unfolding tracks_def by (meson order_trans)

lemma tracks_live:
  assumes "tracks \<epsilon> \<sigma> T now m st" and "clock_in \<sigma> T c" and "now \<le> wall c"
  shows "near \<epsilon> \<sigma> (live (mono c) st k) (m k)"
  using assms unfolding tracks_def clock_in_def by simp

lemma live_deadline: "live t st k = Some (v, d) \<Longrightarrow> view_entry t v' d = Some (v', d)"
  by (auto simp: live_view view_entry_def split: option.splits if_splits)

lemma live_some_earlier: "live h st k = Some (v, d) \<Longrightarrow> t \<le> h \<Longrightarrow> live t st k = Some (v, d)"
  by (auto simp: live_view view_entry_def split: option.splits if_splits)

lemma live_none_later: "live t st k = None \<Longrightarrow> t \<le> h \<Longrightarrow> live h st k = None"
  by (auto simp: live_view view_entry_def split: option.splits if_splits)

text \<open>Up to the horizon nothing expires.\<close>

lemma tracks_stable:
  assumes tr: "tracks \<epsilon> \<sigma> T now m st" and c: "clock_in \<sigma> T c" "now \<le> wall c" and t: "mono c \<le> t" "t + \<sigma> \<le> T"
  shows "live t st = live (mono c) st"
proof
  fix k
  have c0: "near \<epsilon> \<sigma> (live (mono c) st k) (m k)" by (rule tracks_live [OF tr c])
  have h: "near \<epsilon> \<sigma> (live (T - \<sigma>) st k) (m k)" using tr c unfolding tracks_def clock_in_def by simp
  show "live t st k = live (mono c) st k"
  proof (cases "live (T - \<sigma>) st k")
    case None
    with h have "m k = None" by simp
    with c0 have "live (mono c) st k = None" by simp
    with live_none_later [OF this t(1)] show ?thesis by simp
  next
    case (Some e)
    obtain v d where "e = (v, d)" by (cases e)
    with Some have e: "live (T - \<sigma>) st k = Some (v, d)" by simp
    have "t \<le> T - \<sigma>" using t(2) by simp
    with live_some_earlier [OF e this] live_some_earlier [OF e order_trans [OF t(1) this]] show ?thesis by simp
  qed
qed

lemma tracks_dispatch:
  assumes tr: "tracks \<epsilon> \<sigma> T now m st" and c: "clock_in \<sigma> T c"
    and view: "\<And>t k. mono c \<le> t \<Longrightarrow> t + \<sigma> \<le> T \<Longrightarrow> near \<epsilon> \<sigma> (live t (snd (dispatch c command st)) k) (m' k)"
  shows "tracks \<epsilon> \<sigma> T (wall c) m' (snd (dispatch c command st))"
proof -
  have "quiet (snd (dispatch c command st))"
    using quiet.I_dispatch [OF tracksD(2) [OF tr], of command c] by (simp add: list_all_iff)
  moreover have "cmd_inv (snd (dispatch c command st))" by (rule cmd_inv_dispatch [OF tracksD(1) [OF tr]])
  ultimately show ?thesis using view c by (auto simp: tracks_def clock_in_def)
qed


section \<open>Commands\<close>

text \<open>What a command does to the map, on every store that shows it, at every clock before the horizon.\<close>

definition keeps :: "seconds \<Rightarrow> arg list \<Rightarrow> dated_map \<Rightarrow> dated_map \<Rightarrow> bool" where
  "keeps T command m m' \<longleftrightarrow>
     (\<forall>\<epsilon> \<sigma> now c st. 0 \<le> \<epsilon> \<longrightarrow> tracks \<epsilon> \<sigma> T now m st \<longrightarrow> clock_in \<sigma> T c \<longrightarrow> now \<le> wall c \<longrightarrow>
        (\<exists>r. fst (dispatch c command st) = Inr r) \<and> tracks \<epsilon> \<sigma> T (wall c) m' (snd (dispatch c command st)))"

lemma keepsD:
  assumes "keeps T command m m'" and "0 \<le> \<epsilon>" and "tracks \<epsilon> \<sigma> T now m st" and "clock_in \<sigma> T c" and "now \<le> wall c"
  shows "\<exists>r. fst (dispatch c command st) = Inr r" and "tracks \<epsilon> \<sigma> T (wall c) m' (snd (dispatch c command st))"
  using assms unfolding keeps_def by blast+

lemma keepsI:
  assumes "\<And>\<epsilon> \<sigma> c st t. 0 \<le> \<epsilon> \<Longrightarrow> cmd_inv st \<Longrightarrow> quiet st \<Longrightarrow> (\<And>k. near \<epsilon> \<sigma> (live (mono c) st k) (m k)) \<Longrightarrow>
      live t st = live (mono c) st \<Longrightarrow> mono c \<le> t \<Longrightarrow> t + \<sigma> \<le> T \<Longrightarrow> wall c = mono c + \<sigma> \<Longrightarrow>
      (\<exists>r. fst (dispatch c command st) = Inr r) \<and> (\<forall>k. near \<epsilon> \<sigma> (live t (snd (dispatch c command st)) k) (m' k))"
  shows "keeps T command m m'"
  unfolding keeps_def
proof (intro allI impI)
  fix \<epsilon> \<sigma> now c st
  assume eps: "0 \<le> \<epsilon>" and tr: "tracks \<epsilon> \<sigma> T now m st" and c: "clock_in \<sigma> T c" and now: "now \<le> wall c"
  have step: "(\<exists>r. fst (dispatch c command st) = Inr r) \<and> (\<forall>k. near \<epsilon> \<sigma> (live t (snd (dispatch c command st)) k) (m' k))"
    if "mono c \<le> t" "t + \<sigma> \<le> T" for t
    by (rule assms [OF eps tracksD [OF tr] tracks_live [OF tr c now] tracks_stable [OF tr c now that] that])
      (use c in \<open>simp add: clock_in_def\<close>)
  have "mono c + \<sigma> \<le> T" using c by (simp add: clock_in_def)
  from step [OF order_refl this] tracks_dispatch [OF tr c, of command m'] step
  show "(\<exists>r. fst (dispatch c command st) = Inr r) \<and> tracks \<epsilon> \<sigma> T (wall c) m' (snd (dispatch c command st))" by blast
qed

text \<open>SET, with a deadline after the horizon if any.\<close>

definition dated_set :: "clock \<Rightarrow> set_options \<Rightarrow> dated_map \<Rightarrow> dated_map" where
  "dated_set c opts m =
     (if nx opts \<and> m (okey opts) \<noteq> None \<or> xx opts \<and> m (okey opts) = None then m
      else m(okey opts \<mapsto> (oval opts, map_option (\<lambda>x. wall c + x) (ottl opts))))"

lemma quiet_evicted: "quiet st \<Longrightarrow> evicted st = [] \<and> evicted (snd (dispatch c command st)) = []"
  using quiet.I_dispatch [of st command c] by (simp add: quiet_def list_all_iff)

lemma near_None_iff: "near \<epsilon> \<sigma> e x \<Longrightarrow> e = None \<longleftrightarrow> x = None"
  by (cases e; cases x) auto

text \<open>The same with a deadline that may be off by the tolerance.\<close>

definition dated_put :: "set_options \<Rightarrow> seconds option \<Rightarrow> dated_map \<Rightarrow> dated_map" where
  "dated_put opts D m =
     (if nx opts \<and> m (okey opts) \<noteq> None \<or> xx opts \<and> m (okey opts) = None then m else m(okey opts \<mapsto> (oval opts, D)))"

lemma put_tracks:
  assumes tr: "tracks \<epsilon> \<sigma> T now m st" and c: "clock_in \<sigma> T c" "now \<le> wall c"
    and f: "named f ''SET''" and opts: "parse_set args = Inr opts"
    and late: "\<And>x. ottl opts = Some x \<Longrightarrow> T < wall c + x"
    and D: "rel_option (\<lambda>x d. \<bar>wall c + x - d\<bar> \<le> \<epsilon>) (ottl opts) D"
  shows "tracks \<epsilon> \<sigma> T (wall c) (dated_put opts D m) (snd (dispatch c (f # args) st))"
    and "set_blocked (mono c) opts st \<longleftrightarrow> nx opts \<and> m (okey opts) \<noteq> None \<or> xx opts \<and> m (okey opts) = None"
    and "\<exists>r. fst (dispatch c (f # args) st) = Inr r"
proof -
  note n = tracks_live [OF tr c]
  show blocked: "set_blocked (mono c) opts st \<longleftrightarrow> nx opts \<and> m (okey opts) \<noteq> None \<or> xx opts \<and> m (okey opts) = None"
    using near_None_iff [OF n, of "okey opts"] by (auto simp: set_blocked_def)
  note run = dispatch_set [OF tracksD(1) [OF tr] f opts refl _ refl refl, of c]
  show "\<exists>r. fst (dispatch c (f # args) st) = Inr r" using run [OF order_refl] by (auto split: if_splits)
  show "tracks \<epsilon> \<sigma> T (wall c) (dated_put opts D m) (snd (dispatch c (f # args) st))"
  proof (rule tracks_dispatch [OF tr c(1)])
    fix t k
    assume t: "mono c \<le> t" "t + \<sigma> \<le> T"
    note st = tracks_stable [OF tr c t]
    have entry: "near \<epsilon> \<sigma> (view_entry t (PyArg (oval opts)) (map_option (\<lambda>x. mono c + x) (ottl opts))) (Some (oval opts, D))"
      using late c(1) t(2) D by (cases "ottl opts"; cases D) (auto simp: view_entry_def clock_in_def algebra_simps)
    show "near \<epsilon> \<sigma> (live t (snd (dispatch c (f # args) st)) k) (dated_put opts D m k)"
    proof (cases "set_blocked (mono c) opts st")
      case True
      with run [OF t(1)] st n blocked show ?thesis by (simp add: dated_put_def)
    next
      case False
      with run [OF t(1)] quiet_evicted [OF tracksD(2) [OF tr], of c "f # args"]
      have "live t (snd (dispatch c (f # args) st)) = (live t st)(okey opts :=
          view_entry t (PyArg (oval opts)) (map_option (\<lambda>x. mono c + x) (ottl opts)))"
        using False by (auto simp: fun_eq_iff restrict_map_def)
      with False entry n st blocked show ?thesis by (auto simp: dated_put_def)
    qed
  qed
qed

lemma set_tracks:
  assumes tr: "tracks \<epsilon> \<sigma> T now m st" and c: "clock_in \<sigma> T c" "now \<le> wall c" and eps: "0 \<le> \<epsilon>"
    and f: "named f ''SET''" and opts: "parse_set args = Inr opts"
    and late: "\<And>x. ottl opts = Some x \<Longrightarrow> T < wall c + x"
  shows "tracks \<epsilon> \<sigma> T (wall c) (dated_set c opts m) (snd (dispatch c (f # args) st))"
    and "set_blocked (mono c) opts st \<longleftrightarrow> nx opts \<and> m (okey opts) \<noteq> None \<or> xx opts \<and> m (okey opts) = None"
    and "\<exists>r. fst (dispatch c (f # args) st) = Inr r"
proof -
  have "rel_option (\<lambda>x d. \<bar>wall c + x - d\<bar> \<le> \<epsilon>) (ottl opts) (map_option (\<lambda>x. wall c + x) (ottl opts))"
    using eps by (simp add: option.rel_map option.rel_refl)
  note put = put_tracks [OF tr c f opts late this]
  from put(1) show "tracks \<epsilon> \<sigma> T (wall c) (dated_set c opts m) (snd (dispatch c (f # args) st))"
    by (simp add: dated_put_def dated_set_def)
qed (use put_tracks [OF tr c f opts late, of "map_option (\<lambda>x. wall c + x) (ottl opts)"] eps in
    \<open>simp_all add: option.rel_map option.rel_refl\<close>)

text \<open>EXPIRE and its relatives. The new deadline is \<open>D\<close>, within the tolerance.\<close>

definition dated_expire :: "arg \<Rightarrow> seconds \<Rightarrow> dated_map \<Rightarrow> dated_map" where
  "dated_expire k D m = (case m k of None \<Rightarrow> m | Some (a, _) \<Rightarrow> m(k \<mapsto> (a, Some D)))"

lemma expire_tracks:
  assumes tr: "tracks \<epsilon> \<sigma> T now m st" and c: "clock_in \<sigma> T c" "now \<le> wall c"
    and f: "named f n" "n = ''EXPIRE'' \<or> n = ''PEXPIRE'' \<or> n = ''PEXPIREAT''" "expire_number n a = Some x"
    and late: "T < wall c + requested_ttl c n x" and D: "\<bar>wall c + requested_ttl c n x - D\<bar> \<le> \<epsilon>"
  shows "tracks \<epsilon> \<sigma> T (wall c) (dated_expire k D m) (snd (dispatch c [f, k, a] st))"
    and "\<exists>r. fst (dispatch c [f, k, a] st) = Inr r"
proof -
  note n = tracks_live [OF tr c]
  note run = dispatch_expire [OF f(1,2,3), of c _ k st]
  show "\<exists>r. fst (dispatch c [f, k, a] st) = Inr r" using run [OF order_refl] by blast
  show "tracks \<epsilon> \<sigma> T (wall c) (dated_expire k D m) (snd (dispatch c [f, k, a] st))"
  proof (rule tracks_dispatch [OF tr c(1)])
    fix t k'
    assume t: "mono c \<le> t" "t + \<sigma> \<le> T"
    note st = tracks_stable [OF tr c t]
    show "near \<epsilon> \<sigma> (live t (snd (dispatch c [f, k, a] st)) k') (dated_expire k D m k')"
    proof (cases "live (mono c) st k")
      case None
      with run [OF t(1)] st n [of k'] n [of k] show ?thesis by (simp add: dated_expire_def)
    next
      case (Some e)
      obtain v d where e: "live (mono c) st k = Some (v, d)" using Some by (cases e) auto
      obtain b d' where m: "m k = Some (b, d')" using n [of k] e by (cases "m k") auto
      have "v = PyArg b" using near_value [of \<epsilon> \<sigma> v d b d'] n [of k] e m by simp
      moreover have "t < mono c + requested_ttl c n x" using late c(1) t(2) by (simp add: clock_in_def)
      ultimately show ?thesis
        using run [OF t(1)] st n [of k'] e m D c(1)
        by (auto simp: dated_expire_def view_entry_def clock_in_def algebra_simps)
    qed
  qed
qed


section \<open>The other commands\<close>

text \<open>MSET, DEL and FLUSHDB do to the map what they say.\<close>

definition dated_assign :: "(arg \<times> arg) list \<Rightarrow> dated_map \<Rightarrow> dated_map" where
  "dated_assign ps m = fold (\<lambda>(k, v) m. m(k \<mapsto> (v, None))) ps m"

lemma near_assign:
  "0 \<le> \<epsilon> \<Longrightarrow> (\<And>k. near \<epsilon> \<sigma> (L k) (m k)) \<Longrightarrow> near \<epsilon> \<sigma> (assign_all ps L k) (dated_assign ps m k)"
proof (induction ps arbitrary: L m)
  case (Cons p ps)
  obtain a v where p: "p = (a, v)" by (cases p)
  have "near \<epsilon> \<sigma> (assign_all ps (L(a \<mapsto> (PyArg v, None))) k) (dated_assign ps (m(a \<mapsto> (v, None))) k)"
    by (rule Cons.IH) (use Cons.prems in auto)
  then show ?case by (simp add: p dated_assign_def)
qed (simp add: assign_all_def dated_assign_def)

lemma keeps_mset:
  assumes "named f ''MSET''" and "args \<noteq> []" and "even (length args)"
  shows "keeps T (f # args) m (dated_assign (arg_pairs args) m)"
proof (rule keepsI)
  fix \<epsilon> \<sigma> t :: seconds and c :: clock and st :: store
  assume a: "0 \<le> \<epsilon>" "cmd_inv st" "quiet st" "\<And>k. near \<epsilon> \<sigma> (live (mono c) st k) (m k)"
    "live t st = live (mono c) st" "mono c \<le> t"
  note run = dispatch_mset [OF a(2) assms(1) a(6) assms(2,3) refl] quiet_evicted [OF a(3), of c "f # args"]
  show "(\<exists>r. fst (dispatch c (f # args) st) = Inr r) \<and>
      (\<forall>k. near \<epsilon> \<sigma> (live t (snd (dispatch c (f # args) st)) k) (dated_assign (arg_pairs args) m k))"
    using run a near_assign [OF a(1,4)] by simp
qed

lemma live_delete_loop:
  "live t (snd (count_loop (store_delete now) ks st)) = live t st |` (- set ks)"
proof (induction ks arbitrary: st)
  case (Cons k ks)
  then show ?case
    by (simp add: store_delete_refines) (auto simp: restrict_map_def fun_eq_iff)
qed (simp add: restrict_map_def)

lemma keeps_del:
  assumes "named f ''DEL''" and "ks \<noteq> []"
  shows "keeps T (f # ks) m (m |` (- set ks))"
proof (rule keepsI)
  fix \<epsilon> \<sigma> t :: seconds and c :: clock and st :: store
  assume a: "\<And>k. near \<epsilon> \<sigma> (live (mono c) st k) (m k)" "live t st = live (mono c) st"
  have run: "dispatch c (f # ks) st = map_prod (reply_or_raise (ascii_str ''DEL'')) id
      (returning PyInt (count_loop (store_delete (mono c)) ks st))"
    using dispatch_named [OF assms(1), of cmd_del c ks st] assms(2) by (cases ks) (simp_all add: COMMANDS_def cmd_del_def)
  show "(\<exists>r. fst (dispatch c (f # ks) st) = Inr r) \<and>
      (\<forall>k. near \<epsilon> \<sigma> (live t (snd (dispatch c (f # ks) st)) k) ((m |` (- set ks)) k))"
    using a by (simp add: run live_delete_loop returning_def restrict_map_def)
qed

lemma keeps_flushdb:
  assumes "named f ''FLUSHDB''"
  shows "keeps T [f] m Map.empty"
  by (rule keepsI) (use dispatch_named [OF assms, of cmd_flushdb _ "[]"] in
      \<open>simp add: COMMANDS_def cmd_flushdb_def store_flush_refines\<close>)

lemma keeps_persist:
  assumes "named f ''PERSIST''"
  shows "keeps T [f, k] m (case m k of Some (a, Some _) \<Rightarrow> m(k \<mapsto> (a, None)) | _ \<Rightarrow> m)"
proof (rule keepsI)
  fix \<epsilon> \<sigma> t :: seconds and c :: clock and st :: store
  assume a: "\<And>k. near \<epsilon> \<sigma> (live (mono c) st k) (m k)" "live t st = live (mono c) st" "mono c \<le> t"
  note run = dispatch_persist [OF assms a(3), of k st]
  have "near \<epsilon> \<sigma> (live t (snd (dispatch c [f, k] st)) k')
      ((case m k of Some (b, Some _) \<Rightarrow> m(k \<mapsto> (b, None)) | _ \<Rightarrow> m) k')" for k'
    using run a(1) [of k'] a(1) [of k] a(2)
    by (cases "live (mono c) st k"; cases "m k") (auto split: option.splits)
  with run show "(\<exists>r. fst (dispatch c [f, k] st) = Inr r) \<and> (\<forall>k'. near \<epsilon> \<sigma> (live t (snd (dispatch c [f, k] st)) k')
      ((case m k of Some (b, Some _) \<Rightarrow> m(k \<mapsto> (b, None)) | _ \<Rightarrow> m) k'))" by blast
qed

text \<open>A counter keeps its deadline.\<close>

definition counter_arg :: "arg \<Rightarrow> int \<Rightarrow> arg" where
  "counter_arg sample n = (case sample of Bytes _ \<Rightarrow> Bytes (str_int n) | Str _ \<Rightarrow> Str (ascii_str (str_int n)))"

lemma counter_obj_arg: "counter_obj (PyArg a) n = PyArg (counter_arg a n)"
  by (simp add: counter_obj_def counter_arg_def is_bytes_def split: arg.split)

definition dated_counter :: "arg \<Rightarrow> int \<Rightarrow> dated_map \<Rightarrow> (string + int) \<times> dated_map" where
  "dated_counter k delta m =
     (case (case m k of None \<Rightarrow> Inr 0 | Some (a, _) \<Rightarrow> stored_int (PyArg a)) of
        Inl msg \<Rightarrow> (Inl msg, m)
      | Inr b \<Rightarrow>
          if \<not> (INT64_MIN \<le> b + delta \<and> b + delta \<le> INT64_MAX) then (Inl overflow_msg, m)
          else (Inr (b + delta), m(k \<mapsto> (case m k of
                  None \<Rightarrow> (counter_arg k (b + delta), None) | Some (a, d) \<Rightarrow> (counter_arg a (b + delta), d)))))"

lemma near_base:
  assumes "near \<epsilon> \<sigma> (live now st k) (m k)"
  shows "counter_base now k st = (case m k of None \<Rightarrow> Inr 0 | Some (a, _) \<Rightarrow> stored_int (PyArg a))"
  using assms near_value by (cases "live now st k"; cases "m k") (auto simp: counter_base_def)

lemma keeps_counter:
  assumes "named f n" and "counter_delta n extra = Some delta" and "fst (dated_counter k delta m) = Inr x"
  shows "keeps T (f # k # extra) m (snd (dated_counter k delta m))"
proof (rule keepsI)
  fix \<epsilon> \<sigma> t :: seconds and c :: clock and st :: store
  assume a: "0 \<le> \<epsilon>" "cmd_inv st" "quiet st" "\<And>k. near \<epsilon> \<sigma> (live (mono c) st k) (m k)"
    "live t st = live (mono c) st" "mono c \<le> t"
  obtain b where b: "counter_base (mono c) k st = Inr b" "INT64_MIN \<le> b + delta" "b + delta \<le> INT64_MAX"
    and m': "snd (dated_counter k delta m) = m(k \<mapsto> (case m k of
                  None \<Rightarrow> (counter_arg k (b + delta), None) | Some (v, d) \<Rightarrow> (counter_arg v (b + delta), d)))"
    using assms(3) near_base [where m = m and k = k, OF a(4)] by (auto simp: dated_counter_def split: sum.splits if_splits)
  note run = dispatch_counter [OF a(2) assms(1,2) b refl a(6) refl] quiet_evicted [OF a(3), of c "f # k # extra"]
  have entry: "near \<epsilon> \<sigma> (case live (mono c) st k of
          None \<Rightarrow> Some (counter_obj (PyArg k) (b + delta), None)
        | Some (v, d) \<Rightarrow> view_entry t (counter_obj v (b + delta)) d)
      (Some (case m k of None \<Rightarrow> (counter_arg k (b + delta), None) | Some (v, d) \<Rightarrow> (counter_arg v (b + delta), d)))"
  proof (cases "live (mono c) st k")
    case None
    with a(4) [of k] show ?thesis by (simp add: counter_obj_arg)
  next
    case (Some e)
    obtain v d where e: "e = (v, d)" by (cases e)
    with Some a(5) have "live t st k = Some (v, d)" by simp
    note later = live_deadline [OF this]
    obtain b' D where m: "m k = Some (b', D)" using a(4) [of k] Some e by (cases "m k") auto
    with a(4) [of k] Some e have n: "near \<epsilon> \<sigma> (Some (v, d)) (Some (b', D))" by simp
    from near_value [OF n] near_revalue [OF n] later Some e m show ?thesis by (simp add: counter_obj_arg)
  qed
  have "near \<epsilon> \<sigma> (live t (snd (dispatch c (f # k # extra) st)) k') (snd (dated_counter k delta m) k')" for k'
    using run entry a(4) [of k'] a(5) by (auto simp: m' restrict_map_def)
  with run show "(\<exists>r. fst (dispatch c (f # k # extra) st) = Inr r) \<and>
      (\<forall>k'. near \<epsilon> \<sigma> (live t (snd (dispatch c (f # k # extra) st)) k') (snd (dated_counter k delta m) k'))" by blast
qed

text \<open>A write that sets no deadline, once accepted, has one effect on all stores that show the map.\<close>

definition dates :: "string list" where
  "dates = [''SET'', ''EXPIRE'', ''PEXPIRE'', ''PEXPIREAT'']"

definition undated_writes :: "string list" where
  "undated_writes = [''MSET'', ''DEL'', ''PERSIST'', ''FLUSHDB'', ''INCR'', ''DECR'', ''INCRBY'', ''DECRBY'']"

lemma not_failed_guarded: "\<not> failed (reply_or_raise n (fst (guarded m f st))) \<Longrightarrow>
    \<exists>x. m = Inr x \<and> \<not> failed (reply_or_raise n (fst (f x st)))"
  using not_failed_Raised [of n m f st] by auto

lemma require_Inr: "require args n = Inr x \<longleftrightarrow> length args = n" "require_min args n = Inr x \<longleftrightarrow> n \<le> length args"
  by (auto simp: require_def require_min_def)

lemma accepted_counter:
  assumes f: "named f n" and n: "n = ''INCR'' \<or> n = ''DECR'' \<or> n = ''INCRBY'' \<or> n = ''DECRBY''"
    and ok: "\<not> failed (fst (dispatch c (f # args) st))"
  shows "\<exists>k extra delta. args = k # extra \<and> counter_delta n extra = Some delta"
proof -
  note unf = COMMANDS_def cmd_incr_def cmd_decr_def cmd_incrby_def cmd_decrby_def guarded_def require_def reply_or_raise_def
  from n consider "n = ''INCR''" | "n = ''DECR''" | "n = ''INCRBY''" | "n = ''DECRBY''" by blast
  then have "length args = 1 \<and> (n = ''INCR'' \<or> n = ''DECR'') \<or>
      length args = 2 \<and> (n = ''INCRBY'' \<or> n = ''DECRBY'') \<and> (\<exists>x. cmd_parse_int (args ! 1) = Inr x)"
  proof cases
    case 1
    with ok f dispatch_named [OF f, of cmd_incr c args st] show ?thesis by (auto simp: unf split: if_splits)
  next
    case 2
    with ok f dispatch_named [OF f, of cmd_decr c args st] show ?thesis by (auto simp: unf split: if_splits)
  next
    case 3
    with ok f dispatch_named [OF f, of cmd_incrby c args st] 
    show ?thesis by (auto simp: COMMANDS_def cmd_incrby_def require_Inr dest!: not_failed_guarded)
  next
    case 4
    with ok f dispatch_named [OF f, of cmd_decrby c args st]
    show ?thesis by (auto simp: COMMANDS_def cmd_decrby_def require_Inr dest!: not_failed_guarded)
  qed
  then show ?thesis by (auto simp: counter_delta_def length_Suc_conv numeral_2_eq_2)
qed

lemma keeps_accepted:
  assumes tr: "tracks \<epsilon> \<sigma> T now m st" "clock_in \<sigma> T c" "now \<le> wall c"
    and n: "named f n" "n \<in> set WRITE_COMMANDS" "n \<notin> set dates"
    and ok: "\<not> failed (fst (dispatch c (f # args) st))"
  shows "\<exists>m'. keeps T (f # args) m m'"
proof -
  have "list_all (\<lambda>n. n \<in> set dates \<or> n \<in> set undated_writes) WRITE_COMMANDS" by code_simp
  with n(2,3) have "n \<in> set undated_writes" by (auto simp: list_all_iff)
  then consider "n = ''MSET''" | "n = ''DEL''" | "n = ''PERSIST''" | "n = ''FLUSHDB''"
    | "n = ''INCR'' \<or> n = ''DECR'' \<or> n = ''INCRBY'' \<or> n = ''DECRBY''"
    unfolding undated_writes_def list.set insert_iff empty_iff by (elim disjE) simp_all
  then show ?thesis
  proof cases
    case 1
    with n have f: "named f ''MSET''" by simp
    have "2 \<le> length args \<and> even (length args)"
      using ok dispatch_named [OF f, of cmd_mset c args st]
      by (auto simp: COMMANDS_def cmd_mset_def guarded_def require_min_def reply_or_raise_def failed_def split: if_splits)
    with keeps_mset [OF f, of args T m] show ?thesis by (cases args) auto
  next
    case 2
    with n have f: "named f ''DEL''" by simp
    have "args \<noteq> []"
      using ok dispatch_named [OF f, of cmd_del c args st]
      by (auto simp: COMMANDS_def cmd_del_def reply_or_raise_def)
    with keeps_del [OF f this, of T m] show ?thesis by blast
  next
    case 3
    with n have f: "named f ''PERSIST''" by simp
    have "length args = 1"
      using ok dispatch_named [OF f, of cmd_persist c args st]
      by (auto simp: COMMANDS_def cmd_persist_def guarded_def require_def reply_or_raise_def failed_def split: if_splits)
    with keeps_persist [OF f, of T _ m] show ?thesis by (cases args) auto
  next
    case 4
    with n have f: "named f ''FLUSHDB''" by simp
    have "args = []"
      using ok dispatch_named [OF f, of cmd_flushdb c args st]
      by (auto simp: COMMANDS_def cmd_flushdb_def guarded_def require_def reply_or_raise_def failed_def split: if_splits)
    with keeps_flushdb [OF f, of T m] show ?thesis by blast
  next
    case 5
    obtain k extra delta where args: "args = k # extra" "counter_delta n extra = Some delta"
      using accepted_counter [OF n(1) 5 ok] by blast
    note base = near_base [where m = m and k = k, OF tracks_live [OF tr]]
    have "\<exists>x. fst (dated_counter k delta m) = Inr x"
    proof (rule ccontr)
      assume "\<nexists>x. fst (dated_counter k delta m) = Inr x"
      then have "(\<exists>msg. counter_base (mono c) k st = Inl msg) \<or>
          (\<exists>b. counter_base (mono c) k st = Inr b \<and> \<not> (INT64_MIN \<le> b + delta \<and> b + delta \<le> INT64_MAX))"
        unfolding dated_counter_def base [symmetric] by (auto split: sum.splits if_splits)
      then obtain msg where "fst (dispatch c (f # k # extra) st) = Inr (Error msg)"
        using dispatch_counter_refused [OF n(1) args(2) order_refl, of c k st] by blast
      with ok args(1) show False by simp
    qed
    with keeps_counter [OF n(1) args(2)] args(1) show ?thesis by blast
  qed
qed

end
