(* ===== verification/Dated_Restart.thy ===== *)
theory Dated_Restart
  imports Dated_Map
begin

text \<open>
  A restart with deadlines. As long as no deadline passes before the server is up again, replaying its log gives every key
  the value it had, with its deadline within a millisecond. The locale \<open>recorded\<close> is interpreted with the view of a store
  that has deadlines; the log stores a deadline as a wall-clock time in milliseconds.
\<close>

section \<open>Reads, failures and the sweep\<close>

lemma tracks_same:
  assumes tr: "tracks \<epsilon> \<sigma> T now m st" and c: "clock_in \<sigma> T c" "now \<le> wall c"
    and same: "failed (fst (dispatch c (f # args) st)) \<or> \<not> is_write_command (str_upper (to_text f))"
  shows "tracks \<epsilon> \<sigma> T (wall c) m (snd (dispatch c (f # args) st))"
proof (rule tracks_dispatch [OF tr c(1)])
  fix t k
  assume t: "mono c \<le> t" "t + \<sigma> \<le> T"
  have "live t (snd (dispatch c (f # args) st)) = live t st"
    using same dispatch_failed [OF tracksD(1) [OF tr] t(1)] dispatch_read [OF tracksD(1) [OF tr] t(1)] by blast
  with tracks_stable [OF tr c t] tracks_live [OF tr c] show "near \<epsilon> \<sigma> (live t (snd (dispatch c (f # args) st)) k) (m k)"
    by simp
qed

lemma tracks_sweep:
  assumes tr: "tracks \<epsilon> \<sigma> T now m st" and c: "clock_in \<sigma> T c" "now \<le> wall c"
  shows "tracks \<epsilon> \<sigma> T (wall c) m (snd (sweep_expired (mono c) st))"
proof -
  have "near \<epsilon> \<sigma> (live t (snd (sweep_expired (mono c) st)) k) (m k)" if t: "mono c \<le> t" "t + \<sigma> \<le> T" for t k
    using live_sweep [OF cmd_invD(1) [OF tracksD(1) [OF tr]] t(1)] tracks_stable [OF tr c t] tracks_live [OF tr c] by simp
  moreover have "quiet (snd (sweep_expired (mono c) st))" by (rule quiet.I_sweep [OF tracksD(2) [OF tr]])
  ultimately show ?thesis using tracksD [OF tr] c by (auto simp: tracks_def clock_in_def inv_intros)
qed


section \<open>Replaying the log\<close>

definition steady :: "seconds \<Rightarrow> seconds \<Rightarrow> (nat \<Rightarrow> clock) \<Rightarrow> bool" where
  "steady \<sigma> T clk \<longleftrightarrow> (\<forall>i. clock_in \<sigma> T (clk i) \<and> wall (clk i) \<le> wall (clk (Suc i)))"

text \<open>\<open>redates T cs m m'\<close>: the recorded commands, run on any store that shows \<open>m\<close> to the millisecond, leave one that shows \<open>m'\<close>.\<close>

abbreviation ms :: seconds where "ms \<equiv> 1 / 1000"

definition redates :: "seconds \<Rightarrow> arg list list \<Rightarrow> dated_map \<Rightarrow> dated_map \<Rightarrow> bool" where
  "redates T cs m m' \<longleftrightarrow> list_all record_ok cs \<and>
     (\<forall>\<sigma> clk n st. steady \<sigma> T clk \<longrightarrow> tracks ms \<sigma> T (wall (clk n)) m st \<longrightarrow>
        (\<exists>n' st'. run_commands clk n (map wire_form cs) st = Inr (n', st') \<and> tracks ms \<sigma> T (wall (clk n')) m' st'))"

lemma redates_Nil: "redates T [] m m"
  by (simp add: redates_def)

lemma redates_append: "redates T cs m m' \<Longrightarrow> redates T ds m' m'' \<Longrightarrow> redates T (cs @ ds) m m''"
proof -
  assume a: "redates T cs m m'" "redates T ds m' m''"
  have "\<exists>n' st'. run_commands clk n (map wire_form (cs @ ds)) st = Inr (n', st') \<and> tracks ms \<sigma> T (wall (clk n')) m'' st'"
    if h: "steady \<sigma> T clk" "tracks ms \<sigma> T (wall (clk n)) m st" for \<sigma> clk n st
  proof -
    obtain n1 st1 where 1: "run_commands clk n (map wire_form cs) st = Inr (n1, st1)" "tracks ms \<sigma> T (wall (clk n1)) m' st1"
      using a(1) h unfolding redates_def by blast
    obtain n2 st2 where "run_commands clk n1 (map wire_form ds) st1 = Inr (n2, st2)" "tracks ms \<sigma> T (wall (clk n2)) m'' st2"
      using a(2) h(1) 1(2) unfolding redates_def by blast
    with 1(1) show ?thesis by (simp add: run_commands_append)
  qed
  with a show ?thesis by (simp add: redates_def)
qed

lemma redates_one:
  assumes "record_ok command" and "wire_form command \<noteq> []"
    and step: "\<And>\<sigma> c st. tracks ms \<sigma> T (wall c) m st \<Longrightarrow> clock_in \<sigma> T c \<Longrightarrow>
      (\<exists>r. fst (dispatch c (map Bytes (wire_form command)) st) = Inr r) \<and>
      tracks ms \<sigma> T (wall c) m' (snd (dispatch c (map Bytes (wire_form command)) st))"
  shows "redates T [command] m m'"
proof -
  have "\<exists>n' st'. run_commands clk n [wire_form command] st = Inr (n', st') \<and> tracks ms \<sigma> T (wall (clk n')) m' st'"
    if h: "steady \<sigma> T clk" "tracks ms \<sigma> T (wall (clk n)) m st" for \<sigma> clk n st
  proof -
    have c: "clock_in \<sigma> T (clk n)" "wall (clk n) \<le> wall (clk (Suc n))" using h(1) by (simp_all add: steady_def)
    obtain r st1 where d: "dispatch (clk n) (map Bytes (wire_form command)) st = (Inr r, st1)"
      "tracks ms \<sigma> T (wall (clk n)) m' st1"
      using step [OF h(2) c(1)] by (cases "dispatch (clk n) (map Bytes (wire_form command)) st") auto
    with tracks_later [OF d(2) c(2)] assms(2) show ?thesis by simp
  qed
  with assms(1) show ?thesis by (simp add: redates_def)
qed

lemma redates_keeps:
  assumes "record_ok command" and "wire_form command \<noteq> []" and "keeps T (map Bytes (wire_form command)) m m'"
  shows "redates T [command] m m'"
  by (rule redates_one [OF assms(1,2)]) (use keepsD [OF assms(3) _ _ _ order_refl, of ms] in simp)


section \<open>The records of an accepted write\<close>

text \<open>A command whose deadlines come after the horizon, by more than the rounding of the log.\<close>

definition outlives :: "seconds \<Rightarrow> clock \<Rightarrow> bytes list \<Rightarrow> bool" where
  "outlives T c command =
     (let f = Bytes (hd command); args = map Bytes (tl command)
      in (named f ''SET'' \<longrightarrow> (case parse_set args of
             Inr opts \<Rightarrow> (case ottl opts of Some x \<Rightarrow> T + ms < wall c + x | None \<Rightarrow> True) | Inl _ \<Rightarrow> True)) \<and>
         list_all (\<lambda>n. named f n \<and> length args = 2 \<longrightarrow> (case expire_number n (args ! 1) of
             Some x \<Rightarrow> T + ms < wall c + requested_ttl c n x | None \<Rightarrow> True)) [''EXPIRE'', ''PEXPIRE'', ''PEXPIREAT''])"

lemma redates_set:
  assumes "wire_arg k" and "wire_arg v"
  shows "redates T [[word_arg ''SET'', k, v]] m (m(k \<mapsto> (v, None)))"
proof -
  obtain kb vb where b: "k = Bytes kb" "v = Bytes vb" using assms by (auto simp: wire_arg_def split: arg.splits)
  let ?o = "\<lparr>okey = k, oval = v, nx = False, xx = False, oget = False, ottl = None\<rparr>"
  have ok: "parse_set [k, v] = Inr ?o" by (simp add: parse_set_def)
  have m': "dated_set c ?o m = m(k \<mapsto> (v, None))" for c by (simp add: dated_set_def)
  show ?thesis
  proof (rule redates_one [OF record_ok_set [OF assms]])
    show "wire_form [word_arg ''SET'', k, v] \<noteq> []" by simp
    fix \<sigma> and c :: clock and st :: store
    assume tr: "tracks ms \<sigma> T (wall c) m st" and c: "clock_in \<sigma> T c"
    from set_tracks [OF tr c order_refl _ named_words(1) ok]
    show "(\<exists>r. fst (dispatch c (map Bytes (wire_form [word_arg ''SET'', k, v])) st) = Inr r) \<and>
        tracks ms \<sigma> T (wall c) (m(k \<mapsto> (v, None))) (snd (dispatch c (map Bytes (wire_form [word_arg ''SET'', k, v])) st))"
      by (simp add: b m' [unfolded b])
  qed
qed

text \<open>A deadline in the log is within a millisecond of the one it stands for.\<close>

lemma redates_deadline:
  assumes "wire_arg k" and n: "\<bar>n\<bar> < 10 ^ 30" and D: "T + ms < D" "\<bar>of_int n / 1000 - D\<bar> \<le> ms"
  shows "redates T [pexpireat_command k n] m (dated_expire k D m)"
proof -
  obtain kb where b: "k = Bytes kb" using assms(1) by (auto simp: wire_arg_def split: arg.splits)
  have "(10::int) ^ 30 \<le> MAX_FLOAT_MS" by (simp add: MAX_FLOAT_MS_def)
  with n have num: "expire_number ''PEXPIREAT'' (Bytes (str_int n)) = Some n" by (intro expire_number_ms) simp
  have T: "T < of_int n / 1000" using D by linarith
  have wire: "map Bytes (wire_form (pexpireat_command k n)) = [Bytes ''PEXPIREAT'', k, Bytes (str_int n)]"
    by (simp add: pexpireat_command_def b is_ascii_str_int)
  have ttl: "wall c + requested_ttl c ''PEXPIREAT'' n = of_int n / 1000" for c by (simp add: requested_ttl_def)
  show ?thesis
  proof (rule redates_one [OF record_ok_pexpireat [OF n assms(1)]])
    show "wire_form (pexpireat_command k n) \<noteq> []" by (simp add: pexpireat_command_def)
    fix \<sigma> and c :: clock and st :: store
    assume tr: "tracks ms \<sigma> T (wall c) m st" and c: "clock_in \<sigma> T c"
    from expire_tracks [OF tr c order_refl named_words(2) _ num, unfolded ttl, OF _ T D(2), of k]
    show "(\<exists>r. fst (dispatch c (map Bytes (wire_form (pexpireat_command k n))) st) = Inr r) \<and>
        tracks ms \<sigma> T (wall c) (dated_expire k D m) (snd (dispatch c (map Bytes (wire_form (pexpireat_command k n))) st))"
      unfolding wire by blast
  qed
qed

lemma deadline_near: "\<bar>of_int (deadline_ms w x) / 1000 - (w + x)\<bar> \<le> ms"
  using py_round_bounds [of "(w + x) * 1000"] by (simp add: deadline_ms_def field_simps abs_le_iff)

lemma py_trunc_near: "\<bar>of_int (py_trunc x) - x\<bar> \<le> 1"
  using floor_correct [of x] ceiling_correct [of x] by (simp add: py_trunc_def abs_le_iff) linarith

lemma pexpire_near: "\<bar>of_int (py_trunc (w * 1000) + n) / 1000 - (w + of_int n / 1000)\<bar> \<le> ms"
  using py_trunc_near [of "w * 1000"] by (simp add: field_simps abs_le_iff)

text \<open>An accepted EXPIRE, PEXPIRE or PEXPIREAT and the record it leaves.\<close>

lemma accepted_date:
  assumes f: "named f n" and n: "n = ''EXPIRE'' \<or> n = ''PEXPIRE'' \<or> n = ''PEXPIREAT''"
    and ok: "\<not> failed (fst (dispatch c (f # args) st))"
  shows "\<exists>k a x. args = [k, a] \<and> expire_number n a = Some x"
proof -
  from n have "length args = 2 \<and> (\<exists>x. expire_number n (args ! 1) = Some x)"
  proof (elim disjE)
    assume "n = ''EXPIRE''"
    with ok f dispatch_named [OF f, of cmd_expire c args st] show ?thesis
      by (auto simp: COMMANDS_def cmd_expire_def require_Inr expire_number_def dest!: not_failed_guarded)
  next
    assume "n = ''PEXPIRE''"
    with ok f dispatch_named [OF f, of cmd_pexpire c args st] show ?thesis
      by (auto simp: COMMANDS_def cmd_pexpire_def require_Inr expire_number_def dest!: not_failed_guarded)
  next
    assume n: "n = ''PEXPIREAT''"
    with ok f dispatch_named [OF f, of cmd_pexpireat c args st] show ?thesis
      by (auto simp: COMMANDS_def cmd_pexpireat_def guarded_def require_def expire_number_def reply_or_raise_def
          split: sum.splits if_splits)
  qed
  then show ?thesis by (auto simp: length_Suc_conv numeral_2_eq_2)
qed

text \<open>A write on a store with a view: what it leaves, and that its records leave the same when they are replayed.\<close>

definition dated_view :: "seconds \<Rightarrow> seconds \<Rightarrow> clock \<Rightarrow> dated_map \<Rightarrow> store \<Rightarrow> bool" where
  "dated_view \<sigma> T c m st \<longleftrightarrow> tracks 0 \<sigma> T (wall c) m st \<and> clock_in \<sigma> T c"

definition in_time :: "seconds \<Rightarrow> seconds \<Rightarrow> clock \<Rightarrow> clock \<Rightarrow> bool" where
  "in_time \<sigma> T c c' \<longleftrightarrow> wall c \<le> wall c' \<and> clock_in \<sigma> T c'"

lemma outlives_set:
  "outlives T c (f # rest) \<Longrightarrow> named (Bytes f) ''SET'' \<Longrightarrow> parse_set (map Bytes rest) = Inr opts \<Longrightarrow> ottl opts = Some x \<Longrightarrow>
   T + ms < wall c + x"
  by (simp add: outlives_def Let_def)

lemma outlives_expire:
  "outlives T c [f, k, a] \<Longrightarrow> named (Bytes f) n \<Longrightarrow> n = ''EXPIRE'' \<or> n = ''PEXPIRE'' \<or> n = ''PEXPIREAT'' \<Longrightarrow>
   expire_number n (Bytes a) = Some x \<Longrightarrow> T + ms < wall c + requested_ttl c n x"
  by (auto simp: outlives_def Let_def)

lemma redates_set_deadline:
  assumes "wire_arg k" and "wire_arg v" and "clock_ok c" and "0 < x" "x \<le> 2 ^ 63" and "T + ms < wall c + x"
  shows "redates T [[word_arg ''SET'', k, v], pexpireat_command k (deadline_ms (wall c) x)] m (m(k \<mapsto> (v, Some (wall c + x))))"
proof -
  have "redates T [pexpireat_command k (deadline_ms (wall c) x)] (m(k \<mapsto> (v, None)))
      (dated_expire k (wall c + x) (m(k \<mapsto> (v, None))))"
    by (rule redates_deadline [OF assms(1) deadline_small [OF assms(3)] assms(6) deadline_near]) (use assms(4,5) in simp)
  from redates_append [OF redates_set [OF assms(1,2)] this] show ?thesis by (simp add: dated_expire_def)
qed

text \<open>The record of an accepted EXPIRE, PEXPIRE or PEXPIREAT.\<close>

lemma expire_record:
  assumes "clock_ok c" and n: "n = ''EXPIRE'' \<or> n = ''PEXPIRE'' \<or> n = ''PEXPIREAT''" and f: "named (Bytes f) n"
    and x: "expire_number n (Bytes a) = Some x" and ok: "ok_command [f, k, a]"
    and late: "T + ms < wall c + requested_ttl c n x"
    and aof: "to_aof_commands (wall c) (map Bytes [f, k, a]) = Inr cs"
  shows "redates T cs m (dated_expire (Bytes k) (wall c + requested_ttl c n x) m)"
proof -
  have k: "wire_arg (Bytes k)" using ok by (simp add: ok_command_def wire_arg_def)
  note name = f [unfolded named_def]
  from n show ?thesis
  proof (elim disjE)
    assume n: "n = ''EXPIRE''"
    then have i: "cmd_parse_int (Bytes a) = Inr x" using x by (simp add: expire_number_def split: sum.splits)
    have "\<bar>of_int x\<bar> \<le> (2 ^ 63 :: rat)"
      using cmd_parse_int_Inr [OF i] by (simp flip: of_int_abs) (simp add: INT64_MIN_def INT64_MAX_def abs_le_iff)
    from redates_deadline [OF k deadline_small [OF assms(1) this] _ deadline_near] late n py_float_int [OF i] aof name
    show ?thesis by (auto simp: to_aof_commands_def Let_def ascii_str_inj float_deadline_def requested_ttl_def)
  next
    assume n: "n = ''PEXPIRE''"
    then have i: "cmd_parse_int (Bytes a) = Inr x" using x by (simp add: expire_number_def split: sum.splits)
    have s: "py_int_str (to_text (Bytes a)) = Inr x"
      using i by (auto simp: cmd_parse_int_def Let_def split: if_splits sum.splits)
    have "\<bar>py_trunc (wall c * 1000)\<bar> \<le> 10 ^ 22"
      by (rule py_trunc_bound) (use assms(1) in \<open>simp add: clock_ok_def abs_mult\<close>)
    with cmd_parse_int_Inr [OF i] have "\<bar>py_trunc (wall c * 1000) + x\<bar> < 10 ^ 30"
      by (simp add: INT64_MIN_def INT64_MAX_def abs_less_iff abs_le_iff)
    from redates_deadline [OF k this _ pexpire_near] late n s aof name
    show ?thesis by (auto simp: to_aof_commands_def Let_def ascii_str_inj requested_ttl_def)
  next
    assume n: "n = ''PEXPIREAT''"
    have cs: "cs = [[Bytes f, Bytes k, Bytes a]]" using aof name n by (simp add: to_aof_commands_def Let_def ascii_str_inj)
    have ttl: "wall c' + requested_ttl c' ''PEXPIREAT'' x = of_int x / 1000" for c' by (simp add: requested_ttl_def)
    have "0 \<le> ms" by simp
    then have T: "T < of_int x / 1000" using late unfolding n ttl by linarith
    have rec: "record_ok [Bytes f, Bytes k, Bytes a]" using ok record_ok_wire [of "[f, k, a]"] by simp
    show ?thesis
      unfolding cs n ttl
    proof (rule redates_one [OF rec])
      show "wire_form [Bytes f, Bytes k, Bytes a] \<noteq> []" by simp
      fix \<sigma> and c' :: clock and st :: store
      assume tr: "tracks ms \<sigma> T (wall c') m st" and c': "clock_in \<sigma> T c'"
      from expire_tracks [OF tr c' order_refl f [unfolded n] _ x [unfolded n], unfolded ttl, OF _ T, of "of_int x / 1000" "Bytes k"]
      show "(\<exists>r. fst (dispatch c' (map Bytes (wire_form [Bytes f, Bytes k, Bytes a])) st) = Inr r) \<and>
          tracks ms \<sigma> T (wall c') (dated_expire (Bytes k) (of_int x / 1000) m)
            (snd (dispatch c' (map Bytes (wire_form [Bytes f, Bytes k, Bytes a])) st))" by simp
    qed
  qed
qed

lemma bytes_upper_idem: "is_ascii b \<Longrightarrow> bytes_upper (bytes_upper b) = bytes_upper b"
  by (induction b) (auto simp: bytes_upper_def Let_def)

lemma write_named:
  assumes "is_write_command (server_name command)"
  shows "\<exists>n. named (Bytes (hd command)) n \<and> n \<in> set WRITE_COMMANDS"
proof -
  have asc: "is_ascii (hd command)" using assms write_name_ascii [of "hd command"] by (simp add: server_name_def)
  have up: "str_upper (to_text (Bytes (hd command))) = ascii_str (bytes_upper (hd command))"
    using asc by (simp add: to_text_def utf8_decode_ascii bytes_upper_ascii)
  have "is_ascii (bytes_upper (hd command))" using asc by (auto simp: list_all_iff bytes_upper_def Let_def)
  then have "str_upper (server_name command) = server_name command"
    using bytes_upper_idem [OF asc] up server_name_ascii [OF asc] by (simp add: bytes_upper_ascii)
  with assms up server_name_ascii [OF asc] show ?thesis by (auto simp: is_write_command_def named_def)
qed

text \<open>What an accepted write does to the map, whatever is then made of it in the log or on a link.\<close>

inductive written :: "seconds \<Rightarrow> clock \<Rightarrow> bytes list \<Rightarrow> dated_map \<Rightarrow> dated_map \<Rightarrow> bool" for T c where
  written_set: "named (Bytes f) ''SET'' \<Longrightarrow> parse_set (map Bytes args) = Inr opts \<Longrightarrow>
    (\<And>x. ottl opts = Some x \<Longrightarrow> T + ms < wall c + x) \<Longrightarrow>
    written T c (f # args) m (m(okey opts \<mapsto> (oval opts, map_option (\<lambda>x. wall c + x) (ottl opts))))"
| written_date: "named (Bytes f) n \<Longrightarrow> n = ''EXPIRE'' \<or> n = ''PEXPIRE'' \<or> n = ''PEXPIREAT'' \<Longrightarrow>
    expire_number n (Bytes a) = Some x \<Longrightarrow> T + ms < wall c + requested_ttl c n x \<Longrightarrow>
    written T c [f, k, a] m (dated_expire (Bytes k) (wall c + requested_ttl c n x) m)"
| written_other: "named (Bytes f) n \<Longrightarrow> n \<notin> set dates \<Longrightarrow> keeps T (Bytes f # map Bytes args) m m' \<Longrightarrow>
    written T c (f # args) m m'"

lemma accepted_effect:
  assumes v: "dated_view \<sigma> T c m st" and cmd: "command \<noteq> []" and late: "outlives T c command"
    and wr: "is_write_command (server_name command)"
    and run: "dispatch c (map Bytes command) st = (Inr reply, st1)" and ok: "\<not> is_error reply"
  shows "\<exists>m'. dated_view \<sigma> T c m' st1 \<and>
    (if server_name command \<noteq> ascii_str ''SET'' \<or> writes st1 \<noteq> writes st then written T c command m m' else m' = m)"
proof -
  obtain f args where fa: "command = f # args" using cmd by (cases command) auto
  have tr: "tracks 0 \<sigma> T (wall c) m st" and c: "clock_in \<sigma> T c" using v by (simp_all add: dated_view_def)
  have name: "server_name command = str_upper (to_text (Bytes f))" using dispatch_write_name [OF wr] fa by simp
  obtain n where n: "named (Bytes f) n" "n \<in> set WRITE_COMMANDS"
    using write_named [OF wr] fa by auto
  have nf: "\<not> failed (fst (dispatch c (Bytes f # map Bytes args) st))" using run ok fa by (simp add: failed_is_error)
  have is_set: "server_name command = ascii_str ''SET'' \<longleftrightarrow> n = ''SET''" using n(1) name by (simp add: named_def ascii_str_inj)
  consider (set) "n = ''SET''" | (date) "n = ''EXPIRE'' \<or> n = ''PEXPIRE'' \<or> n = ''PEXPIREAT''" | (other) "n \<notin> set dates"
    by (auto simp: dates_def)
  then show ?thesis
  proof cases
    case set
    then have s: "named (Bytes f) ''SET''" using n(1) by simp
    obtain opts where opts: "parse_set (map Bytes args) = Inr opts"
      using nf dispatch_named [OF s, of cmd_set c "map Bytes args" st]
      by (auto simp: COMMANDS_def cmd_set_def dest!: not_failed_guarded)
    have late': "T + ms < wall c + x" if "ottl opts = Some x" for x
      using outlives_set [OF late [unfolded fa] s opts that] .
    have "T < wall c + x" if "ottl opts = Some x" for x using late' [OF that] by simp
    note new = set_tracks [OF tr c order_refl order_refl s opts this]
    let ?m = "dated_set c opts m"
    have view: "dated_view \<sigma> T c ?m st1" using new(1) run fa c by (simp add: dated_view_def)
    note set = dispatch_set [OF tracksD(1) [OF tr] s opts refl order_refl refl refl, of c]
    show ?thesis
    proof (cases "set_blocked (mono c) opts st")
      case True
      with set run fa have "writes st1 = writes st" by simp
      moreover have "?m = m" using True new(2) by (simp add: dated_set_def)
      ultimately show ?thesis using view is_set \<open>n = ''SET''\<close> by auto
    next
      case False
      then have "?m = m(okey opts \<mapsto> (oval opts, map_option (\<lambda>x. wall c + x) (ottl opts)))"
        using new(2) by (auto simp: dated_set_def)
      with written_set [OF s opts late', of m] have "written T c command m ?m" by (simp add: fa)
      with view False show ?thesis using set run fa by auto
    qed
  next
    case date
    obtain k a x where args: "map Bytes args = [k, a]" "expire_number n a = Some x"
      using accepted_date [OF n(1) date nf] by (elim exE conjE)
    then obtain kb ab where b: "args = [kb, ab]" "k = Bytes kb" "a = Bytes ab" by auto
    have late: "T + ms < wall c + requested_ttl c n x"
      using outlives_expire [OF late [unfolded fa b(1)] n(1) date] args b by simp
    have "\<bar>wall c + requested_ttl c n x - (wall c + requested_ttl c n x)\<bar> \<le> 0" "T < wall c + requested_ttl c n x"
      using late by simp_all
    from expire_tracks(1) [OF tr c order_refl n(1) date args(2) this(2,1), of k]
    have "dated_view \<sigma> T c (dated_expire k (wall c + requested_ttl c n x) m) st1"
      using run fa args c by (simp add: dated_view_def)
    with written_date [OF n(1) date args(2) [unfolded b(3)] late, of kb m] date is_set b fa show ?thesis by auto
  next
    case other
    obtain m' where m': "keeps T (Bytes f # map Bytes args) m m'"
      using keeps_accepted [OF tr c order_refl n other nf] by blast
    have "dated_view \<sigma> T c m' st1"
      using keepsD(2) [OF m' order_refl tr c order_refl] run fa c by (simp add: dated_view_def)
    moreover have "n \<noteq> ''SET''" using other by (auto simp: dates_def)
    ultimately show ?thesis using is_set written_other [OF n(1) other m'] fa by auto
  qed
qed

text \<open>The records of such a write in the log.\<close>

lemma written_recorded:
  assumes "written T c command m m'" and clk: "clock_ok c" and ok: "ok_command command"
    and aof: "to_aof_commands (wall c) (map Bytes command) = Inr cs"
  shows "redates T cs m m'"
  using assms(1)
proof cases
  case (written_set f args opts)
  have wire: "list_all wire_arg (map Bytes args)"
    using ok written_set(1) by (auto simp: ok_command_def list_all_iff wire_arg_def)
  note w = set_options_wire [OF written_set(4) wire]
  show ?thesis
  proof (cases "ottl opts")
    case None
    then have "cs = [[word_arg ''SET'', okey opts, oval opts]]"
      using aof written_set by (simp add: to_aof_commands_def Let_def named_def)
    with redates_set [OF w(1,2), of T m] None written_set(2) show ?thesis by simp
  next
    case (Some x)
    then have "cs = [[word_arg ''SET'', okey opts, oval opts], pexpireat_command (okey opts) (deadline_ms (wall c) x)]"
      using aof written_set by (simp add: to_aof_commands_def Let_def named_def)
    with redates_set_deadline [OF w(1,2) clk _ _ written_set(5) [OF Some], of m] w(3) [OF Some] Some written_set(2)
    show ?thesis by simp
  qed
next
  case (written_date f n a x k)
  show ?thesis
    unfolding written_date(2)
    by (rule expire_record [OF clk written_date(4,3,5) _ written_date(6)]) (use written_date(1) ok aof in simp_all)
next
  case (written_other f n args)
  have "cs = [map Bytes command]"
    using aof written_other by (auto simp: to_aof_commands_def Let_def named_def dates_def ascii_str_inj)
  moreover have "redates T [map Bytes command] m m'"
    by (rule redates_keeps) (use ok written_other record_ok_wire [of command] in simp_all)
  ultimately show ?thesis by simp
qed


section \<open>After a restart\<close>

interpretation dated: recorded "dated_view \<sigma> T" "outlives T" "in_time \<sigma> T" "redates T" "\<lambda>_ _ _. True"
  for \<sigma> T :: seconds
proof unfold_locales
  show "cmd_inv st \<and> no_evict st" if "dated_view \<sigma> T c m st" for c m st
    using that tracksD by (auto simp: dated_view_def quiet_def)
  show "dated_view \<sigma> T c' m st" if "dated_view \<sigma> T c m st" "in_time \<sigma> T c c'" for c c' m st
    using that tracks_later by (auto simp: dated_view_def in_time_def)
  show "\<exists>m'. dated_view \<sigma> T c m' st1 \<and> (if server_name command \<noteq> ascii_str ''SET'' \<or> writes st1 \<noteq> writes st
      then redates T cs m m' \<and> True else m' = m)"
    if "dated_view \<sigma> T c m st" "clock_ok c" "command \<noteq> []" "ok_command command" "outlives T c command"
      "is_write_command (server_name command)" "dispatch c (map Bytes command) st = (Inr reply, st1)" "\<not> is_error reply"
      "to_aof_commands (wall c) (map Bytes command) = Inr cs" for m st c command reply st1 cs
    using accepted_effect [OF that(1,3,5-8)] written_recorded [OF _ that(2,4,9)] by (metis (no_types))
  show "dated_view \<sigma> T c m st1" if v: "dated_view \<sigma> T c m st" and cmd: "command \<noteq> []" "is_ascii (hd command)"
    and d: "dispatch c (map Bytes command) st = (r, st1)" and f: "failed r \<or> \<not> is_write_command (server_name command)"
    for m st command c r st1
  proof -
    obtain g args where fa: "command = g # args" using cmd(1) by (cases command) auto
    have "tracks 0 \<sigma> T (wall c) m (snd (dispatch c (Bytes g # map Bytes args) st))"
      by (rule tracks_same [OF _ _ order_refl]) (use v d f fa server_name_ascii [OF cmd(2)] in \<open>auto simp: dated_view_def\<close>)
    with v d fa show ?thesis by (simp add: dated_view_def)
  qed
  show "dated_view \<sigma> T c m (snd (sweep_expired (mono c) st))" if "dated_view \<sigma> T c m st" for m st c
    using that tracks_sweep [OF _ _ order_refl] by (auto simp: dated_view_def)
  show "redates T (cs @ ds) m m''" if "redates T cs m m'" "redates T ds m' m''" for cs ds m m' m''
    using that by (rule redates_append)
qed (simp_all add: redates_Nil)

lemma close_trans:
  "near 0 \<sigma> e x \<Longrightarrow> near \<epsilon> \<sigma>' e' x \<Longrightarrow>
   close \<epsilon> (map_option (map_prod id (map_option (\<lambda>d. d + \<sigma>))) e) (map_option (map_prod id (map_option (\<lambda>d. d + \<sigma>'))) e')"
  unfolding near_def close_def
  by (auto simp: option_rel_Some1 option_rel_Some2 rel_option_iff rel_prod_sel abs_minus_commute split: option.splits)

lemma fresh_tracks:
  assumes "st = fresh_store 0 pol"
  shows "tracks \<epsilon> \<sigma> T now Map.empty st"
proof -
  have "live t st k = None" for t k using assms by (simp add: live_def fresh_store_def od_get_def)
  moreover have "quiet st"
    using assms cmd_invD(1) [OF cmd_inv_fresh [of 0 pol]] by (simp add: quiet_def no_evict_def) (simp add: fresh_store_def)
  ultimately show ?thesis using assms cmd_inv_fresh [of 0 pol] by (simp add: tracks_def)
qed

lemma seen_at_evicted [simp]: "seen_at \<sigma> w (st\<lparr>evicted := ev\<rparr>) k = seen_at \<sigma> w st k"
  by (simp add: seen_at_def)

lemma dated_restart:
  assumes s: "shows_map (dated_view \<sigma> T) c0 Map.empty s" "log_contents s = Some []"
    and reqs: "list_all (request (outlives T)) reqs" "in_order (in_time \<sigma> T) c0 reqs"
    and l: "log_contents (serve_all reqs s) = Some (contents l)"
    and fresh: "st0 = fresh_store 0 pol" and clk: "steady \<sigma>' T clk"
  shows "\<exists>n st'. replay clk l st0 = Inr (n, None, l, st') \<and>
    (\<forall>w k. (\<forall>i. wall (clk i) \<le> w) \<and> wall (last_clock c0 reqs) \<le> w \<and> w \<le> T \<longrightarrow>
       close ms (seen_at \<sigma> w (sstore (serve_all reqs s)) k) (seen_at \<sigma>' w st' k))"
proof -
  obtain m' recs where m': "shows_map (dated_view \<sigma> T) (last_clock c0 reqs) m' (serve_all reqs s)"
    and rep: "redates T recs Map.empty m'" and log: "contents l = log_bytes (map wire_form recs)"
    using dated.run_steps [OF s(1) reqs] s(2) l by auto
  have ok: "list_all ok_command (map wire_form recs)"
    using rep by (auto simp: redates_def list_all_iff record_ok_def)
  obtain n st' where run: "run_commands clk 0 (map wire_form recs) st0 = Inr (n, st')"
    and st': "tracks ms \<sigma>' T (wall (clk n)) m' st'"
    using rep clk fresh_tracks [OF fresh] unfolding redates_def by blast
  have tr: "tracks 0 \<sigma> T (wall (last_clock c0 reqs)) m' (sstore (serve_all reqs s))"
    using m' by (simp add: shows_map_def dated_view_def)
  have same: "close ms (seen_at \<sigma> w (sstore (serve_all reqs s)) k) (seen_at \<sigma>' w st' k)"
    if "\<forall>i. wall (clk i) \<le> w" "wall (last_clock c0 reqs) \<le> w" "w \<le> T" for w k
  proof -
    have "near 0 \<sigma> (live (w - \<sigma>) (sstore (serve_all reqs s)) k) (m' k)" using tr that(2,3) by (simp add: tracks_def)
    moreover have "near ms \<sigma>' (live (w - \<sigma>') st' k) (m' k)" using st' that(1,3) by (simp add: tracks_def)
    ultimately show ?thesis unfolding seen_at_def by (rule close_trans)
  qed
  show ?thesis
  proof (cases "recs = []")
    case True
    then show ?thesis using log run same by (auto simp: replay_def)
  next
    case False
    with replay_intact [OF ok log run] same show ?thesis by auto
  qed
qed

end
