(* ===== verification/Server_Sync.thy ===== *)
theory Server_Sync
  imports Restart
begin

text \<open>
  A replica from its SYNC on: what the primary queues on the new link, what the replica has once it
  has executed it, and that it follows the primary through later writes.
\<close>

section \<open>The snapshot on the link\<close>

lemma encode_each_all: "encode_each vs = Inr bs \<Longrightarrow> encode_all vs = Inr (concat bs)"
  by (induction vs arbitrary: bs) (auto simp: sum_bind_eq_Inr map_sum_eq_Inr simp del: encode.simps)

lemma encode_all_each: "encode_all vs = Inr b \<Longrightarrow> \<exists>bs. encode_each vs = Inr bs \<and> concat bs = b"
  by (induction vs arbitrary: b) (fastforce simp: sum_bind_eq_Inr map_sum_eq_Inr simp del: encode.simps)+

lemma serve_replica_run:
  assumes "wire_inv (sstore s)"
  shows "\<exists>link. serve_replica c s =
      (None, s\<lparr>sstore := snd (sweep_expired (mono c) (sstore s)), replicas := replicas s @ [link]\<rparr>) \<and>
     live_link link \<and> handed link = encode_command [''FLUSHDB''] @ log_bytes (snapshot_log c (sstore s))"
proof -
  let ?cmds = "fst (build_snapshot_commands c (sstore s))"
  obtain bs where bs: "encode_each (map PyList ?cmds) = Inr bs" "concat bs = log_bytes (snapshot_log c (sstore s))"
    using encode_all_each [OF encode_snapshot [OF wire_invD(1,2) [OF assms], of c]] by blast
  have flush: "encode (command_obj [word_arg ''FLUSHDB'']) = Inr (encode_command [''FLUSHDB''])"
    using encode_sendable [of "[word_arg ''FLUSHDB'']"] by simp
  let ?link = "link_send_all (encode_command [''FLUSHDB''] # bs) (link_open REPLICA_BACKLOG_LIMIT)"
  have "snd (build_snapshot_commands c (sstore s)) = snd (sweep_expired (mono c) (sstore s))"
    by (simp add: build_snapshot_commands_def case_prod_beta store_snapshot_def Let_def)
  then have "serve_replica c s =
      (None, s\<lparr>sstore := snd (sweep_expired (mono c) (sstore s)), replicas := replicas s @ [?link]\<rparr>)"
    using bs(1) flush by (simp add: serve_replica_def case_prod_beta)
  moreover have "\<not> lclosed ?link \<and> link_inv (encode_command [''FLUSHDB''] @ concat bs) ?link"
    using link_send_all_facts [of "link_open REPLICA_BACKLOG_LIMIT" "[]" "encode_command [''FLUSHDB''] # bs"] link_open_inv
    by (simp add: link_open_def)
  ultimately show ?thesis using bs(2) by (auto simp: live_link_def link_inv_def)
qed

text \<open>The replica executes what it was sent: it has the live keys of the primary, whatever it had before.\<close>

lemma full_sync:
  assumes s: "wire_inv (sstore s)" and sec: "seconds_ok c (sstore s)" and sv: "serve_replica c s = (e, s')"
    and st0: "cmd_inv st0" "no_evict st0" and tick: "ticking clk t"
  shows "e = None \<and> (\<exists>link. replicas s' = replicas s @ [link] \<and> \<not> lclosed link \<and>
    (\<exists>st'. stream_loop clk (handed link) 0 st0 = (Primary_closed, st') \<and>
      (\<forall>k. case live (mono c) (sstore s) k of
              None \<Rightarrow> live t st' k = None
            | Some (v, d) \<Rightarrow> \<exists>i. live t st' k =
                view_entry t v (map_option (\<lambda>x. mono (clk i) + of_int (py_trunc (x - mono c) + 1)) d))))"
proof -
  obtain link where l: "serve_replica c s =
      (None, s\<lparr>sstore := snd (sweep_expired (mono c) (sstore s)), replicas := replicas s @ [link]\<rparr>)"
    "live_link link" "handed link = encode_command [''FLUSHDB''] @ log_bytes (snapshot_log c (sstore s))"
    using serve_replica_run [OF s, of c] by blast
  obtain why st' where run: "stream_loop clk (encode_command [''FLUSHDB''] @ log_bytes (snapshot_log c (sstore s))) 0 st0 = (why, st')"
    by fastforce
  note sync = sync_view [OF wire_inv_cmd [OF s] wire_invD(2) [OF s] sec st0 tick
      encode_snapshot [OF wire_invD(1,2) [OF s]] run]
  from l sv sync run show ?thesis by (auto simp: live_link_def)
qed


section \<open>Following the primary\<close>

lemma holds_flushed: "cmd_inv st \<Longrightarrow> no_evict st \<Longrightarrow> holds Map.empty (store_flush st)"
  by (intro holdsI [where t = 0]) (simp_all add: inv_intros no_evict_flush store_flush_refines)

text \<open>The snapshot of a store without deadlines: one SET for each key.\<close>

definition set_command :: "arg \<times> entry \<Rightarrow> arg list" where
  "set_command = (\<lambda>(k, e). [word_arg ''SET'', k, Bytes (val_bytes e)])"

fun entry_map :: "(arg \<times> entry) list \<Rightarrow> (arg \<rightharpoonup> arg) \<Rightarrow> (arg \<rightharpoonup> arg)" where
  "entry_map [] m = m"
| "entry_map ((k, e) # d) m = entry_map d (m(k \<mapsto> Bytes (val_bytes e)))"

lemma replays_entries: "list_all wire_entry d \<Longrightarrow> replays (map set_command d) m (entry_map d m)"
proof (induction d arbitrary: m)
  case (Cons p d)
  obtain k e where p: "p = (k, e)" by (cases p)
  have w: "wire_arg k" "wire_arg (Bytes (val_bytes e))"
    using Cons.prems wire_entryD [of k e] by (auto simp: p wire_entry_def wire_arg_def)
  let ?m = "m(k \<mapsto> Bytes (val_bytes e))"
  have "replays (map set_command d) ?m (entry_map d ?m)" using Cons.prems by (intro Cons.IH) simp
  from replays_append [OF replays_set [OF w, of m] this] show ?case by (simp add: set_command_def p)
qed (simp add: replays_Nil)

lemma entry_map_lookup:
  "distinct (map fst d) \<Longrightarrow>
   entry_map d m k = (case map_of d k of None \<Rightarrow> m k | Some e \<Rightarrow> Some (Bytes (val_bytes e)))"
proof (induction d arbitrary: m)
  case (Cons p d)
  obtain k' e where p: "p = (k', e)" by (cases p)
  with Cons.prems have "map_of d k' = None" by (simp add: map_of_eq_None_iff)
  with Cons p show ?case by (auto split: option.splits)
qed simp

lemma undated_live_entries: "undated st \<Longrightarrow> live_entries now (data st) = data st"
  by (auto simp: undated_def list_all_iff is_expired_def intro!: filter_True)

lemma snapshot_undated:
  assumes "undated st" and "list_all wire_entry (data st)"
  shows "snapshot_log c st = map wire_form (map set_command (data st))"
proof -
  have "concat (map (item_commands ''EXPIRE'') (map (entry_item (entry_sec c)) d)) = map wire_form (map set_command d)"
    if "list_all (\<lambda>(k, e). expire_at e = None) d" "list_all wire_entry d" for d
    using that
  proof (induction d)
    case (Cons p d)
    obtain k e where p: "p = (k, e)" by (cases p)
    obtain kb where "k = Bytes kb" using wire_entryD [of k e] Cons.prems(2) p by auto
    with Cons p show ?case
      by (simp add: item_commands_def entry_item_def entry_sec_def set_command_def)
  qed simp
  with assms show ?thesis
    by (simp add: snapshot_log_def store_items_def undated_live_entries undated_def)
qed

lemma holds_snapshot:
  assumes "holds m st" and "wire_inv st"
  shows "replays (map set_command (data st)) Map.empty m"
proof -
  have w: "list_all wire_entry (data st)" using assms(2) by (simp add: wire_inv_def wire_store_entries)
  have d: "distinct (map fst (data st))"
    using store_inv_wf [OF wire_invD(1) [OF assms(2)]] by (simp add: od_wf_def)
  have "entry_map (data st) Map.empty = m"
  proof
    fix k
    have v: "map_option val (map_of (data st) k) = map_option PyArg (m k)"
      using assms(1) by (simp add: holds_def od_get_def)
    have b: "val e = PyArg (Bytes (val_bytes e))" if "map_of (data st) k = Some e" for e
      using w wire_entryD [of k e] map_of_SomeD [OF that] by (auto simp: list_all_iff)
    show "entry_map (data st) Map.empty k = m k"
      using v b by (cases "map_of (data st) k"; cases "m k") (auto simp: entry_map_lookup [OF d])
  qed
  with replays_entries [OF w, of Map.empty] show ?thesis by simp
qed

text \<open>Executing a stream of replayable commands.\<close>

lemma stream_replays:
  assumes "replays cs m m'" and "holds m st" and "list_all streamable cs"
  shows "\<exists>st'. stream_loop clk (log_bytes (map wire_form cs)) n st = (Primary_closed, st') \<and> holds m' st'"
proof -
  obtain n' st' where run: "run_commands clk n (map wire_form cs) st = Inr (n', st')" "holds m' st'"
    using assms(1,2) unfolding replays_def by blast
  have "list_all plain_command (map wire_form cs)" using assms(3) by (simp add: list_all_iff streamable_def)
  from stream_loop_commands [OF this run(1), of "[]"] run(2) show ?thesis by (simp add: stream_loop_end)
qed


lemma handed_send:
  assumes "live_link l" and "\<not> lclosed (link_send force p l)"
  shows "handed (link_send force p l) = handed l @ p"
  using assms by (auto simp: live_link_def link_send_def link_close_def handed_def Let_def split: if_splits)

lemma handed_fed:
  "l' \<in> set (fed reps ls) \<Longrightarrow> list_all live_link ls \<Longrightarrow>
   \<exists>l \<in> set ls. handed l' = handed l @ log_bytes (map wire_form reps)"
proof (induction reps arbitrary: ls)
  case (Cons r reps)
  let ?p = "encode_command (wire_form r)"
  let ?ls = "drop_closed (map (link_send False ?p) ls)"
  have "fed (r # reps) ls = fed reps ?ls" by (simp add: fed_def)
  moreover have "list_all live_link ?ls"
    using live_links_fed [OF Cons.prems(2), of "[r]"] by (simp add: fed_def)
  ultimately obtain l1 where l1: "l1 \<in> set ?ls" "handed l' = handed l1 @ log_bytes (map wire_form reps)"
    using Cons.IH [of ?ls] Cons.prems(1) by auto
  then obtain l where l: "l \<in> set ls" "l1 = link_send False ?p l" "\<not> lclosed l1" by (auto simp: drop_closed_def)
  then have "handed l1 = handed l @ ?p" using handed_send [of l False ?p] Cons.prems(2) by (auto simp: list_all_iff)
  with l1 l(1) show ?case by auto
qed auto

lemma streamable_entry: "wire_entry p \<Longrightarrow> streamable (set_command p)"
proof (cases p)
  case (Pair k e)
  assume "wire_entry p"
  then have "wire_arg k" "wire_arg (Bytes (val_bytes e))"
    using wire_entryD [of k e] by (auto simp: Pair wire_entry_def wire_arg_def)
  then show ?thesis by (simp add: Pair set_command_def streamable_set)
qed

lemma stream_flushdb: "stream_loop clk (encode_command [''FLUSHDB''] @ r) 0 st = stream_loop clk r 1 (store_flush st)"
  using dispatch_flushdb [OF named_words(4), of "clk 0" st]
    stream_loop_commands [of "[[''FLUSHDB'']]" clk 0 st 1 "store_flush st" r]
  by (simp add: plain_command_def starts_with_def bytes_upper_def ok_command_def MAX_ARRAY_LENGTH_def)

text \<open>A replica that has synchronised and executed what its link was handed since has the primary's map.\<close>

lemma replica_follows:
  assumes s: "plain_server m s" "replicas s = []" and sv: "serve_replica c s = (e, s1)"
    and reqs: "list_all plain_request reqs" and link: "link \<in> set (replicas (serve_all reqs s1))"
    and st0: "cmd_inv st0" "no_evict st0"
  shows "\<exists>st'. stream_loop clk (handed link) 0 st0 = (Primary_closed, st') \<and>
    (\<forall>t. live t st' = live t (sstore (serve_all reqs s1)))"
proof -
  have h: "holds m (sstore s)" and w: "wire_inv (sstore s)" and ev: "evicted (sstore s) = []"
    using s(1) by (simp_all add: plain_server_def)
  obtain l0 where l0: "s1 = s\<lparr>sstore := snd (sweep_expired (mono c) (sstore s)), replicas := [l0]\<rparr>" "live_link l0"
    "handed l0 = encode_command [''FLUSHDB''] @ log_bytes (snapshot_log c (sstore s))"
    using serve_replica_run [OF w, of c] sv s(2) by auto
  have p1: "plain_server m s1"
    using holds_sweep [OF h] wire.I_sweep [OF w] evicted_sweep [OF wire_invD(1) [OF w]] ev
    by (simp add: l0(1) plain_server_def)
  obtain m' reps where m': "plain_server m' (serve_all reqs s1)" "replays reps m m'" "list_all streamable reps"
    "replicas (serve_all reqs s1) = fed reps [l0]"
    using plain_run [OF p1 reqs] l0(1) by auto
  have we: "list_all wire_entry (data (sstore s))" using w by (simp add: wire_inv_def wire_store_entries)
  let ?sets = "map set_command (data (sstore s))"
  have "handed link = encode_command [''FLUSHDB''] @ log_bytes (map wire_form (?sets @ reps))"
    using handed_fed [of link reps "[l0]"] link m'(4) l0(2,3) snapshot_undated [OF holdsD(3) [OF h] we, of c] by simp
  moreover note stream_flushdb [of clk _ st0]
  moreover have "list_all streamable ?sets" using we streamable_entry by (auto simp: list_all_iff)
  then have "\<exists>st'. stream_loop clk (log_bytes (map wire_form (?sets @ reps))) 1 (store_flush st0) = (Primary_closed, st') \<and> holds m' st'"
    using m'(3) by (intro stream_replays [OF replays_append [OF holds_snapshot [OF h w] m'(2)] holds_flushed [OF st0]]) simp
  ultimately obtain st' where "stream_loop clk (handed link) 0 st0 = (Primary_closed, st')" "holds m' st'" by auto
  moreover have "live t st' = live t (sstore (serve_all reqs s1))" if "holds m' st'" for t
    using holds_live [OF that] m'(1) holds_live [of m'] by (simp add: plain_server_def)
  ultimately show ?thesis by blast
qed

end
