(* ===== verification/Dated_Replica.thy ===== *)
theory Dated_Replica
  imports Dated_Restart Server_Sync
begin

text \<open>
  A replica with deadlines. A time to live is sent as it was asked for, and the replica reckons it from the moment it runs
  the command; the snapshot rounds what is left of it up to a second. So a replica that runs every command within \<open>\<delta>\<close> of its
  being sent has the values of the primary, with deadlines at most \<open>\<delta>\<close> and a second apart, as long as none of them passes.
\<close>

section \<open>Commands on their way\<close>

text \<open>The i-th command that the replica runs was sent at the i-th time.\<close>

definition prompt :: "seconds \<Rightarrow> seconds list \<Rightarrow> (nat \<Rightarrow> clock) \<Rightarrow> bool" where
  "prompt \<delta> ts clk \<longleftrightarrow> (\<forall>i<length ts. ts ! i \<le> wall (clk i) \<and> wall (clk i) \<le> ts ! i + \<delta>)"

lemma all_less_add: "(\<forall>i < m + n. P i) \<longleftrightarrow> (\<forall>i < m. P i) \<and> (\<forall>i < n. P (m + i))" for m n :: nat
proof (intro iffI conjI allI impI; (elim conjE)?)
  fix i
  assume a: "\<forall>i < m. P i" "\<forall>i < n. P (m + i)" and i: "i < m + n"
  show "P i" using a(1) a(2) [rule_format, of "i - m"] i by (cases "i < m") simp_all
qed simp_all

lemma prompt_append:
  "prompt \<delta> (ts @ us) clk \<longleftrightarrow> prompt \<delta> ts clk \<and> prompt \<delta> us (\<lambda>i. clk (length ts + i))"
  by (simp add: prompt_def all_less_add nth_append)

definition relays :: "seconds \<Rightarrow> seconds \<Rightarrow> seconds list \<Rightarrow> bytes list list \<Rightarrow> dated_map \<Rightarrow> dated_map \<Rightarrow> bool" where
  "relays \<delta> T ts cmds m m' \<longleftrightarrow> length ts = length cmds \<and>
     (\<forall>\<sigma> clk n st. steady \<sigma> T clk \<longrightarrow> prompt \<delta> ts (\<lambda>i. clk (n + i)) \<longrightarrow> tracks (\<delta> + 1) \<sigma> T (wall (clk n)) m st \<longrightarrow>
        (\<exists>st'. run_commands clk n cmds st = Inr (n + length cmds, st') \<and>
           tracks (\<delta> + 1) \<sigma> T (wall (clk (n + length cmds))) m' st'))"

lemma prompt_const: "list_all (\<lambda>\<tau>. \<tau> \<le> wall c \<and> wall c \<le> \<tau> + \<delta>) ts \<Longrightarrow> prompt \<delta> ts (\<lambda>_. c)"
  by (simp add: prompt_def list_all_length)

lemma relays_Nil: "relays \<delta> T [] [] m m"
  by (simp add: relays_def)

lemma relays_append:
  assumes "relays \<delta> T ts cmds m m'" and "relays \<delta> T us cmds' m' m''"
  shows "relays \<delta> T (ts @ us) (cmds @ cmds') m m''"
proof -
  have "\<exists>st'. run_commands clk n (cmds @ cmds') st = Inr (n + length (cmds @ cmds'), st') \<and>
      tracks (\<delta> + 1) \<sigma> T (wall (clk (n + length (cmds @ cmds')))) m'' st'"
    if h: "steady \<sigma> T clk" "prompt \<delta> (ts @ us) (\<lambda>i. clk (n + i))" "tracks (\<delta> + 1) \<sigma> T (wall (clk n)) m st" for \<sigma> clk n st
  proof -
    have len: "length ts = length cmds" using assms(1) by (simp add: relays_def)
    have p: "prompt \<delta> ts (\<lambda>i. clk (n + i))" "prompt \<delta> us (\<lambda>i. clk (n + length cmds + i))"
      using h(2) len by (simp_all add: prompt_append add.assoc)
    obtain st1 where 1: "run_commands clk n cmds st = Inr (n + length cmds, st1)"
      "tracks (\<delta> + 1) \<sigma> T (wall (clk (n + length cmds))) m' st1"
      using assms(1) h(1,3) p(1) unfolding relays_def by blast
    obtain st2 where "run_commands clk (n + length cmds) cmds' st1 = Inr (n + length cmds + length cmds', st2)"
      "tracks (\<delta> + 1) \<sigma> T (wall (clk (n + length cmds + length cmds'))) m'' st2"
      using assms(2) h(1) p(2) 1(2) unfolding relays_def by blast
    with 1(1) show ?thesis by (simp add: run_commands_append add.assoc)
  qed
  with assms show ?thesis by (simp add: relays_def)
qed

lemma relays_one:
  assumes "cmd \<noteq> []"
    and step: "\<And>\<sigma> c st. tracks (\<delta> + 1) \<sigma> T (wall c) m st \<Longrightarrow> clock_in \<sigma> T c \<Longrightarrow> \<tau> \<le> wall c \<Longrightarrow> wall c \<le> \<tau> + \<delta> \<Longrightarrow>
      (\<exists>r. fst (dispatch c (map Bytes cmd) st) = Inr r) \<and>
      tracks (\<delta> + 1) \<sigma> T (wall c) m' (snd (dispatch c (map Bytes cmd) st))"
  shows "relays \<delta> T [\<tau>] [cmd] m m'"
proof -
  have "\<exists>st'. run_commands clk n [cmd] st = Inr (Suc n, st') \<and> tracks (\<delta> + 1) \<sigma> T (wall (clk (Suc n))) m' st'"
    if h: "steady \<sigma> T clk" "prompt \<delta> [\<tau>] (\<lambda>i. clk (n + i))" "tracks (\<delta> + 1) \<sigma> T (wall (clk n)) m st" for \<sigma> clk n st
  proof -
    have c: "clock_in \<sigma> T (clk n)" "wall (clk n) \<le> wall (clk (Suc n))" using h(1) by (simp_all add: steady_def)
    have "\<tau> \<le> wall (clk n)" "wall (clk n) \<le> \<tau> + \<delta>" using h(2) by (simp_all add: prompt_def)
    then obtain r st1 where d: "dispatch (clk n) (map Bytes cmd) st = (Inr r, st1)" "tracks (\<delta> + 1) \<sigma> T (wall (clk n)) m' st1"
      using step [OF h(3) c(1)] by (cases "dispatch (clk n) (map Bytes cmd) st") auto
    with tracks_later [OF d(2) c(2)] assms(1) show ?thesis by simp
  qed
  then show ?thesis by (simp add: relays_def)
qed


section \<open>A write on its way to the replica\<close>

lemma relays_keeps:
  assumes "cmd \<noteq> []" and "keeps T (map Bytes cmd) m m'" and "0 \<le> \<delta>"
  shows "relays \<delta> T [\<tau>] [cmd] m m'"
  by (rule relays_one [OF assms(1)]) (use keepsD [OF assms(2) _ _ _ order_refl, of "\<delta> + 1"] assms(3) in simp)

lemma relays_set:
  assumes f: "named (Bytes f) ''SET''" and opts: "parse_set (map Bytes args) = Inr opts" and plain: "\<not> nx opts" "\<not> xx opts"
    and late: "\<And>x. ottl opts = Some x \<Longrightarrow> T < \<tau> + x" and \<delta>: "0 \<le> \<delta>"
  shows "relays \<delta> T [\<tau>] [f # args] m (m(okey opts \<mapsto> (oval opts, map_option (\<lambda>x. \<tau> + x) (ottl opts))))"
proof (rule relays_one)
  fix \<sigma> and c :: clock and st :: store
  assume tr: "tracks (\<delta> + 1) \<sigma> T (wall c) m st" and c: "clock_in \<sigma> T c" "\<tau> \<le> wall c" "wall c \<le> \<tau> + \<delta>"
  have near: "rel_option (\<lambda>x d. \<bar>wall c + x - d\<bar> \<le> \<delta> + 1) (ottl opts) (map_option (\<lambda>x. \<tau> + x) (ottl opts))"
    using c by (cases "ottl opts") auto
  have "T < wall c + x" if "ottl opts = Some x" for x using late [OF that] c(2) by simp
  from put_tracks [OF tr c(1) order_refl f opts this near]
  show "(\<exists>r. fst (dispatch c (map Bytes (f # args)) st) = Inr r) \<and>
      tracks (\<delta> + 1) \<sigma> T (wall c) (m(okey opts \<mapsto> (oval opts, map_option (\<lambda>x. \<tau> + x) (ottl opts))))
        (snd (dispatch c (map Bytes (f # args)) st))"
    using plain by (simp add: dated_put_def)
qed simp

text \<open>A deadline that is asked for \<open>slack\<close> later than the one the primary has, and that the delay makes later still.\<close>

lemma relays_expire:
  assumes f: "named (Bytes f) n" and n: "n = ''EXPIRE'' \<or> n = ''PEXPIRE'' \<or> n = ''PEXPIREAT''"
    and x: "expire_number n (Bytes a) = Some x" and late: "T < D" and \<delta>: "0 \<le> \<delta>"
    and D: "\<And>c. \<tau> \<le> wall c \<Longrightarrow> wall c \<le> \<tau> + \<delta> \<Longrightarrow> D \<le> wall c + requested_ttl c n x \<and> wall c + requested_ttl c n x \<le> D + \<delta> + 1"
  shows "relays \<delta> T [\<tau>] [[f, k, a]] m (dated_expire (Bytes k) D m)"
proof (rule relays_one)
  fix \<sigma> and c :: clock and st :: store
  assume tr: "tracks (\<delta> + 1) \<sigma> T (wall c) m st" and c: "clock_in \<sigma> T c" "\<tau> \<le> wall c" "wall c \<le> \<tau> + \<delta>"
  have "T < wall c + requested_ttl c n x" "\<bar>wall c + requested_ttl c n x - D\<bar> \<le> \<delta> + 1"
    using D [OF c(2,3)] late by (simp_all add: abs_le_iff)
  from expire_tracks [OF tr c(1) order_refl f n x this, of "Bytes k"]
  show "(\<exists>r. fst (dispatch c (map Bytes [f, k, a]) st) = Inr r) \<and>
      tracks (\<delta> + 1) \<sigma> T (wall c) (dated_expire (Bytes k) D m) (snd (dispatch c (map Bytes [f, k, a]) st))" by simp
qed simp

text \<open>A time to live that can be sent in milliseconds. Beyond that the replica refuses the command
  (\<open>replicated_set_refused\<close>).\<close>

definition relayable :: "seconds \<Rightarrow> clock \<Rightarrow> bytes list \<Rightarrow> bool" where
  "relayable T c command \<longleftrightarrow> outlives T c command \<and>
     (named (Bytes (hd command)) ''SET'' \<longrightarrow> (case parse_set (map Bytes (tl command)) of
        Inr opts \<Rightarrow> (case ottl opts of None \<Rightarrow> True | Some x \<Rightarrow> x * 1000 \<le> of_int INT64_MAX) | Inl _ \<Rightarrow> True))"

lemma parse_px_wire:
  assumes "0 < n" and "n \<le> INT64_MAX"
  shows "parse_set [k, v, Bytes ''PX'', Bytes (str_int n)] = Inr (px_options k v (Some (of_int n / 1000)))"
proof -
  have "to_text (Bytes ''PX'') = ascii_str ''PX''" by (simp add: to_text_def utf8_decode_ascii)
  with assms cmd_parse_int_str_int [of n "Bytes (str_int n)"] show ?thesis
    by (simp add: parse_set_def Let_def ascii_str_neq parse_ttl_def px_options_def to_text_def utf8_decode_ascii is_ascii_str_int INT64_MIN_def)
qed

lemma relayed_set:
  assumes f: "is_ascii f" "named (Bytes f) ''SET''" and opts: "parse_set (map Bytes args) = Inr opts"
    and wire: "list_all wire_arg (map Bytes args)"
    and far: "case ottl opts of None \<Rightarrow> True | Some x \<Rightarrow> x * 1000 \<le> of_int INT64_MAX"
  shows "\<exists>rest. wire_form (to_replication_command (map Bytes (f # args))) = ''SET'' # rest \<and>
    parse_set (map Bytes rest) = Inr (px_options (okey opts) (oval opts) (ottl opts))"
proof -
  have s: "is_set_word (Bytes f)" using f by (simp add: is_set_word_name named_def)
  obtain kb vb where b: "okey opts = Bytes kb" "oval opts = Bytes vb"
    using set_options_wire(1,2) [OF opts wire] by (auto simp: wire_arg_def split: arg.splits)
  show ?thesis
  proof (cases "ottl opts")
    case None
    then show ?thesis using s opts b by (simp add: to_replication_command_def parse_set_def px_options_def)
  next
    case (Some x)
    then obtain n where n: "0 < n" "x = of_int n / 1000" using parse_set_ms [OF opts] by (auto simp: whole_ms_def)
    then have ms: "x * 1000 = of_int n" by simp
    with far Some have "n \<le> INT64_MAX" by simp
    from parse_px_wire [OF n(1) this, folded n(2)] n(1) ms Some s opts b show ?thesis
      by (simp add: to_replication_command_def is_ascii_str_int)
  qed
qed

lemma written_relayed:
  assumes "written T c command m m'" and ok: "ok_command command" and asc: "is_ascii (hd command)" and far: "relayable T c command"
    and \<delta>: "0 \<le> \<delta>"
  shows "relays \<delta> T [wall c] [wire_form (to_replication_command (map Bytes command))] m m'"
  using assms(1)
proof cases
  case (written_set f args opts)
  have "list_all wire_arg (map Bytes args)" using ok written_set(1) by (auto simp: ok_command_def list_all_iff wire_arg_def)
  moreover have "case ottl opts of None \<Rightarrow> True | Some x \<Rightarrow> x * 1000 \<le> of_int INT64_MAX"
    using far written_set by (simp add: relayable_def)
  ultimately obtain rest where r: "wire_form (to_replication_command (map Bytes command)) = ''SET'' # rest"
    "parse_set (map Bytes rest) = Inr (px_options (okey opts) (oval opts) (ottl opts))"
    using relayed_set [of f args opts] asc written_set by auto
  have late: "T < wall c + x" if "ottl (px_options (okey opts) (oval opts) (ottl opts)) = Some x" for x
    using written_set(5) [of x] that by (simp add: px_options_def)
  have "named (Bytes ''SET'') ''SET''" by code_simp
  from relays_set [OF this r(2) _ _ late \<delta>, of m] show ?thesis unfolding r(1) written_set(2) by (simp add: px_options_def)
next
  case (written_date f n a x k)
  have "\<not> is_set_word (Bytes f)"
    using written_date(1,3,4) asc by (auto simp: is_set_word_name named_def ascii_str_inj)
  then have same: "wire_form (to_replication_command (map Bytes command)) = [f, k, a]"
    using written_date(1) by (simp add: to_replication_command_def)
  have "D \<le> wall c' + requested_ttl c' n x \<and> wall c' + requested_ttl c' n x \<le> D + \<delta> + 1"
    if "D = wall c + requested_ttl c n x" "wall c \<le> wall c'" "wall c' \<le> wall c + \<delta>" for D c'
    using that written_date(4) \<delta> by (auto simp: requested_ttl_def)
  moreover have "T < wall c + requested_ttl c n x" using written_date(6) by simp
  ultimately show ?thesis
    unfolding same written_date(2) by (intro relays_expire [OF written_date(3-5) _ \<delta>]) simp_all
next
  case (written_other f n args)
  have "\<not> is_set_word (Bytes f)"
    using written_other asc by (auto simp: is_set_word_name named_def ascii_str_inj dates_def)
  then have "wire_form (to_replication_command (map Bytes command)) = command"
    using written_other(1) by (simp add: to_replication_command_def)
  then show ?thesis using written_other relays_keeps [of command T m m' \<delta> "wall c"] \<delta> by simp
qed

interpretation relay: recorded "dated_view \<sigma> T" "\<lambda>c command. relayable T c command \<and> wall c = \<tau>" "in_time \<sigma> T" "\<lambda>_ _ _. True"
    "\<lambda>cs m m'. 0 \<le> \<delta> \<longrightarrow> relays \<delta> T (replicate (length cs) \<tau>) (map wire_form cs) m m'"
  for \<sigma> T \<tau> \<delta> :: seconds
proof unfold_locales
  show "\<exists>m'. dated_view \<sigma> T c m' st1 \<and> (if server_name command \<noteq> ascii_str ''SET'' \<or> writes st1 \<noteq> writes st
      then True \<and> (0 \<le> \<delta> \<longrightarrow> relays \<delta> T (replicate (length [to_replication_command (map Bytes command)]) \<tau>)
        (map wire_form [to_replication_command (map Bytes command)]) m m') else m' = m)"
    if "dated_view \<sigma> T c m st" "command \<noteq> []" "ok_command command" and free: "relayable T c command \<and> wall c = \<tau>"
      and wr: "is_write_command (server_name command)"
      and "dispatch c (map Bytes command) st = (Inr reply, st1)" "\<not> is_error reply" for m st c command reply st1
  proof -
    have "outlives T c command" using free by (simp add: relayable_def)
    from accepted_effect [OF that(1,2) this wr that(6,7)] obtain m' where m': "dated_view \<sigma> T c m' st1"
      "if server_name command \<noteq> ascii_str ''SET'' \<or> writes st1 \<noteq> writes st then written T c command m m' else m' = m" by blast
    have "is_ascii (hd command)" using write_name_ascii [of "hd command"] wr by (simp add: server_name_def)
    from written_relayed [OF _ that(3) this] free m' show ?thesis by (intro exI [of _ m']) auto
  qed
next
  show "dated_view \<sigma> T c m st1" if "dated_view \<sigma> T c m st" "command \<noteq> []" "is_ascii (hd command)"
    "relayable T c command \<and> wall c = \<tau>" "dispatch c (map Bytes command) st = (r, st1)"
    "failed r \<or> \<not> is_write_command (server_name command)" for m st command c r st1
    using dated.other_law [OF that(1-3) _ that(5,6)] that(4) by (simp add: relayable_def)
next
  show "0 \<le> \<delta> \<longrightarrow> relays \<delta> T (replicate (length (cs @ ds)) \<tau>) (map wire_form (cs @ ds)) m m''"
    if "0 \<le> \<delta> \<longrightarrow> relays \<delta> T (replicate (length cs) \<tau>) (map wire_form cs) m m'"
      "0 \<le> \<delta> \<longrightarrow> relays \<delta> T (replicate (length ds) \<tau>) (map wire_form ds) m' m''" for cs ds m m' m''
    using that relays_append [of \<delta> T _ _ m m' _ _ m''] by (simp add: replicate_add)
qed (auto simp: relays_Nil intro: dated.later_law dated.sweep_law dest: dated.quiet_law)


section \<open>The stream of a run\<close>

text \<open>How many commands the first link of a server has been handed, and when the requests hand it more.\<close>

definition sent_so_far :: "server \<Rightarrow> nat" where
  "sent_so_far s = (case replicas s of [] \<Rightarrow> 0 | l # _ \<Rightarrow> length (commands_in (handed l)))"

fun sent_times :: "(clock \<times> bool \<times> bytes list) list \<Rightarrow> server \<Rightarrow> seconds list" where
  "sent_times [] s = []"
| "sent_times ((c, authed, command) # rest) s =
     (let s1 = snd (snd (handle_command c authed command s))
      in replicate (sent_so_far s1 - sent_so_far s) (wall c) @ sent_times rest s1)"

lemma commands_in_log: "list_all ok_command cmds \<Longrightarrow> commands_in (log_bytes cmds) = cmds"
proof (induction cmds)
  case Nil
  then show ?case by (simp add: commands_in.simps [of "[]"] cmd.dec_end)
next
  case (Cons command cmds)
  then show ?case using cmd.dec_enc [of command "log_bytes cmds"] by (simp add: commands_in_Some)
qed

lemma plain_ok: "list_all plain_command cmds \<Longrightarrow> list_all ok_command cmds"
  by (simp add: list_all_iff plain_command_def)

lemma fed_none [simp]: "fed reps [] = []"
  by (induction reps) (simp_all add: fed_def drop_closed_def)

lemma fed_one:
  assumes "live_link l"
  shows "fed reps [l] = [] \<or> (\<exists>l'. fed reps [l] = [l'] \<and> live_link l' \<and> handed l' = handed l @ log_bytes (map wire_form reps))"
  using assms
proof (induction reps arbitrary: l)
  case (Cons r reps)
  let ?l = "link_send False (encode_command (wire_form r)) l"
  have fed: "fed (r # reps) [l] = fed reps (drop_closed [?l])" by (simp add: fed_def)
  show ?case
  proof (cases "lclosed ?l")
    case True
    then show ?thesis by (simp add: fed drop_closed_def)
  next
    case False
    then have one: "drop_closed [?l] = [?l]" by (simp add: drop_closed_def)
    have "live_link ?l" using live_links_fed [of "[l]" "[r]"] Cons.prems one by (simp add: fed_def)
    from Cons.IH [OF this] handed_send [OF Cons.prems False] show ?thesis by (auto simp: fed one)
  qed
qed (simp add: fed_def)

lemma relay_run:
  assumes "shows_map (dated_view \<sigma> T) c m s" and "list_all (request (relayable T)) reqs" and "in_order (in_time \<sigma> T) c reqs"
    and "replicas s = [l]" and "live_link l" and "handed l = log_bytes cmds" and "list_all plain_command cmds"
    and "replicas (serve_all reqs s) = [link]" and "0 \<le> \<delta>"
  shows "\<exists>m' news. shows_map (dated_view \<sigma> T) (last_clock c reqs) m' (serve_all reqs s) \<and>
    relays \<delta> T (sent_times reqs s) news m m' \<and> list_all plain_command news \<and> handed link = log_bytes (cmds @ news)"
  using assms
proof (induction reqs arbitrary: c m s l cmds)
  case Nil
  then show ?case using relays_Nil [of \<delta> T m] by (intro exI [of _ m] exI [of _ "[]"]) simp
next
  case (Cons req reqs)
  obtain c' authed command where req: "req = (c', authed, command)" by (cases req)
  obtain a authed' s1 where run: "handle_command c' authed command s = (a, authed', s1)" by (metis prod_cases3)
  have s: "shows_map (dated_view \<sigma> T) c' m s"
    using Cons.prems(1,3) dated.later_law [of \<sigma> T c m "sstore s" c'] by (simp add: shows_map_def req)
  have "request (\<lambda>c command. relayable T c command \<and> wall c = wall c') (c', authed, command)"
    using Cons.prems(2) by (simp add: req request_def)
  from relay.command_step [OF s this run, of \<delta>] obtain m1 reps where 1: "shows_map (dated_view \<sigma> T) c' m1 s1"
    "relays \<delta> T (replicate (length reps) (wall c')) (map wire_form reps) m m1" "list_all streamable reps"
    "replicas s1 = fed reps [l]"
    using Cons.prems(4,9) by auto
  have news: "list_all plain_command (map wire_form reps)" using 1(3) by (simp add: list_all_iff streamable_def)
  have order: "in_order (in_time \<sigma> T) c' reqs" using Cons.prems(3) by (simp add: req)
  have "fed reps [l] \<noteq> []"
  proof
    assume "fed reps [l] = []"
    moreover have "list_all (request (outlives T)) reqs"
      using Cons.prems(2) by (auto simp: list_all_iff request_def relayable_def)
    ultimately have "replicas (serve_all reqs s1) = []" using dated.run_steps [OF 1(1) _ order] 1(4) by auto
    with Cons.prems(8) show False by (simp add: req run)
  qed
  then obtain l1 where l1: "fed reps [l] = [l1]" "live_link l1" "handed l1 = log_bytes (cmds @ map wire_form reps)"
    using fed_one [OF Cons.prems(5), of reps] Cons.prems(6) by auto
  have all: "list_all plain_command (cmds @ map wire_form reps)" using Cons.prems(7) news by simp
  obtain m2 news2 where 2: "shows_map (dated_view \<sigma> T) (last_clock c' reqs) m2 (serve_all reqs s1)"
    "relays \<delta> T (sent_times reqs s1) news2 m1 m2" "list_all plain_command news2"
    "handed link = log_bytes ((cmds @ map wire_form reps) @ news2)"
    using Cons.IH [OF 1(1) _ order _ l1(2,3) all] Cons.prems(2,8,9) 1(4) l1(1) by (auto simp: req run)
  have "commands_in (handed l1) = cmds @ map wire_form reps" by (simp only: l1(3) commands_in_log [OF plain_ok [OF all]])
  then have "sent_so_far s1 - sent_so_far s = length reps"
    using Cons.prems(4,6) 1(4) l1(1) commands_in_log [OF plain_ok [OF Cons.prems(7)]] by (simp add: sent_so_far_def)
  then have "relays \<delta> T (sent_times (req # reqs) s) (map wire_form reps @ news2) m m2"
    using relays_append [OF 1(2) 2(2)] by (simp add: req run)
  with 2 news show ?case
    by (intro exI [of _ m2] exI [of _ "map wire_form reps @ news2"]) (simp add: req run)
qed


section \<open>The snapshot\<close>

fun entry_dates :: "seconds \<Rightarrow> (arg \<times> entry) list \<Rightarrow> dated_map \<Rightarrow> dated_map" where
  "entry_dates \<sigma> [] m = m"
| "entry_dates \<sigma> ((k, e) # d) m =
     entry_dates \<sigma> d (m(k \<mapsto> (Bytes (val_bytes e), map_option (\<lambda>x. x + \<sigma>) (expire_at e))))"

lemma entry_dates_lookup:
  "distinct (map fst d) \<Longrightarrow> entry_dates \<sigma> d m k =
     (case map_of d k of None \<Rightarrow> m k | Some e \<Rightarrow> Some (Bytes (val_bytes e), map_option (\<lambda>x. x + \<sigma>) (expire_at e)))"
proof (induction d arbitrary: m)
  case (Cons p d)
  obtain k' e where p: "p = (k', e)" by (cases p)
  with Cons.prems have "map_of d k' = None" by (simp add: map_of_eq_None_iff)
  with Cons p show ?case by (auto split: option.splits)
qed simp

text \<open>An entry that does not expire before the horizon, and can be sent.\<close>

definition sends_entry :: "seconds \<Rightarrow> seconds \<Rightarrow> clock \<Rightarrow> arg \<times> entry \<Rightarrow> bool" where
  "sends_entry \<sigma> T c = (\<lambda>(k, e). wire_entry (k, e) \<and> (case expire_at e of None \<Rightarrow> True | Some x \<Rightarrow>
     T < x + \<sigma> \<and> is_int64 (py_trunc (x - mono c) + 1)))"

lemma relays_entry:
  assumes e: "sends_entry \<sigma> T c (k, e)" and c: "clock_in \<sigma> T c" and \<delta>: "0 \<le> \<delta>"
    and cmds: "cmds = item_commands ''EXPIRE'' (entry_item (entry_sec c) (k, e))"
  shows "relays \<delta> T (replicate (length cmds) (wall c)) cmds m
    (m(k \<mapsto> (Bytes (val_bytes e), map_option (\<lambda>x. x + \<sigma>) (expire_at e))))"
proof -
  let ?v = "val_bytes e"
  obtain kb where k: "k = Bytes kb" using e wire_entryD [of k e] by (auto simp: sends_entry_def)
  let ?o = "\<lparr>okey = k, oval = Bytes ?v, nx = False, xx = False, oget = False, ottl = None\<rparr>"
  have named: "named (Bytes ''SET'') ''SET''" "named (Bytes ''EXPIRE'') ''EXPIRE''" by code_simp+
  have opts: "parse_set (map Bytes [kb, ?v]) = Inr ?o" by (simp add: parse_set_def k)
  have set: "relays \<delta> T [wall c] [[''SET'', kb, ?v]] m (m(k \<mapsto> (Bytes ?v, None)))"
    using relays_set [OF named(1) opts _ _ _ \<delta>, of T "wall c" m] by simp
  show ?thesis
  proof (cases "expire_at e")
    case None
    with set cmds show ?thesis by (simp add: item_commands_def entry_item_def entry_sec_def k)
  next
    case (Some x)
    let ?n = "py_trunc (x - mono c) + 1"
    have late: "T < x + \<sigma>" and n: "is_int64 ?n" using e Some by (simp_all add: sends_entry_def)
    have now: "wall c = mono c + \<sigma>" "wall c \<le> T" using c by (simp_all add: clock_in_def)
    have num: "expire_number ''EXPIRE'' (Bytes (str_int ?n)) = Some ?n"
      using cmd_parse_int_str_int [of ?n "Bytes (str_int ?n)"] n by (simp add: expire_number_def is_int64_def)
    have "x - mono c < of_int ?n" "of_int ?n \<le> x - mono c + 1"
      using late now floor_correct [of "x - mono c"] by (simp_all add: py_trunc_def)
    then have D: "x + \<sigma> \<le> wall c' + requested_ttl c' ''EXPIRE'' ?n \<and> wall c' + requested_ttl c' ''EXPIRE'' ?n \<le> x + \<sigma> + \<delta> + 1"
      if "wall c \<le> wall c'" "wall c' \<le> wall c + \<delta>" for c'
      using that now unfolding requested_ttl_def by simp
    from relays_expire [where k = kb and m = "m(k \<mapsto> (Bytes ?v, None))", OF named(2) _ num late \<delta> D]
    have "relays \<delta> T [wall c] [[''EXPIRE'', kb, str_int ?n]] (m(k \<mapsto> (Bytes ?v, None))) (m(k \<mapsto> (Bytes ?v, Some (x + \<sigma>))))"
      by (simp add: dated_expire_def k)
    from relays_append [OF set this] Some cmds show ?thesis
      by (simp add: item_commands_def entry_item_def entry_sec_def k)
  qed
qed

lemma relays_entries:
  assumes "list_all (sends_entry \<sigma> T c) d" and c: "clock_in \<sigma> T c" and \<delta>: "0 \<le> \<delta>"
    and "cmds = concat (map (item_commands ''EXPIRE'') (map (entry_item (entry_sec c)) d))"
  shows "relays \<delta> T (replicate (length cmds) (wall c)) cmds m (entry_dates \<sigma> d m)"
  using assms(1,4)
proof (induction d arbitrary: m cmds)
  case (Cons p d)
  obtain k e where p: "p = (k, e)" by (cases p)
  let ?cmds = "concat (map (item_commands ''EXPIRE'') (map (entry_item (entry_sec c)) d))"
  from Cons.prems have e: "sends_entry \<sigma> T c (k, e)" and d: "list_all (sends_entry \<sigma> T c) d" by (simp_all add: p)
  have cmds: "cmds = item_commands ''EXPIRE'' (entry_item (entry_sec c) (k, e)) @ ?cmds" using Cons.prems(2) by (simp add: p)
  show ?case
    unfolding cmds p entry_dates.simps length_append replicate_add
    by (rule relays_append [OF relays_entry [OF e c \<delta> refl] Cons.IH [OF d refl]])
qed (simp add: relays_Nil)

lemma view_sends:
  assumes tr: "tracks 0 \<sigma> T (wall c) m st" and c: "clock_in \<sigma> T c" and w: "wire_inv st" and sec: "seconds_ok c st"
  shows "list_all (sends_entry \<sigma> T c) (live_entries (mono c) (data st))"
    and "entry_dates \<sigma> (live_entries (mono c) (data st)) Map.empty = m"
proof -
  let ?d = "live_entries (mono c) (data st)"
  have wf: "od_wf (data st)" using store_inv_wf [OF wire_invD(1) [OF w]] .
  have dist: "distinct (map fst ?d)" using wf by (simp add: od_wf_def filter_distinct_keys)
  have entry: "list_all wire_entry ?d" using w by (auto simp: wire_inv_def wire_store_entries list_all_iff)
  have live: "live (mono c) st k = map_option (\<lambda>e. (val e, expire_at e)) (map_of ?d k)" for k
    using od_get_live_entries [OF wf, of "mono c" k] by (auto simp: live_def od_get_def split: option.splits)
  have near: "near 0 \<sigma> (live (mono c) st k) (m k)" for k by (rule tracks_live [OF tr c order_refl])
  have "sends_entry \<sigma> T c (k, e)" if ke: "(k, e) \<in> set ?d" for k e
  proof -
    have "T < x + \<sigma>" if x: "expire_at e = Some x" for x
    proof -
      have get: "map_of ?d k = Some e" using dist ke by simp
      have "mono c \<le> T - \<sigma>" using c by (simp add: clock_in_def)
      from tracks_stable [OF tr c order_refl this] live [of k] get x have "live (T - \<sigma>) st k = Some (val e, Some x)" by simp
      from live_deadline [OF this, of "val e"] show ?thesis by (auto simp: view_entry_def split: if_splits)
    qed
    moreover have "is_int64 (py_trunc (x - mono c) + 1)" if "expire_at e = Some x" for x
      using sec ke that by (auto simp: seconds_ok_def list_all_iff entry_sec_def split: option.splits)
    ultimately show ?thesis using entry ke by (auto simp: sends_entry_def list_all_iff split: option.splits)
  qed
  then show "list_all (sends_entry \<sigma> T c) ?d" by (auto simp: list_all_iff)
  show "entry_dates \<sigma> ?d Map.empty = m"
  proof
    fix k
    show "entry_dates \<sigma> ?d Map.empty k = m k"
    proof (cases "map_of ?d k")
      case None
      with near [of k] live [of k] show ?thesis by (simp add: entry_dates_lookup [OF dist])
    next
      case (Some e)
      have "wire_entry (k, e)" using map_of_SomeD [OF Some] entry by (auto simp: list_all_iff)
      then have val: "val e = PyArg (Bytes (val_bytes e))" using wire_entryD by blast
      obtain a D where m: "m k = Some (a, D)" using near [of k] live [of k] Some by (cases "m k") auto
      with near [of k] live [of k] Some val show ?thesis
        by (cases "expire_at e"; cases D) (auto simp: entry_dates_lookup [OF dist])
    qed
  qed
qed


section \<open>Following the primary\<close>

lemma tracks_flushed:
  assumes "cmd_inv st" and "no_evict st" and "evicted st = []"
  shows "tracks \<epsilon> \<sigma> T now Map.empty (store_flush st)"
proof -
  have inv: "cmd_inv (store_flush st)" using assms(1) by (simp add: inv_intros)
  then have "quiet (store_flush st)"
    using cmd_invD(1) [OF inv] no_evict_flush [OF assms(2)] assms(3) by (simp add: quiet_def)
  with inv show ?thesis by (simp add: tracks_def store_flush_refines)
qed

lemma sends_plain:
  assumes "list_all (sends_entry \<sigma> T c) d"
  shows "list_all plain_command (concat (map (item_commands ''EXPIRE'') (map (entry_item (entry_sec c)) d)))"
  using assms
proof (induction d)
  case (Cons p d)
  obtain k e where p: "p = (k, e)" by (cases p)
  then have "rel_sec.item_ok (entry_item (entry_sec c) p)"
    using Cons.prems wire_entryD [of k e]
    by (auto simp: rel_sec.item_ok_def entry_item_def entry_sec_def sends_entry_def split: option.splits)
  with Cons item_commands_plain show ?case by simp
qed simp

lemma dated_follows:
  assumes s: "shows_map (dated_view \<sigma> T) c m s" "replicas s = []" and sec: "seconds_ok c (sstore s)"
    and sv: "serve_replica c s = (e, s1)"
    and reqs: "list_all (request (relayable T)) reqs" "in_order (in_time \<sigma> T) c reqs"
    and link: "replicas (serve_all reqs s1) = [link]"
    and st0: "cmd_inv st0" "no_evict st0" "evicted st0 = []"
    and clk: "steady \<sigma>' T clk" "prompt \<delta> (replicate (sent_so_far s1) (wall c) @ sent_times reqs s1) clk" and \<delta>: "0 \<le> \<delta>"
  shows "\<exists>st'. stream_loop clk (handed link) 0 st0 = (Primary_closed, st') \<and>
    (\<forall>w k. (\<forall>i. wall (clk i) \<le> w) \<and> wall (last_clock c reqs) \<le> w \<and> w \<le> T \<longrightarrow>
       close (\<delta> + 1) (seen_at \<sigma> w (sstore (serve_all reqs s1)) k) (seen_at \<sigma>' w st' k))"
proof -
  have tr: "tracks 0 \<sigma> T (wall c) m (sstore s)" and c: "clock_in \<sigma> T c" and w: "wire_inv (sstore s)" and ev: "evicted (sstore s) = []"
    using s(1) by (simp_all add: shows_map_def dated_view_def)
  let ?snap = "snapshot_log c (sstore s)"
  obtain l0 where l0: "s1 = s\<lparr>sstore := snd (sweep_expired (mono c) (sstore s)), replicas := [l0]\<rparr>" "live_link l0"
    "handed l0 = log_bytes ([''FLUSHDB''] # ?snap)"
    using serve_replica_run [OF w, of c] sv s(2) by auto
  note sends = view_sends [OF tr c w sec]
  have snap: "?snap = concat (map (item_commands ''EXPIRE'') (map (entry_item (entry_sec c)) (live_entries (mono c) (data (sstore s)))))"
    by (simp add: snapshot_log_def store_items_def)
  have plain: "list_all plain_command ([''FLUSHDB''] # ?snap)"
    using sends_plain [OF sends(1)]
    by (simp add: snap plain_command_def [of "[''FLUSHDB'']"] starts_with_def bytes_upper_def ok_command_def MAX_ARRAY_LENGTH_def)
  have s1: "shows_map (dated_view \<sigma> T) c m s1"
    using s(1) dated.sweep_law [of \<sigma> T c m "sstore s"] wire.I_sweep [OF w] evicted_sweep [OF wire_invD(1) [OF w]]
    by (simp add: shows_map_def l0(1))
  have "replicas s1 = [l0]" by (simp add: l0(1))
  from relay_run [OF s1 reqs this l0(2,3) plain link \<delta>]
  obtain m' news where m': "shows_map (dated_view \<sigma> T) (last_clock c reqs) m' (serve_all reqs s1)"
    "relays \<delta> T (sent_times reqs s1) news m m'" "list_all plain_command news"
    "handed link = encode_command [''FLUSHDB''] @ log_bytes (?snap @ news)" by auto
  have "relays \<delta> T (replicate (length ?snap) (wall c)) ?snap Map.empty m"
    using relays_entries [OF sends(1) c \<delta> snap, of Map.empty] sends(2) by simp
  from relays_append [OF this m'(2)]
  have all: "relays \<delta> T (replicate (length ?snap) (wall c) @ sent_times reqs s1) (?snap @ news) Map.empty m'" .
  have "commands_in (handed l0) = [''FLUSHDB''] # ?snap" unfolding l0(3) by (rule commands_in_log [OF plain_ok [OF plain]])
  then have "sent_so_far s1 = Suc (length ?snap)" by (simp add: sent_so_far_def l0(1))
  then have "prompt \<delta> ([wall c] @ (replicate (length ?snap) (wall c) @ sent_times reqs s1)) clk" using clk(2) by simp
  then have on_time: "prompt \<delta> (replicate (length ?snap) (wall c) @ sent_times reqs s1) (\<lambda>i. clk (1 + i))"
    unfolding prompt_append [of \<delta> "[wall c]"] by simp
  obtain st' where st': "run_commands clk 1 (?snap @ news) (store_flush st0) = Inr (1 + length (?snap @ news), st')"
    "tracks (\<delta> + 1) \<sigma>' T (wall (clk (1 + length (?snap @ news)))) m' st'"
    using all clk(1) on_time tracks_flushed [OF st0] unfolding relays_def by blast
  have "list_all plain_command (?snap @ news)" using plain m'(3) by simp
  from stream_loop_commands [OF this st'(1), of "[]"]
  have run: "stream_loop clk (handed link) 0 st0 = (Primary_closed, st')"
    unfolding m'(4) stream_flushdb by (simp add: stream_loop_end)
  have "close (\<delta> + 1) (seen_at \<sigma> w (sstore (serve_all reqs s1)) k) (seen_at \<sigma>' w st' k)"
    if "\<forall>i. wall (clk i) \<le> w" "wall (last_clock c reqs) \<le> w" "w \<le> T" for w k
  proof -
    have "near 0 \<sigma> (live (w - \<sigma>) (sstore (serve_all reqs s1)) k) (m' k)"
      using m'(1) that(2,3) by (simp add: shows_map_def dated_view_def tracks_def)
    moreover have "near (\<delta> + 1) \<sigma>' (live (w - \<sigma>') st' k) (m' k)" using st'(2) that(1,3) by (simp add: tracks_def)
    ultimately show ?thesis unfolding seen_at_def by (rule close_trans)
  qed
  with run show ?thesis by blast
qed

end
