(* ===== verification/Cli_Args.thy ===== *)
theory Cli_Args
  imports Cache_Server
begin

text \<open>
  The command line (\<^verbatim>\<open>__main__.py\<close>): sizes with units, the address of a primary, and the server that is
  built from the options. \<^verbatim>\<open>argparse\<close> itself is not modelled: the options arrive as a record with their
  texts.
\<close>

section \<open>Sizes\<close>

definition UNITS :: "(string \<times> int) list" where
  "UNITS = [('''', 1), (''b'', 1), (''k'', 1024), (''kb'', 1024), (''m'', 1024 ^ 2), (''mb'', 1024 ^ 2),
            (''g'', 1024 ^ 3), (''gb'', 1024 ^ 3)]"

text \<open>The classes of the regular expression, on code points: white space, decimal digits and ASCII letters.\<close>

definition is_space_cp :: "nat \<Rightarrow> bool" where
  "is_space_cp c \<longleftrightarrow> List.member unicode_spaces c \<or> c < 128 \<and> is_space_byte (char_of c) \<or> 28 \<le> c \<and> c \<le> 31"

definition is_decimal_cp :: "nat \<Rightarrow> bool" where
  "is_decimal_cp c \<longleftrightarrow> is_digit (ascii_of_cp c)"

definition is_letter_cp :: "nat \<Rightarrow> bool" where
  "is_letter_cp c \<longleftrightarrow> 65 \<le> c \<and> c \<le> 90 \<or> 97 \<le> c \<and> c \<le> 122"

definition lower_letter :: "nat \<Rightarrow> char" where
  "lower_letter c = char_of (if c \<le> 90 then c + 32 else c)"

text \<open>The pattern's classes do not overlap, so each part takes all it can.\<close>

definition size_match :: "pystr \<Rightarrow> (pystr \<times> string) option" where
  "size_match s =
     (let s1 = dropWhile is_space_cp s;
          digits = takeWhile is_decimal_cp s1; s2 = dropWhile is_decimal_cp s1;
          s3 = dropWhile is_space_cp s2;
          letters = takeWhile is_letter_cp s3; s4 = dropWhile is_letter_cp s3
      in if digits \<noteq> [] \<and> dropWhile is_space_cp s4 = [] then Some (digits, map lower_letter letters) else None)"

datatype arg_error = Invalid_size pystr | Size_number int_error | Bad_replica_of | Port_number int_error

definition parse_size :: "pystr \<Rightarrow> arg_error + int" where
  "parse_size s =
     (case size_match s of
        None \<Rightarrow> Inl (Invalid_size s)
      | Some (digits, unit) \<Rightarrow>
          (case map_of UNITS unit of
             None \<Rightarrow> Inl (Invalid_size s)
           | Some factor \<Rightarrow> map_sum Size_number (\<lambda>n. n * factor) (py_int_str digits)))"


section \<open>The address of the primary\<close>

text \<open>\<^verbatim>\<open>str.rpartition\<close> on a colon: the text before the last one and the text after it.\<close>

definition rpartition_colon :: "pystr \<Rightarrow> pystr \<times> pystr" where
  "rpartition_colon s =
     (if 58 \<in> set s
      then (rev (tl (dropWhile (\<lambda>c. c \<noteq> 58) (rev s))), rev (takeWhile (\<lambda>c. c \<noteq> 58) (rev s)))
      else ([], s))"

text \<open>\<^verbatim>\<open>str.isdigit\<close>: the decimal digits and those that only \<^verbatim>\<open>isdigit\<close> accepts, superscripts among them.\<close>

definition other_digits :: "(nat \<times> nat) list" where
  "other_digits =
     [(178, 179), (185, 185), (4969, 4977), (6618, 6618), (8304, 8304), (8308, 8313), (8320, 8329), (9312, 9320),
      (9332, 9340), (9352, 9360), (9450, 9450), (9461, 9469), (9471, 9471), (10102, 10110), (10112, 10120),
      (10122, 10130), (68160, 68163), (69216, 69224), (69714, 69722), (127232, 127242)]"

definition py_isdigit :: "pystr \<Rightarrow> bool" where
  "py_isdigit s \<longleftrightarrow>
     s \<noteq> [] \<and> list_all (\<lambda>c. is_decimal_cp c \<or> list_ex (\<lambda>(a, b). a \<le> c \<and> c \<le> b) other_digits) s"

definition parse_replica_of :: "pystr option \<Rightarrow> arg_error + (pystr \<times> int) option" where
  "parse_replica_of arg =
     (case arg of
        None \<Rightarrow> Inr None
      | Some [] \<Rightarrow> Inr None
      | Some s \<Rightarrow>
          (case rpartition_colon s of (host, port) \<Rightarrow>
             if host = [] \<or> \<not> py_isdigit port then Inl Bad_replica_of
             else map_sum Port_number (\<lambda>n. Some (host, n)) (py_int_str port)))"


section \<open>The server\<close>

definition DEFAULT_OUTPUT_LIMIT :: int where
  "DEFAULT_OUTPUT_LIMIT = 64 * 1024 * 1024"

definition DEFAULT_AOF_REWRITE_MIN_SIZE :: int where
  "DEFAULT_AOF_REWRITE_MIN_SIZE = 64 * 1024 * 1024"

text \<open>The options of the parser. The idle timeout and the verbosity have no place in the model.\<close>

record cli_options =
  opt_host :: pystr
  opt_port :: int
  opt_aof_path :: pystr
  opt_aof_fsync :: string
  opt_aof_rewrite_min_size :: "pystr option"
  opt_aof_rewrite_percentage :: int
  opt_maxmemory :: "pystr option"
  opt_maxmemory_policy :: string
  opt_maxclients :: int
  opt_client_output_limit :: "pystr option"
  opt_requirepass :: "pystr option"
  opt_masterauth :: "pystr option"
  opt_replica_of :: "pystr option"

text \<open>The defaults of the parser; those of the passwords come from the environment.\<close>

definition default_options :: "pystr option \<Rightarrow> pystr option \<Rightarrow> cli_options" where
  "default_options env_password env_masterauth =
     \<lparr>opt_host = ascii_str ''127.0.0.1'', opt_port = 6380, opt_aof_path = ascii_str ''mini_cache.aof'',
      opt_aof_fsync = ''everysec'', opt_aof_rewrite_min_size = None, opt_aof_rewrite_percentage = 100,
      opt_maxmemory = None, opt_maxmemory_policy = ''allkeys-lru'', opt_maxclients = 10000,
      opt_client_output_limit = None, opt_requirepass = or_none env_password,
      opt_masterauth = or_none env_masterauth, opt_replica_of = None\<rparr>"

datatype main_error = Usage arg_error | Refused server_init_error

text \<open>An option of type \<^verbatim>\<open>parse_size\<close>; its default is a number already.\<close>

definition size_option :: "int \<Rightarrow> pystr option \<Rightarrow> main_error + int" where
  "size_option preset v = (case v of None \<Rightarrow> Inr preset | Some s \<Rightarrow> map_sum Usage id (parse_size s))"

definition main_server :: "cli_options \<Rightarrow> main_error + server" where
  "main_server args =
     sum_bind (size_option DEFAULT_AOF_REWRITE_MIN_SIZE (opt_aof_rewrite_min_size args)) (\<lambda>min_size.
     sum_bind (size_option 0 (opt_maxmemory args)) (\<lambda>maxmem.
     sum_bind (size_option DEFAULT_OUTPUT_LIMIT (opt_client_output_limit args)) (\<lambda>outlim.
     sum_bind (map_sum Usage id (parse_replica_of (opt_replica_of args))) (\<lambda>rep.
       map_sum Refused id
         (server_init rep (opt_aof_fsync args) (opt_requirepass args) (opt_masterauth args) maxmem
            (opt_maxmemory_policy args) (opt_maxclients args) outlim min_size (opt_aof_rewrite_percentage args))))))"


section \<open>Facts\<close>

lemma str_int_nat: "0 \<le> n \<Longrightarrow> str_int n = dec_nat (nat n)"
  by (simp add: str_int_def)

lemma is_decimal_ascii: "is_digit c \<Longrightarrow> is_decimal_cp (of_char c)"
  by (simp add: is_decimal_cp_def digit_ascii)

lemma digit_not_space: "is_digit c \<Longrightarrow> \<not> is_space_cp (of_char c)"
  by (auto simp: is_space_cp_def is_digit_def Let_def unicode_spaces_def is_space_byte_def)

lemma decimal_str_int: "0 \<le> n \<Longrightarrow> list_all is_decimal_cp (ascii_str (str_int n))"
  using dec_nat_digits by (auto simp: str_int_nat ascii_str_def list_all_iff intro: is_decimal_ascii)

lemma takeWhile_all: "list_all P xs \<Longrightarrow> takeWhile P (xs @ ys) = xs @ takeWhile P ys"
  by (simp add: list_all_iff)

lemma dropWhile_all: "list_all P xs \<Longrightarrow> dropWhile P (xs @ ys) = dropWhile P ys"
  by (simp add: list_all_iff)

text \<open>A number followed by a unit is the number of bytes it says.\<close>

lemma parse_size_unit:
  assumes "0 \<le> n" and "nat n < 10 ^ int_max_str_digits" and "map_of UNITS unit = Some factor"
  shows "parse_size (ascii_str (str_int n @ unit)) = Inr (n * factor)"
proof -
  let ?ds = "ascii_str (str_int n)"
  have u: "unit \<in> fst ` set UNITS" using assms(3) by (metis map_of_SomeD image_eqI fst_conv)
  have "list_all (\<lambda>u. takeWhile is_decimal_cp (ascii_str u) = [] \<and> dropWhile is_decimal_cp (ascii_str u) = ascii_str u \<and>
      dropWhile is_space_cp (ascii_str u) = ascii_str u \<and> takeWhile is_letter_cp (ascii_str u) = ascii_str u \<and>
      dropWhile is_letter_cp (ascii_str u) = [] \<and> map lower_letter (ascii_str u) = u) (map fst UNITS)"
    by code_simp
  with u have unit: "takeWhile is_decimal_cp (ascii_str unit) = []" "dropWhile is_decimal_cp (ascii_str unit) = ascii_str unit"
    "dropWhile is_space_cp (ascii_str unit) = ascii_str unit" "takeWhile is_letter_cp (ascii_str unit) = ascii_str unit"
    "dropWhile is_letter_cp (ascii_str unit) = []" "map lower_letter (ascii_str unit) = unit"
    by (auto simp: list_all_iff)
  have ne: "?ds \<noteq> []" "\<not> is_space_cp (hd ?ds)"
    using last_digit(2) [of "nat n"] digit_not_space assms(1) by (simp_all add: str_int_nat ascii_str_def hd_map)
  have split: "ascii_str (str_int n @ unit) = ?ds @ ascii_str unit" by (simp add: ascii_str_def)
  have "dropWhile is_space_cp (?ds @ ascii_str unit) = ?ds @ ascii_str unit"
    using ne by (intro dropWhile_id) (simp add: hd_append)
  then have "size_match (ascii_str (str_int n @ unit)) = Some (?ds, unit)"
    using decimal_str_int [OF assms(1)] ne(1)
    by (simp add: size_match_def Let_def split takeWhile_all dropWhile_all unit)
  then show ?thesis
    using assms py_int_str_str_int [of n] by (simp add: parse_size_def)
qed

text \<open>No size is negative.\<close>

lemma if_Some_fst: "(if b then Some (x, y) else None) = Some (x', y') \<Longrightarrow> x' = x"
  by (simp split: if_splits)

lemma int_digits_strip: "py_int_bytes (map ascii_of_cp ds) = Inr n \<Longrightarrow> list_all is_decimal_cp ds \<Longrightarrow> 0 \<le> n"
proof -
  assume n: "py_int_bytes (map ascii_of_cp ds) = Inr n" and ds: "list_all is_decimal_cp ds"
  let ?b = "map ascii_of_cp ds"
  have b: "list_all is_digit ?b" using ds by (simp add: list_all_iff is_decimal_cp_def)
  have strip: "py_strip ?b = ?b"
  proof (cases "?b = []")
    case False
    then have "is_digit (hd ?b)" "is_digit (last ?b)"
      using b by (simp_all add: list_all_iff hd_map last_map)
    with False show ?thesis by (intro py_strip_id) (auto dest: digit_not_special)
  qed (simp add: py_strip_def)
  show "0 \<le> n"
    using n b by (auto simp: py_int_bytes_def strip map_sum_eq_Inr split: list.splits if_splits dest: digit_not_special)
qed

lemma parse_size_nonneg: "parse_size s = Inr n \<Longrightarrow> 0 \<le> n"
proof (cases "size_match s")
  case (Some du)
  assume p: "parse_size s = Inr n"
  obtain digits unit where du: "du = (digits, unit)" by (cases du)
  show ?thesis
  proof (cases "map_of UNITS unit")
    case factor: (Some factor)
    have m: "map_sum Size_number (\<lambda>n. n * factor) (py_int_str digits) = Inr n"
      using p by (simp add: parse_size_def Some du factor)
    have "digits = takeWhile is_decimal_cp (dropWhile is_space_cp s)"
      using Some unfolding du size_match_def Let_def by (rule if_Some_fst)
    then have digits: "list_all is_decimal_cp digits" by (auto simp: list_all_iff dest: set_takeWhileD)
    have "(unit, factor) \<in> set UNITS" using factor by (rule map_of_SomeD)
    then have "0 \<le> factor" by (auto simp: UNITS_def)
    with m int_digits_strip [OF _ digits] show ?thesis by (auto simp: py_int_str_def map_sum_eq_Inr)
  qed (use p in \<open>simp add: parse_size_def Some du\<close>)
qed (simp add: parse_size_def)

text \<open>The address of the primary: everything before the last colon is the host, IPv6 addresses included.\<close>

lemma isdigit_str_int: "0 \<le> n \<Longrightarrow> py_isdigit (ascii_str (str_int n))"
  using decimal_str_int [of n] by (auto simp: py_isdigit_def list_all_iff str_int_nat ascii_str_def)

lemma parse_replica_of_address:
  assumes "host \<noteq> []" and "0 \<le> n" and "nat n < 10 ^ int_max_str_digits"
  shows "parse_replica_of (Some (host @ ascii_str (CHR '':'' # str_int n))) = Inr (Some (host, n))"
proof -
  let ?port = "ascii_str (str_int n)"
  have "58 \<notin> set ?port"
  proof
    assume "58 \<in> set ?port"
    then have "is_decimal_cp 58" using decimal_str_int [OF assms(2)] by (simp add: list_all_iff)
    moreover have "\<not> is_decimal_cp 58" by code_simp
    ultimately show False by simp
  qed
  then have "dropWhile (\<lambda>c. c \<noteq> 58) (rev ?port @ 58 # rev host) = 58 # rev host"
    "takeWhile (\<lambda>c. c \<noteq> 58) (rev ?port @ 58 # rev host) = rev ?port"
    by (subst dropWhile_append2 takeWhile_append2; auto)+
  then have "rpartition_colon (host @ 58 # ?port) = (host, ?port)" by (simp add: rpartition_colon_def)
  moreover have "host @ ascii_str (CHR '':'' # str_int n) = host @ 58 # ?port" by (simp add: ascii_str_def)
  ultimately show ?thesis
    using assms isdigit_str_int [OF assms(2)] py_int_str_str_int [of n]
    by (cases host) (simp_all add: parse_replica_of_def)
qed

end
