(* ===== verification/Server_Lifecycle.thy ===== *)
theory Server_Lifecycle
  imports Server_Steps
begin

text \<open>
  The life of a server process: \<^verbatim>\<open>start\<close> loads the log, connects a replica to its primary, opens the listening socket and
  creates the background tasks; the tasks and the client connections then take the steps of \<open>Server_Steps\<close>; \<^verbatim>\<open>stop\<close> ends them
  all and closes the log. A step is possible only while the task that takes it runs.
\<close>

section \<open>State\<close>

text \<open>A task of asyncio that is kept in a field of \<^verbatim>\<open>Server\<close>: \<^verbatim>\<open>None\<close>, running, or done.\<close>

datatype task = Absent | Running | Finished

record replica_client =
  primary_host :: pystr
  primary_port :: int
  primary_password :: "pystr option"

record process =
  psrv :: server
  listening :: bool
  sweep_task :: task
  replica_task :: task
  heartbeat_task :: task
  aof_task :: task
  client_tasks :: nat
  upstream :: "replica_client option"

definition new_process :: "server \<Rightarrow> process" where
  "new_process s =
     \<lparr>psrv = s, listening = False, sweep_task = Absent, replica_task = Absent, heartbeat_task = Absent, aof_task = Absent,
      client_tasks = 0, upstream = None\<rparr>"


section \<open>Starting and stopping\<close>

text \<open>\<^verbatim>\<open>start\<close>. The port is what the operating system binds the socket to, \<open>None\<close> when it refuses (an OSError).\<close>

datatype start_failure = Log_failed start_error | Bind_failed

definition replica_password :: "server \<Rightarrow> pystr option" where
  "replica_password s = (case masterauth s of None \<Rightarrow> requirepass s | Some p \<Rightarrow> Some p)"

definition start_process ::
  "clock \<Rightarrow> (nat \<Rightarrow> clock) \<Rightarrow> bytes option \<Rightarrow> string \<Rightarrow> int option \<Rightarrow> process \<Rightarrow> start_failure + process" where
  "start_process c clk existing fsync_policy port p =
     (case load_aof clk existing fsync_policy ((psrv p)\<lparr>start_time := Some (mono c)\<rparr>) of
        Inl e \<Rightarrow> Inl (Log_failed e)
      | Inr s \<Rightarrow>
          let p1 = (case replica_of s of
                      None \<Rightarrow> p
                    | Some (host, n) \<Rightarrow>
                        p\<lparr>upstream := Some \<lparr>primary_host = host, primary_port = n, primary_password = replica_password s\<rparr>,
                          replica_task := Running\<rparr>)
          in case port of
               None \<Rightarrow> Inl Bind_failed
             | Some n \<Rightarrow>
                 Inr (p1\<lparr>psrv := s\<lparr>bound_port := n\<rparr>, listening := True, sweep_task := Running, heartbeat_task := Running,
                        aof_task := (if aof s = None then aof_task p1 else Running)\<rparr>))"

definition cancel_task :: "task \<Rightarrow> task" where
  "cancel_task t = (if t = Running then Finished else t)"

definition stop_process :: "process \<Rightarrow> process" where
  "stop_process p =
     p\<lparr>listening := False, sweep_task := cancel_task (sweep_task p), replica_task := cancel_task (replica_task p),
       heartbeat_task := cancel_task (heartbeat_task p), aof_task := cancel_task (aof_task p),
       client_tasks := 0, psrv := stop (psrv p)\<rparr>"


section \<open>A connection that became a replica link\<close>

text \<open>The read loop of \<^verbatim>\<open>_serve_replica\<close>: whatever a replica sends is read and dropped, until the link is closed, the input
  ends (or nothing arrives in time), or it is no command. The link is closed on every way out.\<close>

function link_reads :: "bytes \<Rightarrow> replica_link \<Rightarrow> read_error option \<times> replica_link" where
  "link_reads r l =
     (if lclosed l then (None, link_close l)
      else case read_command r of
        Inl e \<Rightarrow> (Some e, link_close l)
      | Inr (None, _) \<Rightarrow> (None, link_close l)
      | Inr (Some command, r1) \<Rightarrow> link_reads r1 l)"
  by pat_completeness auto
termination link_reads
  by (relation "measure (\<lambda>(r, l). length r)") (auto dest: read_command_shorter)

declare link_reads.simps [simp del]

lemma link_reads_closes: "snd (link_reads r l) = link_close l"
  by (induction r l rule: link_reads.induct) (subst link_reads.simps, simp split: sum.split option.split prod.split)


section \<open>Steps\<close>

inductive process_step :: "process \<Rightarrow> process \<Rightarrow> bool" where
  pr_accept: "listening p \<Longrightarrow> accept_client (psrv p) = (admitted, s') \<Longrightarrow>
    process_step p (p\<lparr>psrv := s', client_tasks := (if admitted then Suc (client_tasks p) else client_tasks p)\<rparr>)"
| pr_leave: "0 < client_tasks p \<Longrightarrow>
    process_step p (p\<lparr>psrv := leave_client (psrv p), client_tasks := client_tasks p - 1\<rparr>)"
| pr_command: "0 < client_tasks p \<Longrightarrow> clock_ok c \<Longrightarrow> command \<noteq> [] \<Longrightarrow> ok_command command \<Longrightarrow>
    handle_command c authed command (psrv p) = (a, authed', s') \<Longrightarrow> process_step p (p\<lparr>psrv := s'\<rparr>)"
| pr_serve_replica: "0 < client_tasks p \<Longrightarrow> replica_of (psrv p) = None \<Longrightarrow>
    process_step p (p\<lparr>psrv := snd (serve_replica c (psrv p))\<rparr>)"
| pr_link: "i < length (replicas (psrv p)) \<Longrightarrow> e \<in> {Pump, Drained, Close} \<Longrightarrow>
    process_step p (p\<lparr>psrv := (psrv p)\<lparr>replicas := drop_closed ((replicas (psrv p))[i := link_apply e (replicas (psrv p) ! i)])\<rparr>\<rparr>)"
| pr_sweep: "sweep_task p = Running \<Longrightarrow> process_step p (p\<lparr>psrv := sweep_once c (psrv p)\<rparr>)"
| pr_heartbeat: "heartbeat_task p = Running \<Longrightarrow> process_step p (p\<lparr>psrv := snd (heartbeat (psrv p))\<rparr>)"
| pr_stream: "replica_task p = Running \<Longrightarrow>
    process_step p (p\<lparr>psrv := (psrv p)\<lparr>sstore := snd (stream_loop clk r 0 (sstore (psrv p))), link_up := up\<rparr>\<rparr>)"
| pr_aof_turn: "aof_task p = Running \<Longrightarrow> process_step p (p\<lparr>psrv := aof_turn (psrv p)\<rparr>)"
| pr_rewrite_begin: "rewrite_running (psrv p) \<Longrightarrow> rewrite_payload (psrv p) = None \<Longrightarrow> deadlines_ok c (sstore (psrv p)) \<Longrightarrow>
    process_step p (p\<lparr>psrv := rewrite_task_begin c (psrv p)\<rparr>)"
| pr_rewrite_end: "rewrite_running (psrv p) \<Longrightarrow> process_step p (p\<lparr>psrv := rewrite_task_end (psrv p)\<rparr>)"
| pr_rewrite_fail: "rewrite_running (psrv p) \<Longrightarrow> process_step p (p\<lparr>psrv := rewrite_task_fail (psrv p)\<rparr>)"

inductive_cases process_stepE: "process_step p p'"

text \<open>From a server that is built, through its start, to any point before it is stopped.\<close>

inductive process_reachable :: "process \<Rightarrow> bool" where
  pr_start: "server_init rep fs pass mauth mm pol maxcl outlim msz pct = Inr s \<Longrightarrow>
    (\<And>raw. existing = Some raw \<Longrightarrow> crash_log raw) \<Longrightarrow>
    start_process c clk existing fs port (new_process s) = Inr p \<Longrightarrow> process_reachable p"
| pr_next: "process_reachable p \<Longrightarrow> process_step p p' \<Longrightarrow> process_reachable p'"


section \<open>The invariant of a running process\<close>

definition process_inv :: "process \<Rightarrow> bool" where
  "process_inv p \<longleftrightarrow> server_inv (psrv p) \<and> listening p \<and> sweep_task p = Running \<and> heartbeat_task p = Running \<and>
     aof_task p = (if aof (psrv p) = None then Absent else Running) \<and>
     replica_task p = (if replica_of (psrv p) = None then Absent else Running) \<and>
     upstream p = map_option (\<lambda>(h, n). \<lparr>primary_host = h, primary_port = n, primary_password = replica_password (psrv p)\<rparr>)
       (replica_of (psrv p)) \<and>
     client_tasks p = client_count (psrv p)"

text \<open>What no command and no background task changes: the configuration, whether there is a log, and the number of clients.\<close>

definition frame :: "server \<Rightarrow> (pystr \<times> int) option \<times> pystr option \<times> pystr option \<times> bool \<times> nat" where
  "frame s = (replica_of s, masterauth s, requirepass s, aof s = None, client_count s)"

lemma frame_store [simp]:
  "frame (s\<lparr>sstore := st\<rparr>) = frame s" "frame (s\<lparr>sstore := st, link_up := up\<rparr>) = frame s"
  "frame (s\<lparr>replicas := ls\<rparr>) = frame s" "frame (counted s) = frame s" "frame (sweep_once c s) = frame s"
  by (simp_all add: frame_def sweep_once_def counted_def)

lemma frame_execute:
  assumes "server_inv s" and "clock_ok c" and "command \<noteq> []" and "ok_command command" and "execute c command s = (a, s')"
  shows "frame s' = frame s"
proof -
  have w: "wire_inv (sstore s)" using assms(1) by (simp add: server_inv_def)
  obtain r st1 where d: "dispatch c (map Bytes command) (sstore s) = (r, st1)" by fastforce
  show ?thesis
  proof (cases "\<not> failed r \<and> is_write_command (server_name command)")
    case False
    then have "s' = s\<lparr>sstore := st1\<rparr>"
      using assms(5) d by (auto simp: execute_def Let_def failed_is_error split: sum.splits)
    then show ?thesis by simp
  next
    case True
    then obtain st2 cs ls where "s' = s\<lparr>sstore := st2, aof := map_option aof_commit (logged cs (aof s)), replicas := ls\<rparr>"
      using execute_write [OF w assms(2-4) _ d _ refl refl] assms(5) by (metis prod.inject)
    then show ?thesis by (simp add: frame_def)
  qed
qed

lemma frame_command:
  assumes "server_inv s" and "clock_ok c" and "command \<noteq> []" and "ok_command command"
    and "handle_command c authed command s = (a, authed', s')"
  shows "frame s' = frame s"
  using assms(5)
proof (cases rule: handle_command_cases)
  case (info body)
  then have "s' = (counted s)\<lparr>sstore := snd (store_len (mono c) (sstore s))\<rparr>"
    by (auto simp: build_info_def info_lines_def Let_def split: prod.splits)
  then show ?thesis by simp
next
  case run
  with frame_execute [of "counted s"] assms(1-4) show ?thesis by (simp add: server_inv_counted)
qed (auto simp: start_rewrite_def frame_def counted_def)

lemma frame_background:
  "frame (snd (serve_replica c s)) = frame s" "frame (snd (heartbeat s)) = frame s" "frame (aof_turn s) = frame s"
  "frame (rewrite_task_begin c s) = frame s" "frame (rewrite_task_end s) = frame s" "frame (rewrite_task_fail s) = frame s"
proof -
  have "record_ok [word_arg ''PING'']" by (simp add: record_ok_Cons)
  then show "frame (snd (heartbeat s)) = frame s" by (simp add: heartbeat_def propagate_run)
qed (auto simp: frame_def serve_replica_def aof_turn_def start_rewrite_def rewrite_task_begin_def rewrite_task_end_def
       rewrite_task_fail_def Let_def split: prod.splits sum.splits option.splits)

lemma frame_accept:
  "accept_client s = (admitted, s') \<Longrightarrow>
     frame (s'\<lparr>client_count := client_count s\<rparr>) = frame s \<and> client_count s' = (if admitted then Suc (client_count s) else client_count s)"
  by (auto simp: frame_def accept_client_def Let_def split: if_splits)

text \<open>Every step of the process is a step of its server.\<close>

lemma process_server_step:
  assumes "process_step p p'" and "process_inv p"
  shows "server_step (psrv p) (psrv p')"
  using assms(1)
proof cases
  case (pr_accept admitted s')
  with sv_accept [of "psrv p"] show ?thesis by simp
next
  case pr_stream
  with assms(2) sv_stream [of "psrv p"] show ?thesis by (auto simp: process_inv_def split: if_splits)
qed (use assms(2) in \<open>auto simp: process_inv_def intro: server_step.intros\<close>)

lemma replica_password_frame:
  "masterauth s' = masterauth s \<Longrightarrow> requirepass s' = requirepass s \<Longrightarrow> replica_password s' = replica_password s"
  by (simp add: replica_password_def split: option.split)

lemma process_inv_frame:
  assumes "process_inv p" and "server_inv s'" and "frame s' = frame (psrv p)"
  shows "process_inv (p\<lparr>psrv := s'\<rparr>)"
  using assms replica_password_frame [of s' "psrv p"] by (simp add: process_inv_def frame_def)

lemma process_step_inv:
  assumes step: "process_step p p'" and inv: "process_inv p"
  shows "process_inv p'"
proof -
  have s: "server_inv (psrv p')"
    using server_step_inv [OF process_server_step [OF step inv]] inv by (simp add: process_inv_def)
  have si: "server_inv (psrv p)" using inv by (simp add: process_inv_def)
  from step show ?thesis
  proof cases
    case (pr_accept admitted s')
    with frame_accept [OF pr_accept(3)] s inv replica_password_frame [of s' "psrv p"] show ?thesis
      by (simp add: process_inv_def frame_def split: if_splits)
  next
    case pr_leave
    with s inv replica_password_frame [of "leave_client (psrv p)" "psrv p"] show ?thesis
      by (simp add: process_inv_def leave_client_def)
  next
    case (pr_command c command authed a authed' s')
    with frame_command [OF si pr_command(3-6)] s inv show ?thesis by (auto intro: process_inv_frame)
  qed (use s inv frame_background in \<open>auto intro!: process_inv_frame\<close>)
qed

lemma start_process_inv:
  assumes "server_init rep fs pass mauth mm pol maxcl outlim msz pct = Inr s"
    and "\<And>raw. existing = Some raw \<Longrightarrow> crash_log raw"
    and "start_process c clk existing fs port (new_process s) = Inr p"
  shows "process_inv p"
proof -
  let ?s0 = "s\<lparr>start_time := Some (mono c)\<rparr>"
  obtain s1 where s1: "load_aof clk existing fs ?s0 = Inr s1"
    using assms(3) by (auto simp: start_process_def new_process_def split: sum.splits)
  have s1': "load_aof clk existing fs s = Inr (s1\<lparr>start_time := start_time s\<rparr>)"
    using s1 by (auto simp: load_aof_def split: option.splits sum.splits if_splits prod.splits)
  from server_reachable_inv [OF sv_start [OF assms(1,2) this]] have inv: "server_inv s1" by (simp add: server_inv_def)
  have count: "client_count s1 = 0"
    using s1 assms(1) by (auto simp: load_aof_def server_init_def split: option.splits sum.splits if_splits prod.splits)
  have repl: "replica_of s1 \<noteq> None \<longrightarrow> aof s1 = None" using inv by (simp add: server_inv_def)
  show ?thesis
    using assms(3) s1 inv count repl
    by (auto simp: start_process_def new_process_def process_inv_def server_inv_def replica_password_def Let_def
        split: option.splits if_splits)
qed

lemma process_reachable_inv: "process_reachable p \<Longrightarrow> process_inv p"
  by (induction rule: process_reachable.induct) (rule start_process_inv process_step_inv; assumption)+


section \<open>Shutdown\<close>

lemma close_durable:
  assumes "file_ok l"
  shows "closed (aof_close l) \<and> contents (aof_close l) = contents l \<and> on_disk (aof_close l) = contents l"
proof -
  have "on_disk (fsync_done (contents l) (l\<lparr>dirty := False\<rparr>)) = contents l"
    using fsync_done_all [of "l\<lparr>dirty := False\<rparr>"] assms by (simp add: file_ok_def)
  then show ?thesis
    using assms by (auto simp: file_ok_def aof_close_def aof_sync_def sync_begin_def fsync_done_def)
qed

text \<open>A process that has been stopped does nothing any more.\<close>

definition at_rest :: "process \<Rightarrow> bool" where
  "at_rest p \<longleftrightarrow> \<not> listening p \<and> Running \<notin> {sweep_task p, replica_task p, heartbeat_task p, aof_task p} \<and>
     client_tasks p = 0 \<and> \<not> rewrite_running (psrv p) \<and> replicas (psrv p) = []"

lemma at_rest_stuck: "at_rest p \<Longrightarrow> \<not> process_step p p'"
  by (auto simp: at_rest_def elim!: process_stepE)

lemma stop_at_rest: "at_rest (stop_process p)"
  by (simp add: at_rest_def stop_process_def cancel_task_def stop_def Let_def)

lemma stop_log:
  assumes "server_inv s" and "aof s = Some l"
  shows "\<exists>l'. aof (stop s) = Some l' \<and> closed l' \<and> contents l' = contents l \<and> on_disk l' = contents l"
proof -
  have ok: "file_ok l" using assms by (simp add: server_inv_def log_inv_def)
  obtain l1 where l1: "aof (rewrite_task_fail s) = Some l1" "contents l1 = contents l" "file_ok l1"
    using assms(2) ok file_ok_ops(5) [OF ok]
    by (cases "rewrite_payload s") (auto simp: rewrite_task_fail_def rewrite_abort_def)
  then show ?thesis using close_durable [OF l1(3)] by (simp add: stop_def Let_def)
qed

end
