(* ===== verification/Main_Process.thy ===== *)
theory Main_Process
  imports Cli_Args Server_Lifecycle
begin

text \<open>
  From the command line to a running process (\<^verbatim>\<open>main\<close> of \<^verbatim>\<open>__main__.py\<close> up to the end of \<^verbatim>\<open>start\<close>): a command line that says
  what it means is never refused, the process has what it asks for, and only a record of the log that raises when it is
  replayed keeps the process from starting.
\<close>

section \<open>Main\<close>

datatype run_failure = Not_built main_error | Not_started start_failure

text \<open>The argument \<open>file\<close> is what the file of the log holds, empty when there is none; \<^verbatim>\<open>args.aof_path or None\<close> turns the log off
  for an empty path.\<close>

definition main_log :: "cli_options \<Rightarrow> bytes \<Rightarrow> bytes option" where
  "main_log args file = (if opt_aof_path args = [] then None else Some file)"

definition main_process ::
  "clock \<Rightarrow> (nat \<Rightarrow> clock) \<Rightarrow> bytes \<Rightarrow> int option \<Rightarrow> cli_options \<Rightarrow> run_failure + process" where
  "main_process c clk file port args =
     (case main_server args of
        Inl e \<Rightarrow> Inl (Not_built e)
      | Inr s \<Rightarrow>
          map_sum Not_started id (start_process c clk (main_log args file) (opt_aof_fsync args) port (new_process s)))"


section \<open>What the texts of the options mean\<close>

definition small_number :: "int \<Rightarrow> bool" where
  "small_number n \<longleftrightarrow> 0 \<le> n \<and> nat n < 10 ^ int_max_str_digits"

definition means_size :: "int \<Rightarrow> pystr option \<Rightarrow> int \<Rightarrow> bool" where
  "means_size preset text n \<longleftrightarrow>
     text = None \<and> n = preset \<or>
     (\<exists>m unit factor. text = Some (ascii_str (str_int m @ unit)) \<and> small_number m \<and> map_of UNITS unit = Some factor \<and>
        n = m * factor)"

definition means_address :: "pystr option \<Rightarrow> (pystr \<times> int) option \<Rightarrow> bool" where
  "means_address text rep \<longleftrightarrow>
     text = None \<and> rep = None \<or>
     (\<exists>host n. text = Some (host @ ascii_str (CHR '':'' # str_int n)) \<and> host \<noteq> [] \<and> small_number n \<and> rep = Some (host, n))"

lemma size_option_means: "means_size preset text n \<Longrightarrow> size_option preset text = Inr n"
  by (auto simp: means_size_def size_option_def small_number_def parse_size_unit)

lemma means_size_nonneg: "means_size preset text n \<Longrightarrow> 0 \<le> preset \<Longrightarrow> 0 \<le> n"
  by (auto simp: means_size_def small_number_def UNITS_def split: if_splits)

lemma parse_replica_means: "means_address text rep \<Longrightarrow> parse_replica_of text = Inr rep"
  by (auto simp: means_address_def small_number_def parse_replica_of_address) (simp add: parse_replica_of_def)

lemma main_server_means:
  assumes "means_size DEFAULT_AOF_REWRITE_MIN_SIZE (opt_aof_rewrite_min_size args) min_size" and "means_size 0 (opt_maxmemory args) maxmem"
    and "means_size DEFAULT_OUTPUT_LIMIT (opt_client_output_limit args) outlim" and "means_address (opt_replica_of args) rep"
    and "List.member FSYNC_POLICIES (opt_aof_fsync args)" and "List.member POLICIES (opt_maxmemory_policy args)"
  shows "\<exists>s. main_server args = Inr s \<and>
    server_init rep (opt_aof_fsync args) (opt_requirepass args) (opt_masterauth args) maxmem (opt_maxmemory_policy args)
      (opt_maxclients args) outlim min_size (opt_aof_rewrite_percentage args) = Inr s \<and>
    sstore s = fresh_store (if rep = None then maxmem else 0) (opt_maxmemory_policy args)"
  using assms(5,6) means_size_nonneg [OF assms(2)]
  by (simp add: main_server_def size_option_means [OF assms(1)] size_option_means [OF assms(2)]
      size_option_means [OF assms(3)] parse_replica_means [OF assms(4)] server_init_def store_init_def)


section \<open>Loading the log keeps the configuration\<close>

lemma configured_replay_loop:
  "configured m p st \<Longrightarrow> replay_loop clk r cnt good st = Inr (n, tail_at, st') \<Longrightarrow> configured m p st'"
proof (induction clk r cnt good st rule: replay_loop.induct)
  case (1 clk r cnt good st)
  have dispatched: "configured m p st1" if "dispatch c (map Bytes command) st = (x, st1)" for c command x st1
    using conf.I_dispatch [OF 1(3), of "map Bytes command" c] that by (simp add: list_all_iff)
  have run: "(case read_command r of
        Inl _ \<Rightarrow> Inr (cnt, Some good, st)
      | Inr (None, _) \<Rightarrow> Inr (cnt, None, st)
      | Inr (Some command, r1) \<Rightarrow>
          let good1 = good + length (encode_command command)
          in if command = [] then replay_loop clk r1 cnt good1 st
             else (case dispatch (clk cnt) (map Bytes command) st of
                     (Inl e, _) \<Rightarrow> Inl e
                   | (Inr _, st1) \<Rightarrow> replay_loop clk r1 (Suc cnt) good1 st1)) = Inr (n, tail_at, st')"
    using 1(4) by (subst (asm) replay_loop.simps)
  show ?case
  proof (cases "read_command r")
    case (Inr got)
    obtain command r1 where got: "got = (command, r1)" by (cases got)
    show ?thesis
    proof (cases command)
      case (Some cmd)
      with 1(1,2) [OF Inr [unfolded got] refl] 1(3) run Inr got dispatched show ?thesis
        by (cases "cmd = []") (auto simp: Let_def split: prod.splits sum.splits)
    qed (use run 1(3) Inr got in simp)
  qed (use run 1(3) in simp)
qed

lemma configured_replay:
  assumes "configured m p st" and "replay clk l st = Inr (n, corrupt, l', st')"
  shows "configured m p st'"
proof (cases "contents l = []")
  case False
  obtain cnt tail_at st1 where loop: "replay_loop clk (contents l) 0 0 st = Inr (cnt, tail_at, st1)"
    using assms(2) False by (auto simp: replay_def split: sum.splits)
  have "st' = snd (drain_evictions st1)"
    using assms(2) False loop by (auto simp: replay_def Let_def split: option.splits prod.splits)
  with configured_replay_loop [OF assms(1) loop] show ?thesis
    by (simp add: drain_evictions_def configured_def inv_intros)
qed (use assms in \<open>simp add: replay_def\<close>)

lemma load_aof_configured:
  assumes "load_aof clk existing fs s = Inr s'" and "configured m p (sstore s)" and "aof s = None"
  shows "\<exists>st l b. s' = s\<lparr>sstore := st, aof := l, aof_base_size := b\<rparr> \<and> configured m p st \<and>
    (l = None \<longleftrightarrow> existing = None \<or> replica_of s \<noteq> None)"
proof (cases "existing = None \<or> replica_of s \<noteq> None")
  case True
  with assms have "s' = s" by (auto simp: load_aof_def split: option.splits)
  with True assms show ?thesis by (intro exI [of _ "sstore s"] exI [of _ None] exI [of _ "aof_base_size s"]) simp
next
  case False
  then obtain raw where raw: "existing = Some raw" "replica_of s = None" by (cases existing; cases "replica_of s") auto
  with assms(1) obtain l n corrupt l1 st1 where l: "replay clk l (sstore s) = Inr (n, corrupt, l1, st1)"
    "s' = s\<lparr>sstore := st1, aof := Some l1, aof_base_size := aof_size l1\<rparr>"
    by (auto simp: load_aof_def split: sum.splits)
  from configured_replay [OF assms(2) l(1)] l(2) raw show ?thesis by blast
qed

lemma load_aof_fails:
  assumes "load_aof clk existing fs s = Inl e" and "List.member FSYNC_POLICIES fs"
  shows "existing \<noteq> None \<and> replica_of s = None \<and> (\<exists>x. e = Start_raised x)"
  using assms by (cases "replica_of s") (auto simp: load_aof_def aof_open_def split: option.splits sum.splits if_splits)


section \<open>The process that main starts\<close>

lemma main_process_starts:
  assumes "means_size DEFAULT_AOF_REWRITE_MIN_SIZE (opt_aof_rewrite_min_size args) min_size" and "means_size 0 (opt_maxmemory args) maxmem"
    and "means_size DEFAULT_OUTPUT_LIMIT (opt_client_output_limit args) outlim" and "means_address (opt_replica_of args) rep"
    and "List.member FSYNC_POLICIES (opt_aof_fsync args)" and "List.member POLICIES (opt_maxmemory_policy args)"
    and "crash_log file"
  shows "case main_process c clk file (Some n) args of
      Inl e \<Rightarrow> opt_aof_path args \<noteq> [] \<and> rep = None \<and> (\<exists>x. e = Not_started (Log_failed (Start_raised x)))
    | Inr p \<Rightarrow> process_reachable p \<and>
        maxmemory (sstore (psrv p)) = (if rep = None then maxmem else 0) \<and> policy (sstore (psrv p)) = opt_maxmemory_policy args \<and>
        replica_of (psrv p) = rep \<and> requirepass (psrv p) = or_none (opt_requirepass args) \<and>
        masterauth (psrv p) = or_none (opt_masterauth args) \<and> maxclients (psrv p) = opt_maxclients args \<and>
        client_output_limit (psrv p) = outlim \<and> aof_rewrite_min_size (psrv p) = min_size \<and>
        aof_rewrite_percentage (psrv p) = opt_aof_rewrite_percentage args \<and> bound_port (psrv p) = n \<and>
        (aof (psrv p) \<noteq> None) = (opt_aof_path args \<noteq> [] \<and> rep = None)"
proof -
  from main_server_means [OF assms(1-6)] obtain s where s: "main_server args = Inr s"
    "server_init rep (opt_aof_fsync args) (opt_requirepass args) (opt_masterauth args) maxmem (opt_maxmemory_policy args)
      (opt_maxclients args) outlim min_size (opt_aof_rewrite_percentage args) = Inr s"
    "sstore s = fresh_store (if rep = None then maxmem else 0) (opt_maxmemory_policy args)" by blast
  let ?s = "s\<lparr>start_time := Some (mono c)\<rparr>"
  note fields = s(2) [unfolded server_init_def]
  have conf: "configured (if rep = None then maxmem else 0) (opt_maxmemory_policy args) (sstore ?s)" "aof ?s = None" "replica_of ?s = rep"
    using s(3) fields cmd_inv_fresh by (auto simp: configured_def cmd_inv_def fresh_store_def split: if_splits sum.splits)
  show ?thesis
  proof (cases "load_aof clk (main_log args file) (opt_aof_fsync args) ?s")
    case (Inl e)
    with load_aof_fails [OF Inl assms(5)] conf(3) show ?thesis
      by (auto simp: main_process_def s(1) start_process_def new_process_def main_log_def split: if_splits)
  next
    case (Inr s1)
    from load_aof_configured [OF Inr conf(1,2)] obtain st l b where s1: "s1 = ?s\<lparr>sstore := st, aof := l, aof_base_size := b\<rparr>"
      "configured (if rep = None then maxmem else 0) (opt_maxmemory_policy args) st" "l = None \<longleftrightarrow> main_log args file = None \<or> rep \<noteq> None"
      using conf(3) by auto
    obtain p where p: "start_process c clk (main_log args file) (opt_aof_fsync args) (Some n) (new_process s) = Inr p"
      "psrv p = s1\<lparr>bound_port := n\<rparr>"
      using Inr by (cases "replica_of s1") (auto simp: start_process_def new_process_def Let_def)
    have "process_reachable p" by (rule pr_start [OF s(2) _ p(1)]) (use assms(7) in \<open>simp add: main_log_def split: if_splits\<close>)
    then show ?thesis
      using p s1 fields by (auto simp: main_process_def s(1) configured_def main_log_def split: if_splits sum.splits)
  qed
qed

end
