(* ===== verification/Deviations.thy ===== *)
theory Deviations
  imports Cluster_Net
begin

text \<open>
  Runs of the model in which the program does not do what it means to do. Each is a concrete run of the
  definitions that model the code.
\<close>

section \<open>Servers\<close>

definition at_time :: "seconds \<Rightarrow> clock" where
  "at_time t = \<lparr>mono = t, wall = t\<rparr>"

definition started :: "(pystr \<times> int) option \<Rightarrow> bytes option \<Rightarrow> server option" where
  "started rep existing =
     (case server_init rep ''no'' None None 0 ''allkeys-lru'' 0 0 0 100 of
        Inl _ \<Rightarrow> None
      | Inr s \<Rightarrow> (case load_aof (\<lambda>_. at_time 0) existing ''no'' s of Inl _ \<Rightarrow> None | Inr s1 \<Rightarrow> Some s1))"

text \<open>The values of a key: in a server at a time, and after a restart at that time from its log.\<close>

definition value_at :: "seconds \<Rightarrow> bytes \<Rightarrow> server \<Rightarrow> pyobj" where
  "value_at t k s = fst (store_get t (Bytes k) (sstore s))"

definition value_restarted :: "seconds \<Rightarrow> bytes \<Rightarrow> server \<Rightarrow> pyobj option" where
  "value_restarted t k s =
     (case log_contents s of
        None \<Rightarrow> None
      | Some raw \<Rightarrow>
          (case server_init None ''no'' None None 0 ''allkeys-lru'' 0 0 0 100 of
             Inl _ \<Rightarrow> None
           | Inr s0 \<Rightarrow>
               (case load_aof (\<lambda>_. at_time t) (Some raw) ''no'' s0 of
                  Inl _ \<Rightarrow> None
                | Inr s1 \<Rightarrow> Some (value_at t k s1))))"


section \<open>Names\<close>

text \<open>The bytes of a long s followed by et: not ASCII, but its upper case is SET.\<close>

definition long_s_set :: bytes where
  "long_s_set = [CHR 0xC5, CHR 0xBF, CHR ''e'', CHR ''t'']"

lemma long_s_name: "str_upper (to_text (Bytes long_s_set)) = ascii_str ''SET'' \<and> server_name [long_s_set] \<noteq> ascii_str ''SET''"
  by code_simp

lemma replica_accepts_write:
  "case started (Some (ascii_str ''primary'', 6380)) None of
     None \<Rightarrow> False
   | Some s \<Rightarrow>
       (case handle_command (at_time 1) True [long_s_set, ''k'', ''v''] s of
          (a, authed, s1) \<Rightarrow> a = Send OK \<and> value_at 1 ''k'' s = PyNone \<and> value_at 1 ''k'' s1 = PyArg (Bytes ''v''))"
  by code_simp

lemma write_not_logged:
  "case started None (Some []) of
     None \<Rightarrow> False
   | Some s \<Rightarrow>
       (case handle_command (at_time 1) True [long_s_set, ''k'', ''v''] s of
          (a, authed, s1) \<Rightarrow> a = Send OK \<and> value_at 1 ''k'' s1 = PyArg (Bytes ''v'') \<and> log_contents s1 = Some [])"
  by code_simp


section \<open>Deadlines in the log\<close>

text \<open>A key that lost its deadline is gone after a restart that comes after the deadline.\<close>

lemma persisted_key_lost:
  "case started None (Some []) of
     None \<Rightarrow> False
   | Some s \<Rightarrow>
       let s1 = serve_all [(at_time 1, True, [''SET'', ''k'', ''v'', ''EX'', ''10'']), (at_time 2, True, [''PERSIST'', ''k''])] s
       in value_at 100 ''k'' s1 = PyArg (Bytes ''v'') \<and> value_restarted 100 ''k'' s1 = Some PyNone"
  by code_simp

text \<open>A counter that has expired is back after a restart, without a deadline.\<close>

lemma expired_counter_returns:
  "case started None (Some []) of
     None \<Rightarrow> False
   | Some s \<Rightarrow>
       let s1 = serve_all [(at_time 1, True, [''SET'', ''k'', ''5'', ''EX'', ''10'']), (at_time 2, True, [''INCR'', ''k''])] s
       in value_at 100 ''k'' s1 = PyNone \<and> value_restarted 100 ''k'' s1 = Some (PyArg (Bytes ''1''))"
  by code_simp


section \<open>Replies\<close>

text \<open>An unknown command whose name has a line end in it is echoed; the rest of the line is read as the
  reply to the next command on that connection.\<close>

definition two_line_name :: bytes where
  "two_line_name = ''x'' @ CRLF @ ''+PONG''"

lemma replies_out_of_step:
  "case started None None of
     None \<Rightarrow> False
   | Some s \<Rightarrow>
       let w = \<lparr>servers = [(ascii_str ''a:1'', s)], pools = \<lambda>_. [], tick = 0\<rparr>;
           cl = \<lparr>shards = [(ascii_str ''a'', 1)], password = None, pool_size = 4,
                 cring = \<lparr>virtual_nodes = 0, ring = [], sorted_hashes = []\<rparr>\<rparr>;
           rt = shard_roundtrip (\<lambda>_. at_time 1) 3 cl (ascii_str ''a:1'')
       in case rt [Bytes two_line_name] w of (r1, w1) \<Rightarrow>
            (case rt [word_arg ''GET'', Bytes ''k''] w1 of (r2, w2) \<Rightarrow>
               isl r1 \<and> r2 \<noteq> Inr PyNone \<and> value_at 1 ''k'' s = PyNone)"
  by code_simp

text \<open>A request that fails on a pooled connection is sent again on a new one, whether or not the server has run it: after the
  reply above one increment counts twice.\<close>

lemma increment_runs_twice:
  "case started None None of
     None \<Rightarrow> False
   | Some s \<Rightarrow>
       let w = \<lparr>servers = [(ascii_str ''a:1'', s)], pools = \<lambda>_. [], tick = 0\<rparr>;
           cl = \<lparr>shards = [(ascii_str ''a'', 1)], password = None, pool_size = 4,
                 cring = \<lparr>virtual_nodes = 0, ring = [], sorted_hashes = []\<rparr>\<rparr>;
           rt = shard_roundtrip (\<lambda>_. at_time 1) 3 cl (ascii_str ''a:1'')
       in case rt [Bytes (''x'' @ CRLF @ ''y'')] w of (r1, w1) \<Rightarrow>
            (case rt [word_arg ''INCRBY'', Bytes ''n'', word_arg ''1''] w1 of (r2, w2) \<Rightarrow>
               value_at 1 ''n'' s = PyNone \<and> r2 = Inr (PyInt 2))"
  by code_simp

end
