(* ===== verification/Spec2Isabelle.thy ===== *)
theory Spec2Isabelle
  imports Cluster_Properties Log_Properties Dated_Replica Main_Process Deviations
begin

text \<open>
  A verification development for mini_cache, a cache server that speaks the Redis protocol, with an append-only log, read
  replicas, and a client that spreads keys over several servers.

  \<^bold>\<open>The program and its model.\<close> A server (\<^verbatim>\<open>server.py\<close>) reads commands with the protocol (\<^verbatim>\<open>protocol.py\<close>), runs them with the
  command table (\<^verbatim>\<open>commands.py\<close>) on a store in memory (\<^verbatim>\<open>store.py\<close>), appends what changed the store to a log (\<^verbatim>\<open>aof.py\<close>), sends
  it to its replicas (\<^verbatim>\<open>_ReplicaLink\<close> of \<^verbatim>\<open>server.py\<close>, received by \<^verbatim>\<open>replication.py\<close>) and only then replies. The cluster client
  (\<^verbatim>\<open>cluster.py\<close>) hashes a key to a server on a ring and talks to it over pooled connections. All paths are under
  \<^verbatim>\<open>src/src/mini_cache/\<close>.

  \<^item> \<open>Mini_Prelude\<close>, \<open>Py_Text\<close>, \<open>Py_Collections\<close>: generic lemmas and the named collections; the text primitives of Python
    (UTF-8, \<^verbatim>\<open>upper\<close>, \<^verbatim>\<open>int\<close>, \<^verbatim>\<open>round\<close>); \<^verbatim>\<open>OrderedDict\<close> and \<^verbatim>\<open>heapq\<close> behind the locales \<open>ordered_dict\<close> and \<open>priority_queue\<close>.
  \<^item> \<open>Resp_Protocol\<close> is \<^verbatim>\<open>protocol.py\<close>: \<open>encode\<close>, \<open>read_command\<close>, \<open>read_reply\<close>, with one constructor per error; the locale
    \<open>stream_codec\<close> is what the log and the link need of it.
  \<^item> \<open>Kv_Store\<close> is \<^verbatim>\<open>store.py\<close>: the record \<open>store\<close> has the fields of \<^verbatim>\<open>Store\<close>, one definition per method, and the invariant of
    the accounting and of the heap of deadlines. \<open>Kv_Refine\<close> is its contract: \<open>live t st\<close> is the map a client sees at time
    \<open>t\<close>, and every method refines an operation on maps.
  \<^item> \<open>Kv_Commands\<close> is \<^verbatim>\<open>commands.py\<close>, with \<open>Glob_Match\<close> for the patterns of KEYS. \<open>Kv_Preserve\<close>: what every command keeps
    (locale \<open>preserved\<close>). \<open>Kv_Semantics\<close>: what every command does to the map, errors included. \<open>Reply_Types\<close>: the type of the
    reply of every command, and stores whose data came over the wire.
  \<^item> \<open>Aof_Log\<close> is \<^verbatim>\<open>aof.py\<close>: records, append, group commit, rewrite and replay, with the steps of concurrent commits.
    \<open>Snapshot_Replay\<close> and \<open>Aof_Rewrite\<close>: a store written as commands and replayed is the same store (locale \<open>snapshot_format\<close>,
    interpreted for the rewrite of the log and for the stream to a replica).
  \<^item> \<open>Repl_Stream\<close> is \<^verbatim>\<open>replication.py\<close>; \<open>Replica_Link\<close> is the bounded queue to one replica.
  \<^item> \<open>Cache_Server\<close> is \<^verbatim>\<open>server.py\<close>: the record \<open>server\<close> has the fields of \<^verbatim>\<open>Server\<close>; \<open>handle_command\<close> is one turn of the client
    loop and \<open>client_loop\<close> the loop on the bytes of one connection. \<open>Server_Access\<close>: authentication, replicas and the memory guard.
    \<open>Server_Record\<close>: what a write leaves in the log. \<open>Server_Steps\<close>: all tasks of the server as one step relation and its
    invariant. \<open>Server_Lifecycle\<close>: \<^verbatim>\<open>start\<close> and \<^verbatim>\<open>stop\<close> with the tasks they create and cancel; a step is possible only while its
    task runs.
  \<^item> \<open>Plain_Map\<close>, \<open>Restart\<close>, \<open>Server_Sync\<close>: the abstract cache without deadlines, and the agreement of the log (locale \<open>recorded\<close>)
    and of a replica with it. \<open>Dated_Map\<close>, \<open>Dated_Restart\<close>: the cache with deadlines up to a horizon that no deadline comes
    before, and the agreement of the log with it (a second interpretation of \<open>recorded\<close>). \<open>Dated_Replica\<close>: the agreement of a
    replica with it, up to the delay of its link (a third one).
  \<^item> \<open>Hash_Ring\<close> and \<open>Cluster_Client\<close> are \<^verbatim>\<open>cluster.py\<close>. \<open>Cluster_Routing\<close>: grouping of keys, batches and the pool.
    \<open>Cluster_Shards\<close>: the locale \<open>shard_service\<close>, what the client expects of a shard, with the client's operations verified in it.
    \<open>Cluster_Net\<close> interprets it with real servers of the model, with or without a password, reached over the bytes of the
    protocol. \<open>Cluster_Pipeline\<close>: the locale \<open>batch_service\<close> and pipelines as a sequence of commands on one map.
  \<^item> \<open>Cli_Args\<close> is \<^verbatim>\<open>__main__.py\<close>: sizes, the address of the primary, the options and their defaults. \<open>Main_Process\<close>: from the
    options to the process that runs.
  \<^item> \<open>Data_Properties\<close>, \<open>Log_Properties\<close>, \<open>Cluster_Properties\<close> and this theory state the properties, each with an instance on
    concrete data. \<open>Deviations\<close> has runs of the model in which the code does not do what it means to do.

  \<^bold>\<open>What is shown.\<close> Here: after a restart the log gives back what the store had, with deadlines up to a horizon (C1) and without
  deadlines at any clocks (C30); a replica follows its primary, with deadlines up to a horizon (C2) and without
  deadlines at any delay (C26), with any deadlines for the snapshot (C25); an acknowledged
  write is on disk (C3); the invariant of the running server (C4) and the life of a process from start to stop (C40); access
  (C33 to C35) and what a command line starts (C39). In \<open>Data_Properties\<close>: the store (C7 to C10), the commands (C11 to C16), the
  protocol (C17 to C19, C21), the types of replies (C20). In \<open>Log_Properties\<close>: the log (C22 to C24) and
  the link (C27, C28). In \<open>Cluster_Properties\<close>: the cluster as one map (C5, C6) and for pipelines (C36), the ring (C29,
  C31, C32), pools and times of the client (C37, C38).

  \<^bold>\<open>Choices.\<close>
  \<^item> Time is an argument: a \<open>clock\<close> has the readings of \<^verbatim>\<open>time.monotonic\<close> and \<^verbatim>\<open>time.time\<close>, and an operation that reads a clock
    twice takes both readings. Clock readings and durations are rationals, so the rounding of floats is not modelled; the words for
    infinity and not-a-number are. \<open>clock_ok\<close> bounds the wall clock by 10 to the 18 seconds, which keeps every logged
    deadline shorter than the 4300 digits that Python converts (\<open>int_max_str_digits\<close>).
  \<^item> Python's integers are \<open>int\<close>, with the bounds of the program written out (\<open>INT64_MIN\<close>, \<open>INT64_MAX\<close>).
  \<^item> Exceptions are values of a sum type; an exception does not undo what ran before it.
  \<^item> A connection is the list of bytes it delivers before it ends, so \<open>read_command\<close> returns at every input. \<open>read_reply\<close> takes
    the depth of lists that the recursion limit of Python allows; a reply nested at most that deep is read (C19).
  \<^item> All loops of the model are total: bounded by the input that is left (C21), by the list or the heap they work on. There is
    no fuel but the depth of \<open>read_reply\<close>.
  \<^item> A coroutine runs without interruption between its suspension points; those of the log and of the link are separate steps
    that interleave in \<open>aof_step\<close>, \<open>link_apply\<close> and \<open>server_step\<close>.
  \<^item> The md5 digest of the ring is the parameter \<open>digest\<close>. What the ring does with a key is shown for nodes whose points do not
    collide (\<open>collision_free\<close>); that its lookup equals a scan is shown without that.
  \<^item> C1 and C2 hold until the first deadline passes, C26 and C30 are about keys without deadlines. Past a deadline they do not
    hold of the code: \<open>Deviations\<close> has a key that is lost at a restart and one that comes back. C23 and C25 are the versions with any
    deadlines for a rewritten log and for a snapshot.
  \<^item> C5, C6 and C36 are about servers that answer. The client sends a request again when a reused connection breaks, so a
    command can run twice then: \<open>Deviations\<close> has such an increment.

  \<^bold>\<open>Not modelled.\<close> Sockets, the event loop, signals, \<^verbatim>\<open>argparse\<close> and logging, with them \<^verbatim>\<open>_is_loopback\<close> and \<^verbatim>\<open>_warn_if_exposed\<close>,
  which only log. Timeouts appear only as their outcome, a connection that ends; a task is only whether it runs, and what it
  does at its turns is in the steps. The client as an asynchronous context is its \<open>client_close\<close> without the waiting.
  \<^verbatim>\<open>__init__.py\<close> only re-exports names; \<^verbatim>\<open>benchmarks/bench.py\<close> and \<^verbatim>\<open>verify_cluster.py\<close> drive real servers over sockets and
  print what they measure, so there is nothing of the cache in them.

  \<^bold>\<open>Left to do.\<close> C5, C6 and C36 for shards whose keys have deadlines; the replies of a pipeline when a shard fails in the middle
  of it.
\<close>

section \<open>Data for the instances\<close>

definition start_server :: "pystr option \<Rightarrow> string \<Rightarrow> server" where
  "start_server pass fs = projr (server_init None fs pass None 0 ''allkeys-lru'' 0 0 0 100)"

lemma start_server_run: "List.member FSYNC_POLICIES fs \<Longrightarrow> server_init None fs pass None 0 ''allkeys-lru'' 0 0 0 100 = Inr (start_server pass fs)"
  by (simp add: start_server_def server_init_def store_init_def POLICIES_def)

definition primary_log :: server where
  "primary_log = (start_server None ''always'')\<lparr>aof := Some (log_of [])\<rparr>"


definition later :: clock where
  "later = \<lparr>mono = 7, wall = wall noon + 30\<rparr>"

definition dated_requests :: "(clock \<times> bool \<times> bytes list) list" where
  "dated_requests =
     [(noon, True, [''SET'', ''a'', ''5'', ''EX'', ''100'']), (noon, True, [''INCR'', ''a'']),
      (noon, True, [''SET'', ''b'', ''x'']), (noon, True, [''PEXPIRE'', ''b'', ''90500'']), (noon, True, [''DEL'', ''c''])]"

definition dated_server :: server where
  "dated_server = (start_server None ''no'')\<lparr>sstore := dated_store\<rparr>"

definition replica_server :: server where
  "replica_server = (start_server None ''no'')\<lparr>sstore := dated_store, replica_of := Some (ascii_str ''primary'', 6380)\<rparr>"


section \<open>Starting\<close>

lemma server_init_unlimited:
  assumes "server_init None fs pass mauth 0 pol maxcl outlim msz pct = Inr s0"
  shows "sstore s0 = fresh_store 0 pol" "aof s0 = None" "replicas s0 = []" "replica_of s0 = None" "List.member FSYNC_POLICIES fs"
  using assms by (auto simp: server_init_def store_init_def split: if_splits)

lemma fresh_plain: "sstore s = fresh_store 0 pol \<Longrightarrow> plain_server Map.empty s"
  by (simp add: plain_server_def holds_fresh wire_inv_fresh) (simp add: fresh_store_def)


section \<open>Properties that span components\<close>



text \<open>C2: a replica receives what a primary without a memory limit hands to its link, the snapshot first and then the stream of later
  writes, and runs every command within \<open>\<delta>\<close> of its being sent. The clients of the primary send any commands whose deadlines
  come after a horizon \<open>T\<close>, once the replica is there with times to live that fit in a 64-bit number of milliseconds. Then,
  until \<open>T\<close>, the replica has every key of the primary and no other, whatever it held before, with the same value and a
  deadline at most \<open>\<delta>\<close> and a second away.\<close>

theorem replica_keeps_deadlines:
  assumes "server_init None fs pass mauth 0 pol maxcl outlim msz pct = Inr s0"
    and "clock_in \<sigma> T c0" and "in_order (in_time \<sigma> T) c0 before_sync" and "list_all (request (outlives T)) before_sync"
    and "in_time \<sigma> T (last_clock c0 before_sync) c" and "seconds_ok c (sstore (serve_all before_sync s0))"
    and "serve_replica c (serve_all before_sync s0) = (e, s1)"
    and "in_order (in_time \<sigma> T) c after_sync" and "list_all (request (relayable T)) after_sync"
    and "replicas (serve_all after_sync s1) = [link]"
    and "cmd_inv st0" and "no_evict st0" and "evicted st0 = []"
    and "steady \<sigma>' T clk" and "prompt \<delta> (replicate (sent_so_far s1) (wall c) @ sent_times after_sync s1) clk" and "0 \<le> \<delta>"
  shows "\<exists>st'. stream_loop clk (handed link) 0 st0 = (Primary_closed, st') \<and>
    (\<forall>w k. (\<forall>i. wall (clk i) \<le> w) \<and> wall (last_clock c after_sync) \<le> w \<and> w \<le> T \<longrightarrow>
       close (\<delta> + 1) (seen_at \<sigma> w (sstore (serve_all after_sync s1)) k) (seen_at \<sigma>' w st' k))"
proof -
  note s0 = server_init_unlimited [OF assms(1)]
  have "shows_map (dated_view \<sigma> T) c0 Map.empty s0"
    using fresh_tracks [OF s0(1)] assms(2) wire_inv_fresh [of 0 pol]
    by (simp add: shows_map_def dated_view_def s0(1)) (simp add: fresh_store_def)
  from dated.run_steps [OF this assms(4,3)] s0(3) obtain m where
    m: "shows_map (dated_view \<sigma> T) (last_clock c0 before_sync) m (serve_all before_sync s0)" "replicas (serve_all before_sync s0) = []"
    by auto
  then have "shows_map (dated_view \<sigma> T) c m (serve_all before_sync s0)"
    using dated.later_law [OF _ assms(5)] by (simp add: shows_map_def)
  from dated_follows [OF this m(2) assms(6,7,9,8,10-16)] show ?thesis .
qed

definition synced_primary :: server where
  "synced_primary = snd (serve_replica noon (serve_all dated_requests (start_server None ''no'')))"

definition later_requests :: "(clock \<times> bool \<times> bytes list) list" where
  "later_requests =
     [(noon, True, [''SET'', ''c'', ''y'', ''PX'', ''70500'']), (noon, True, [''INCR'', ''a'']), (noon, True, [''EXPIRE'', ''b'', ''200''])]"

theorem replica_keeps_deadlines_witness:
  "\<exists>st'. stream_loop (\<lambda>_. later) (handed (hd (replicas (serve_all later_requests synced_primary)))) 0 (fresh_store 0 ''noeviction'') =
      (Primary_closed, st') \<and>
    (\<forall>w k. (\<forall>i :: nat. wall later \<le> w) \<and> wall (last_clock noon later_requests) \<le> w \<and> w \<le> wall noon + 60 \<longrightarrow>
       close (30 + 1) (seen_at (wall noon - mono noon) w (sstore (serve_all later_requests synced_primary)) k)
         (seen_at (wall later - mono later) w st' k))"
proof (rule replica_keeps_deadlines)
  show "server_init None ''no'' None None 0 ''allkeys-lru'' 0 0 0 100 = Inr (start_server None ''no'')"
    by (rule start_server_run) code_simp
  show "clock_in (wall noon - mono noon) (wall noon + 60) noon" by (simp add: clock_in_def)
  show "in_order (in_time (wall noon - mono noon) (wall noon + 60)) noon dated_requests"
    by (simp add: clock_in_def dated_requests_def in_time_def)
  show "in_order (in_time (wall noon - mono noon) (wall noon + 60)) noon later_requests"
    by (simp add: clock_in_def later_requests_def in_time_def)
  show "in_time (wall noon - mono noon) (wall noon + 60) (last_clock noon dated_requests) noon"
    by (simp add: clock_in_def in_time_def dated_requests_def)
  show "list_all (request (outlives (wall noon + 60))) dated_requests" by code_simp
  show "list_all (request (relayable (wall noon + 60))) later_requests" by code_simp
  show "seconds_ok noon (sstore (serve_all dated_requests (start_server None ''no'')))" by code_simp
  show "serve_replica noon (serve_all dated_requests (start_server None ''no'')) =
      (fst (serve_replica noon (serve_all dated_requests (start_server None ''no''))), synced_primary)"
    by (simp add: synced_primary_def)
  have "length (replicas (serve_all later_requests synced_primary)) = 1" by code_simp
  then show "replicas (serve_all later_requests synced_primary) = [hd (replicas (serve_all later_requests synced_primary))]"
    by (cases "replicas (serve_all later_requests synced_primary)") simp_all
  show "cmd_inv (fresh_store 0 ''noeviction'')" by (rule cmd_inv_fresh)
  show "no_evict (fresh_store 0 ''noeviction'')" "evicted (fresh_store 0 ''noeviction'') = []"
    by (simp_all add: no_evict_def fresh_store_def)
  show "steady (wall later - mono later) (wall noon + 60) (\<lambda>_. later)" by (simp add: steady_def clock_in_def later_def noon_def)
  show "prompt 30 (replicate (sent_so_far synced_primary) (wall noon) @ sent_times later_requests synced_primary) (\<lambda>_. later)"
    by (rule prompt_const) code_simp
qed simp

text \<open>C3: with the policy \<^verbatim>\<open>always\<close>, when a write is answered without an error its records are in the log after the records
  before it, followed by those of the keys it evicted, and all of the log is on disk.\<close>

theorem acknowledged_write_on_disk:
  assumes "wire_inv (sstore s)" and "clock_ok c" and "command \<noteq> []" and "ok_command command"
    and "is_write_command (server_name command)" and "aof s = Some l" and "disk_ok l" and "fsync l = ''always''"
    and "dispatch c (map Bytes command) (sstore s) = (Inr reply, st1)" and "\<not> is_error reply"
  shows "\<exists>cs s' l'. to_aof_commands (wall c) (map Bytes command) = Inr cs \<and> execute c command s = (Send reply, s') \<and>
    aof s' = Some l' \<and> disk_ok l' \<and> on_disk l' = contents l' \<and>
    contents l' = contents l @ log_bytes (map wire_form
      ((if server_name command \<noteq> ascii_str ''SET'' \<or> writes st1 \<noteq> writes (sstore s) then cs else []) @
       map del_command (evicted st1)))"
  using assms by (rule acknowledged_on_disk)

theorem acknowledged_write_on_disk_witness:
  "\<exists>cs s' l'. to_aof_commands (wall noon) (map Bytes [''SET'', ''k'', ''v'', ''EX'', ''10'']) = Inr cs \<and>
    execute noon [''SET'', ''k'', ''v'', ''EX'', ''10''] primary_log = (Send OK, s') \<and>
    aof s' = Some l' \<and> disk_ok l' \<and> on_disk l' = contents l' \<and>
    contents l' = contents (log_of []) @ log_bytes (map wire_form (cs @
       map del_command (evicted (snd (dispatch noon (map Bytes [''SET'', ''k'', ''v'', ''EX'', ''10'']) (sstore primary_log))))))"
proof -
  let ?c = "[''SET'', ''k'', ''v'', ''EX'', ''10'']"
  have ok: "wire_inv (sstore primary_log)" "clock_ok noon" "ok_command ?c" "is_write_command (server_name ?c)" "\<not> is_error OK"
    by code_simp+
  have "fst (dispatch noon (map Bytes ?c) (sstore primary_log)) = Inr OK" by code_simp
  then have run: "dispatch noon (map Bytes ?c) (sstore primary_log) =
      (Inr OK, snd (dispatch noon (map Bytes ?c) (sstore primary_log)))"
    by (metis prod.collapse)
  have log: "aof primary_log = Some (log_of [])" "disk_ok (log_of [])" "fsync (log_of []) = ''always''"
    by (simp_all add: primary_log_def log_of_def disk_ok_def)
  have written: "writes (snd (dispatch noon (map Bytes ?c) (sstore primary_log))) \<noteq> writes (sstore primary_log)" by code_simp
  show ?thesis
    using acknowledged_write_on_disk [OF ok(1,2) list.distinct(2) ok(3,4) log run ok(5)]
    by (simp only: written simp_thms if_True)
qed



text \<open>C25: the snapshot a replica gets at the start gives it exactly the live keys of the primary, each with a deadline that is
  at most a second later, reckoned from the moment the replica runs the record.\<close>

theorem full_sync_snapshot:
  assumes "wire_inv (sstore s)" and "seconds_ok c (sstore s)" and "serve_replica c s = (e, s')"
    and "cmd_inv st0" and "no_evict st0" and "ticking clk t"
  shows "e = None \<and> (\<exists>link. replicas s' = replicas s @ [link] \<and> \<not> lclosed link \<and>
    (\<exists>st'. stream_loop clk (handed link) 0 st0 = (Primary_closed, st') \<and>
      (\<forall>k. case live (mono c) (sstore s) k of
              None \<Rightarrow> live t st' k = None
            | Some (v, d) \<Rightarrow> \<exists>i. live t st' k =
                view_entry t v (map_option (\<lambda>x. mono (clk i) + of_int (py_trunc (x - mono c) + 1)) d))))"
  using assms by (rule full_sync)

theorem full_sync_snapshot_witness:
  "fst (serve_replica noon dated_server) = None \<and>
   (\<exists>link. replicas (snd (serve_replica noon dated_server)) = replicas dated_server @ [link] \<and> \<not> lclosed link \<and>
    (\<exists>st'. stream_loop (\<lambda>_. noon) (handed link) 0 (fresh_store 0 ''noeviction'') = (Primary_closed, st') \<and>
      (\<forall>k. case live (mono noon) (sstore dated_server) k of
              None \<Rightarrow> live 100 st' k = None
            | Some (v, d) \<Rightarrow> \<exists>i. live 100 st' k =
                view_entry 100 v (map_option (\<lambda>x. mono ((\<lambda>_ :: nat. noon) i) + of_int (py_trunc (x - mono noon) + 1)) d))))"
proof (rule full_sync_snapshot)
  show "wire_inv (sstore dated_server)" by code_simp
  show "seconds_ok noon (sstore dated_server)" by code_simp
  show "serve_replica noon dated_server = (fst (serve_replica noon dated_server), snd (serve_replica noon dated_server))" by simp
  show "cmd_inv (fresh_store 0 ''noeviction'')" by (rule cmd_inv_fresh)
  show "no_evict (fresh_store 0 ''noeviction'')" by (simp add: no_evict_def fresh_store_def)
  show "ticking (\<lambda>_. noon) 100" by (simp add: ticking_def noon_def)
qed


text \<open>C26: a replica that receives what a primary hands to its link, the snapshot first and then the stream of later writes,
  has exactly what the primary has, whatever it held before. The commands set no deadline, the primary has no limit.\<close>

theorem replica_same_contents:
  assumes "server_init None fs pass mauth 0 pol maxcl outlim msz pct = Inr s0" and "list_all plain_request before_sync"
    and "serve_replica c (serve_all before_sync s0) = (e, s1)" and "list_all plain_request after_sync"
    and "link \<in> set (replicas (serve_all after_sync s1))" and "cmd_inv st0" and "no_evict st0"
  shows "\<exists>st'. stream_loop clk (handed link) 0 st0 = (Primary_closed, st') \<and>
    (\<forall>t. live t st' = live t (sstore (serve_all after_sync s1)))"
proof -
  note s0 = server_init_unlimited [OF assms(1)]
  have "plain_server Map.empty s0" using s0(1) by (rule fresh_plain)
  from plain_run [OF this assms(2)] s0(3)
  obtain m where m: "plain_server m (serve_all before_sync s0)" "replicas (serve_all before_sync s0) = []" by auto
  from m assms(3-7) show ?thesis by (rule replica_follows)
qed

theorem replica_same_contents_witness:
  "\<exists>st'. stream_loop (\<lambda>_. noon) (handed (hd (replicas (serve_all [(noon, True, [''INCR'', ''a''])]
        (snd (serve_replica noon (serve_all [(noon, True, [''SET'', ''a'', ''5''])] (start_server None ''no''))))))))
      0 (fresh_store 0 ''noeviction'') = (Primary_closed, st') \<and>
    (\<forall>t. live t st' = live t (sstore (serve_all [(noon, True, [''INCR'', ''a''])]
        (snd (serve_replica noon (serve_all [(noon, True, [''SET'', ''a'', ''5''])] (start_server None ''no'')))))))"
proof (rule replica_same_contents)
  show "server_init None ''no'' None None 0 ''allkeys-lru'' 0 0 0 100 = Inr (start_server None ''no'')"
    by (rule start_server_run) code_simp
  show "list_all plain_request [(noon, True, [''SET'', ''a'', ''5''])]" by code_simp
  show "list_all plain_request [(noon, True, [''INCR'', ''a''])]" by code_simp
  show "serve_replica noon (serve_all [(noon, True, [''SET'', ''a'', ''5''])] (start_server None ''no'')) =
      (fst (serve_replica noon (serve_all [(noon, True, [''SET'', ''a'', ''5''])] (start_server None ''no''))),
       snd (serve_replica noon (serve_all [(noon, True, [''SET'', ''a'', ''5''])] (start_server None ''no''))))" by simp
  have "replicas (serve_all [(noon, True, [''INCR'', ''a''])]
      (snd (serve_replica noon (serve_all [(noon, True, [''SET'', ''a'', ''5''])] (start_server None ''no''))))) \<noteq> []" by code_simp
  then show "hd (replicas (serve_all [(noon, True, [''INCR'', ''a''])]
      (snd (serve_replica noon (serve_all [(noon, True, [''SET'', ''a'', ''5''])] (start_server None ''no'')))))) \<in>
    set (replicas (serve_all [(noon, True, [''INCR'', ''a''])]
      (snd (serve_replica noon (serve_all [(noon, True, [''SET'', ''a'', ''5''])] (start_server None ''no''))))))"
    by (rule hd_in_set)
  show "cmd_inv (fresh_store 0 ''noeviction'')" by (rule cmd_inv_fresh)
qed (simp add: no_evict_def fresh_store_def)




section \<open>What a client may do\<close>

text \<open>C33: on a server with a password, a connection on which the right password is never sent changes nothing but the
  counters, whatever bytes arrive on it.\<close>

theorem unauthenticated_harmless:
  assumes "requirepass s = Some pw" and "utf8_encode pw = Some raw"
    and "list_all (\<lambda>command. \<not> authenticates raw command) (commands_in r)"
  shows "same_data s (snd (snd (snd (client_loop clk buf n False out r s))))"
  using assms by (rule client_loop_unauthenticated)

theorem unauthenticated_harmless_witness:
  "same_data (start_server (Some (ascii_str ''pw'')) ''no'')
     (snd (snd (snd (client_loop (\<lambda>_. noon) (\<lambda>_. 0) 0 False [] (''AUTH x'' @ CRLF @ ''SET a 1'' @ CRLF)
        (start_server (Some (ascii_str ''pw'')) ''no'')))))"
proof (rule unauthenticated_harmless)
  show "requirepass (start_server (Some (ascii_str ''pw'')) ''no'') = Some (ascii_str ''pw'')" by code_simp
  show "utf8_encode (ascii_str ''pw'') = Some ''pw''" by code_simp
  show "list_all (\<lambda>command. \<not> authenticates ''pw'' command) (commands_in (''AUTH x'' @ CRLF @ ''SET a 1'' @ CRLF))" by code_simp
qed

text \<open>C34: on a replica no command of a client whose name is ASCII changes a key, the log or the links.\<close>

theorem replica_read_only:
  assumes "cmd_inv (sstore s)" and "replica_of s \<noteq> None" and "command \<noteq> []" and "is_ascii (hd command)"
    and "mono c \<le> t" and "handle_command c authed command s = (a, authed', s')"
  shows "live t (sstore s') = live t (sstore s) \<and> aof s' = aof s \<and> replicas s' = replicas s"
  using assms by (rule handle_on_replica)

theorem replica_read_only_witness:
  "live 100 (sstore (snd (snd (handle_command noon True [''DEL'', ''a''] replica_server)))) = live 100 (sstore replica_server) \<and>
   aof (snd (snd (handle_command noon True [''DEL'', ''a''] replica_server))) = aof replica_server \<and>
   replicas (snd (snd (handle_command noon True [''DEL'', ''a''] replica_server))) = replicas replica_server"
proof (rule replica_read_only)
  show "cmd_inv (sstore replica_server)" by code_simp
  show "is_ascii (hd [''DEL'', ''a''])" by code_simp
  show "handle_command noon True [''DEL'', ''a''] replica_server =
    (fst (handle_command noon True [''DEL'', ''a''] replica_server), fst (snd (handle_command noon True [''DEL'', ''a''] replica_server)),
     snd (snd (handle_command noon True [''DEL'', ''a''] replica_server)))" by simp
qed (simp_all add: replica_server_def noon_def)




section \<open>The life of a process\<close>









section \<open>The command line\<close>




end
